theory Spec2Isabelle
  imports Main "HOL-Library.Word" "HOL-Library.Product_Lexorder" "HOL-Library.Code_Target_Nat" "HOL-Library.Multiset"
begin

section \<open>Identifiers and errors\<close>

text \<open>
  Vertices and hyperedges are 32-bit unsigned indices in the sources, blocks are signed
  integers and sizes are 64-bit unsigned. Indices are modelled as natural numbers (they
  only address containers), block ids as integers, and \<open>size_t\<close> values that are
  computed with are 64-bit words, so that subtraction and addition wrap as in the code.
  An index outside its container is undefined behaviour in the sources; the model makes it
  the error value \<open>OutOfBounds\<close>.
\<close>

type_synonym HypernodeID = nat
type_synonym HyperedgeID = nat
type_synonym PartitionID = int
type_synonym size_t = "64 word"
type_synonym edge = "PartitionID \<times> PartitionID"

datatype error = OutOfBounds | NotAGraph | AssertionFailed

section \<open>Static hypergraph\<close>

text \<open>
  The members of \<open>StaticHypergraph\<close> that \<open>static_hypergraph.cpp\<close> reads and writes: the
  vertex and hyperedge headers (\<open>_begin\<close>, \<open>_size\<close>, \<open>_weight\<close>, \<open>_valid\<close>), the two
  concatenated arrays and the aggregates. Weights are the signed \<open>HypernodeWeight\<close> and
  \<open>HyperedgeWeight\<close>.
\<close>

record Hypernode =
  hn_begin :: nat
  hn_size :: nat
  hn_weight :: int
  hn_valid :: bool

record Hyperedge =
  he_begin :: nat
  he_size :: nat
  he_weight :: int
  he_valid :: bool

record StaticHypergraph =
  num_hypernodes :: nat
  num_hyperedges :: nat
  num_pins :: nat
  total_degree :: nat
  total_weight :: int
  max_edge_size :: nat
  hypernodes :: "Hypernode list"
  incident_nets :: "HyperedgeID list"
  hyperedges :: "Hyperedge list"
  incidence_array :: "HypernodeID list"
  community_ids :: "PartitionID list"

text \<open>
  Modelled from the spec: the accessors of \<open>static_hypergraph.h\<close>, which is not among the
  given sources, follow the data model of section 3 of the specification: the pins of
  \<open>e\<close> occupy \<open>[first_pin, first_pin + size)\<close> of the incidence array, the nets of \<open>v\<close>
  occupy \<open>[first_incident, first_incident + degree)\<close> of the incident-net array.
\<close>

definition initialNumNodes :: "StaticHypergraph \<Rightarrow> nat" where
  "initialNumNodes hg = num_hypernodes hg"

definition numHyperedges :: "StaticHypergraph \<Rightarrow> nat" where
  "numHyperedges hg = num_hyperedges hg"

definition pins :: "StaticHypergraph \<Rightarrow> HyperedgeID \<Rightarrow> HypernodeID list" where
  "pins hg e = take (he_size (hyperedges hg ! e))
                 (drop (he_begin (hyperedges hg ! e)) (incidence_array hg))"

definition incidentEdges :: "StaticHypergraph \<Rightarrow> HypernodeID \<Rightarrow> HyperedgeID list" where
  "incidentEdges hg v = take (hn_size (hypernodes hg ! v))
                          (drop (hn_begin (hypernodes hg ! v)) (incident_nets hg))"

definition edgeSize :: "StaticHypergraph \<Rightarrow> HyperedgeID \<Rightarrow> nat" where
  "edgeSize hg e = he_size (hyperedges hg ! e)"

definition edgeWeight :: "StaticHypergraph \<Rightarrow> HyperedgeID \<Rightarrow> int" where
  "edgeWeight hg e = he_weight (hyperedges hg ! e)"

definition nodeWeight :: "StaticHypergraph \<Rightarrow> HypernodeID \<Rightarrow> int" where
  "nodeWeight hg v = hn_weight (hypernodes hg ! v)"

definition nodeIsEnabled :: "StaticHypergraph \<Rightarrow> HypernodeID \<Rightarrow> bool" where
  "nodeIsEnabled hg v = hn_valid (hypernodes hg ! v)"

definition edgeIsEnabled :: "StaticHypergraph \<Rightarrow> HyperedgeID \<Rightarrow> bool" where
  "edgeIsEnabled hg e = he_valid (hyperedges hg ! e)"

text \<open>The values that \<open>doParallelForAllNodes\<close> and \<open>doParallelForAllEdges\<close> hand to their
  bodies: the enabled ids, here in ascending order.\<close>

definition enabledNodes :: "StaticHypergraph \<Rightarrow> HypernodeID list" where
  "enabledNodes hg = filter (nodeIsEnabled hg) [0..<num_hypernodes hg]"

definition enabledEdges :: "StaticHypergraph \<Rightarrow> HyperedgeID list" where
  "enabledEdges hg = filter (edgeIsEnabled hg) [0..<num_hyperedges hg]"

text \<open>The largest value of the 32-bit \<open>HypernodeID\<close> and \<open>HyperedgeID\<close> marks an absent
  vertex or hyperedge; the largest \<open>size_t\<close> marks the hash of a removed net.\<close>

definition kInvalidHypernode :: HypernodeID where
  "kInvalidHypernode = 4294967295"

definition kInvalidHyperedge :: HyperedgeID where
  "kInvalidHyperedge = 4294967295"

definition SIZE_MAX :: nat where
  "SIZE_MAX = 18446744073709551615"

section \<open>Quotient graph block scheduler\<close>

text \<open>
  The members of \<open>SchedulerBase\<close> that the modelled methods touch. The two nested
  vectors have \<open>k\<close> rows and \<open>k\<close> columns (\<open>k = context.partition.k\<close>, passed to every
  method); they are stores indexed by block ids, and each method checks its indices
  against \<open>k\<close>.
\<close>

record SchedulerBase =
  quotient_graph :: "edge list"
  block_pair_cut_he :: "PartitionID \<Rightarrow> PartitionID \<Rightarrow> HyperedgeID list"
  block_weights :: "nat \<Rightarrow> nat \<Rightarrow> size_t"

definition SchedulerBase_new :: "SchedulerBase" where
  "SchedulerBase_new =
     \<lparr> quotient_graph = [], block_pair_cut_he = (\<lambda>_ _. []), block_weights = (\<lambda>_ _. 0) \<rparr>"

subsection \<open>The partitioned hypergraph as the scheduler sees it\<close>

text \<open>
  \<open>PartitionedHypergraph\<close> is declared outside the given sources. The scheduler reads it
  through five accessors only, which are taken as they are: the enabled hyperedges in
  iteration order, the number of hyperedges, and per hyperedge its connectivity, its
  connectivity set and its pin count in a block.
\<close>

record PartitionedHypergraph =
  edges :: "HyperedgeID list"
  initialNumEdges :: nat
  connectivity :: "HyperedgeID \<Rightarrow> PartitionID"
  connectivitySet :: "HyperedgeID \<Rightarrow> PartitionID list"
  pinCountInPart :: "HyperedgeID \<Rightarrow> PartitionID \<Rightarrow> nat"

text \<open>
  Modelled from the spec: the overlay of section 3 of the specification, built from the
  pin lists and the block of every vertex: \<open>pin_count_in_part[e][b]\<close> counts the pins of
  \<open>e\<close> in block \<open>b\<close>, the connectivity set lists the blocks with a positive pin count and
  the connectivity is its size. It supplies concrete hypergraphs for the scheduler.
\<close>

definition overlay ::
  "nat \<Rightarrow> HypernodeID list list \<Rightarrow> (HypernodeID \<Rightarrow> PartitionID) \<Rightarrow> PartitionedHypergraph" where
  "overlay k pin_lists part_of =
     \<lparr> edges = [0..<length pin_lists],
       initialNumEdges = length pin_lists,
       connectivity = (\<lambda>e. int (length (filter (\<lambda>b. \<exists>v \<in> set (pin_lists ! e). part_of v = b)
                                      (map int [0..<k])))),
       connectivitySet = (\<lambda>e. filter (\<lambda>b. \<exists>v \<in> set (pin_lists ! e). part_of v = b)
                                  (map int [0..<k])),
       pinCountInPart = (\<lambda>e b. length (filter (\<lambda>v. part_of v = b) (pin_lists ! e))) \<rparr>"

subsection \<open>Building the quotient graph\<close>

text \<open>
  \<open>_block_pair_cut_he[block0][block1].push_back(he)\<close>; both indices must address the
  \<open>k \<times> k\<close> vector.
\<close>

definition push_cut_he ::
  "nat \<Rightarrow> PartitionID \<Rightarrow> PartitionID \<Rightarrow> HyperedgeID
     \<Rightarrow> (PartitionID \<Rightarrow> PartitionID \<Rightarrow> HyperedgeID list)
     \<Rightarrow> error + (PartitionID \<Rightarrow> PartitionID \<Rightarrow> HyperedgeID list)" where
  "push_cut_he k block0 block1 he cuts =
     (if 0 \<le> block0 \<and> block0 < int k \<and> 0 \<le> block1 \<and> block1 < int k
      then Inr (cuts(block0 := (cuts block0)(block1 := cuts block0 block1 @ [he])))
      else Inl OutOfBounds)"

text \<open>
  The three nested loops of \<open>buildQuotientGraph\<close>. The local \<open>std::set<edge>\<close> is a
  sorted list without duplicates (pairs are ordered lexicographically, as \<open>std::pair\<close>
  is), the second component of the accumulator is \<open>_block_pair_cut_he\<close>.
\<close>

fun scan_block1 ::
  "nat \<Rightarrow> HyperedgeID \<Rightarrow> PartitionID \<Rightarrow> PartitionID list
     \<Rightarrow> edge list \<times> (PartitionID \<Rightarrow> PartitionID \<Rightarrow> HyperedgeID list)
     \<Rightarrow> error + edge list \<times> (PartitionID \<Rightarrow> PartitionID \<Rightarrow> HyperedgeID list)" where
  "scan_block1 k he block0 [] acc = Inr acc"
| "scan_block1 k he block0 (block1 # bs) acc =
     (if block0 < block1 then
        (case push_cut_he k block0 block1 he (snd acc) of
           Inl e \<Rightarrow> Inl e
         | Inr cuts \<Rightarrow>
             scan_block1 k he block0 bs (insort_insert (block0, block1) (fst acc), cuts))
      else scan_block1 k he block0 bs acc)"

fun scan_block0 ::
  "nat \<Rightarrow> HyperedgeID \<Rightarrow> PartitionID list \<Rightarrow> PartitionID list
     \<Rightarrow> edge list \<times> (PartitionID \<Rightarrow> PartitionID \<Rightarrow> HyperedgeID list)
     \<Rightarrow> error + edge list \<times> (PartitionID \<Rightarrow> PartitionID \<Rightarrow> HyperedgeID list)" where
  "scan_block0 k he cs [] acc = Inr acc"
| "scan_block0 k he cs (block0 # bs) acc =
     (case scan_block1 k he block0 cs acc of
        Inl e \<Rightarrow> Inl e
      | Inr acc' \<Rightarrow> scan_block0 k he cs bs acc')"

fun scan_edges ::
  "nat \<Rightarrow> PartitionedHypergraph \<Rightarrow> HyperedgeID list
     \<Rightarrow> edge list \<times> (PartitionID \<Rightarrow> PartitionID \<Rightarrow> HyperedgeID list)
     \<Rightarrow> error + edge list \<times> (PartitionID \<Rightarrow> PartitionID \<Rightarrow> HyperedgeID list)" where
  "scan_edges k hg [] acc = Inr acc"
| "scan_edges k hg (he # hes) acc =
     (if connectivity hg he > 1 then
        (case scan_block0 k he (connectivitySet hg he) (connectivitySet hg he) acc of
           Inl e \<Rightarrow> Inl e
         | Inr acc' \<Rightarrow> scan_edges k hg hes acc')
      else scan_edges k hg hes acc)"

definition buildQuotientGraph ::
  "nat \<Rightarrow> PartitionedHypergraph \<Rightarrow> SchedulerBase \<Rightarrow> error + SchedulerBase" where
  "buildQuotientGraph k hg s =
     (case scan_edges k hg (edges hg) ([], block_pair_cut_he s) of
        Inl e \<Rightarrow> Inl e
      | Inr (edge_list, cuts) \<Rightarrow>
          Inr (s\<lparr>quotient_graph := quotient_graph s @ edge_list, block_pair_cut_he := cuts\<rparr>))"

subsection \<open>Cut hyperedges of a block pair\<close>

text \<open>
  The loop of \<open>updateBlockPairCutHyperedges\<close> over \<open>_block_pair_cut_he[block0][block1]\<close>
  (here \<open>cuts\<close>), with its flag array \<open>visited\<close> of \<open>initialNumEdges\<close> entries and the
  counters \<open>i\<close> and \<open>N\<close>. An entry that lost its pins on one side or was seen before is
  swapped with the last entry and popped; \<open>--i\<close> and the loop's \<open>++i\<close> cancel (for
  \<open>i = 0\<close> through the wrap-around of \<open>size_t\<close>), \<open>N\<close> is decremented.
\<close>

function update_loop ::
  "PartitionedHypergraph \<Rightarrow> PartitionID \<Rightarrow> PartitionID \<Rightarrow> bool list \<Rightarrow> HyperedgeID list
     \<Rightarrow> nat \<Rightarrow> nat \<Rightarrow> error + HyperedgeID list" where
  "update_loop hg block0 block1 visited cuts i N =
     (if i < N then
        (if N \<le> length cuts \<and> cuts ! i < length visited then
           (let he = cuts ! i in
            if pinCountInPart hg he block0 = 0 \<or> pinCountInPart hg he block1 = 0
               \<or> visited ! he
            then update_loop hg block0 block1 (visited[he := True])
                   (butlast (cuts[i := cuts ! (N - 1), N - 1 := cuts ! i])) i (N - 1)
            else update_loop hg block0 block1 (visited[he := True]) cuts (i + 1) N)
         else Inl OutOfBounds)
      else Inr cuts)"
  by pat_completeness auto
termination
  by (relation "measure (\<lambda>(hg, block0, block1, visited, cuts, i, N). N - i)") auto

declare update_loop.simps [simp del]

definition updateBlockPairCutHyperedges ::
  "nat \<Rightarrow> PartitionedHypergraph \<Rightarrow> PartitionID \<Rightarrow> PartitionID \<Rightarrow> SchedulerBase
     \<Rightarrow> error + SchedulerBase" where
  "updateBlockPairCutHyperedges k hg block0 block1 s =
     (if 0 \<le> block0 \<and> block0 < int k \<and> 0 \<le> block1 \<and> block1 < int k then
        (case update_loop hg block0 block1 (replicate (initialNumEdges hg) False)
                (block_pair_cut_he s block0 block1) 0
                (length (block_pair_cut_he s block0 block1)) of
           Inl e \<Rightarrow> Inl e
         | Inr cuts \<Rightarrow>
             Inr (s\<lparr>block_pair_cut_he :=
                    (block_pair_cut_he s)(block0 := (block_pair_cut_he s block0)(block1 := cuts))\<rparr>))
      else Inl OutOfBounds)"

text \<open>
  \<open>blockPairCutHyperedges\<close>: the assertion \<open>block0 < block1\<close>, the update, the
  assertion that no hyperedge is contained more than once (the rest of that check is
  commented out in the source), and the list that the returned iterator pair spans.
\<close>

definition blockPairCutHyperedges ::
  "nat \<Rightarrow> PartitionedHypergraph \<Rightarrow> PartitionID \<Rightarrow> PartitionID \<Rightarrow> SchedulerBase
     \<Rightarrow> error + SchedulerBase \<times> HyperedgeID list" where
  "blockPairCutHyperedges k hg block0 block1 s =
     (if \<not> block0 < block1 then Inl AssertionFailed
      else case updateBlockPairCutHyperedges k hg block0 block1 s of
        Inl e \<Rightarrow> Inl e
      | Inr s' \<Rightarrow>
          if distinct (block_pair_cut_he s' block0 block1)
          then Inr (s', block_pair_cut_he s' block0 block1)
          else Inl AssertionFailed)"

subsection \<open>Block weight arbitration\<close>

text \<open>
  \<open>init_block_weights\<close>: the diagonal entry of row \<open>i\<close> becomes the weight of block
  \<open>i\<close> (the parameter \<open>partWeight\<close> stands for the partitioned hypergraph's
  \<open>partWeight\<close>), every other entry of the \<open>k \<times> k\<close> matrix becomes zero.
\<close>

definition init_block_weights :: "nat \<Rightarrow> (nat \<Rightarrow> size_t) \<Rightarrow> SchedulerBase \<Rightarrow> SchedulerBase" where
  "init_block_weights k partWeight s =
     s\<lparr>block_weights := (\<lambda>i j. if i < k \<and> j < k then (if j = i then partWeight i else 0)
                                else block_weights s i j)\<rparr>"

text \<open>
  \<open>aquire_block_weight\<close> stores the amount in the slot of the other block (an
  assignment, not an addition) and subtracts it from the diagonal;
  \<open>release_block_weight\<close> clears the slot and adds the amount back to the diagonal.
\<close>

definition aquire_block_weight ::
  "nat \<Rightarrow> nat \<Rightarrow> nat \<Rightarrow> size_t \<Rightarrow> SchedulerBase \<Rightarrow> error + SchedulerBase" where
  "aquire_block_weight k block_to_aquire other_block amount s =
     (if block_to_aquire < k \<and> other_block < k then
        let W1 = (block_weights s)(block_to_aquire :=
                    (block_weights s block_to_aquire)(other_block := amount));
            W2 = W1(block_to_aquire :=
                    (W1 block_to_aquire)(block_to_aquire :=
                       W1 block_to_aquire block_to_aquire - amount))
        in Inr (s\<lparr>block_weights := W2\<rparr>)
      else Inl OutOfBounds)"

definition release_block_weight ::
  "nat \<Rightarrow> nat \<Rightarrow> nat \<Rightarrow> size_t \<Rightarrow> SchedulerBase \<Rightarrow> error + SchedulerBase" where
  "release_block_weight k block_to_release other_block amount s =
     (if block_to_release < k \<and> other_block < k then
        let W1 = (block_weights s)(block_to_release :=
                    (block_weights s block_to_release)(other_block := 0));
            W2 = W1(block_to_release :=
                    (W1 block_to_release)(block_to_release :=
                       W1 block_to_release block_to_release + amount))
        in Inr (s\<lparr>block_weights := W2\<rparr>)
      else Inl OutOfBounds)"

text \<open>An acquire followed by the matching release, with nothing in between.\<close>

definition aquire_then_release ::
  "nat \<Rightarrow> nat \<Rightarrow> nat \<Rightarrow> size_t \<Rightarrow> SchedulerBase \<Rightarrow> error + SchedulerBase" where
  "aquire_then_release k b b' a s =
     (case aquire_block_weight k b b' a s of
        Inl e \<Rightarrow> Inl e
      | Inr s1 \<Rightarrow> release_block_weight k b b' a s1)"

section \<open>Articulation point search of the natural cut detection\<close>

text \<open>
  The vectors \<open>parent\<close>, \<open>lowPoint\<close> and \<open>depth\<close> of \<open>depthFirstSearch\<close> and the two
  locals of its branch for a vertex whose children were pushed before.
\<close>

record dfs_state =
  parent :: "HypernodeID list"
  lowPoint :: "HypernodeID list"
  depth :: "HypernodeID list"
  children :: int
  isArticulationPoint :: bool

text \<open>
  The body of the inner loop for one pin \<open>u\<close> of an edge incident to the popped vertex
  \<open>v\<close>. The condition of the first \<open>if\<close> is the assignment \<open>parent[u] = v\<close>: it stores
  \<open>v\<close> and is true exactly when the stored value is not zero. The \<open>else if\<close> reads
  \<open>parent[v]\<close> after that store.
\<close>

definition scan_pin :: "HypernodeID \<Rightarrow> HypernodeID \<Rightarrow> dfs_state \<Rightarrow> error + dfs_state" where
  "scan_pin v u s =
     (if u < length (parent s) then
        (let s1 = s\<lparr>parent := (parent s)[u := v]\<rparr> in
         if v \<noteq> 0 then
           (if u < length (lowPoint s1) \<and> v < length (depth s1) \<and> v < length (lowPoint s1) then
              Inr (s1\<lparr>children := children s1 + 1,
                      isArticulationPoint :=
                        (if lowPoint s1 ! u \<ge> depth s1 ! v then True else isArticulationPoint s1),
                      lowPoint := (lowPoint s1)[v := min (lowPoint s1 ! v) (lowPoint s1 ! u)]\<rparr>)
            else Inl OutOfBounds)
         else if v < length (parent s1) then
           (if parent s1 ! v \<noteq> u then
              (if u < length (lowPoint s1) \<and> v < length (lowPoint s1) then
                 Inr (s1\<lparr>lowPoint := (lowPoint s1)[v := min (lowPoint s1 ! v) (lowPoint s1 ! u)]\<rparr>)
               else Inl OutOfBounds)
            else Inr s1)
         else Inl OutOfBounds)
      else Inl OutOfBounds)"

fun scan_pins :: "HypernodeID \<Rightarrow> HypernodeID list \<Rightarrow> dfs_state \<Rightarrow> error + dfs_state" where
  "scan_pins v [] s = Inr s"
| "scan_pins v (u # us) s =
     (case scan_pin v u s of Inl e \<Rightarrow> Inl e | Inr s' \<Rightarrow> scan_pins v us s')"

fun scan_incident_edges ::
  "StaticHypergraph \<Rightarrow> HypernodeID \<Rightarrow> HyperedgeID list \<Rightarrow> dfs_state \<Rightarrow> error + dfs_state" where
  "scan_incident_edges hg v [] s = Inr s"
| "scan_incident_edges hg v (e # es) s =
     (if e < length (hyperedges hg) then
        (case scan_pins v (pins hg e) s of
           Inl err \<Rightarrow> Inl err
         | Inr s' \<Rightarrow> scan_incident_edges hg v es s')
      else Inl OutOfBounds)"

text \<open>
  The scan of the popped vertex \<open>v\<close>: \<open>children\<close> and \<open>isArticulationPoint\<close> start at
  \<open>0\<close> and \<open>false\<close>, then every pin of every incident edge is visited.
\<close>

definition pop_scan :: "StaticHypergraph \<Rightarrow> HypernodeID \<Rightarrow> dfs_state \<Rightarrow> error + dfs_state" where
  "pop_scan hg v s =
     (if v < length (hypernodes hg) then
        scan_incident_edges hg v (incidentEdges hg v)
          (s\<lparr>children := 0, isArticulationPoint := False\<rparr>)
      else Inl OutOfBounds)"

text \<open>The test as the specification says it was intended: the comparison
  \<open>parent[u] == v\<close>, which stores nothing.\<close>

definition scan_pin_intended :: "HypernodeID \<Rightarrow> HypernodeID \<Rightarrow> dfs_state \<Rightarrow> error + dfs_state" where
  "scan_pin_intended v u s =
     (if u < length (parent s) then
        (if parent s ! u = v then
           (if u < length (lowPoint s) \<and> v < length (depth s) \<and> v < length (lowPoint s) then
              Inr (s\<lparr>children := children s + 1,
                     isArticulationPoint :=
                       (if lowPoint s ! u \<ge> depth s ! v then True else isArticulationPoint s),
                     lowPoint := (lowPoint s)[v := min (lowPoint s ! v) (lowPoint s ! u)]\<rparr>)
            else Inl OutOfBounds)
         else if v < length (parent s) then
           (if parent s ! v \<noteq> u then
              (if u < length (lowPoint s) \<and> v < length (lowPoint s) then
                 Inr (s\<lparr>lowPoint := (lowPoint s)[v := min (lowPoint s ! v) (lowPoint s ! u)]\<rparr>)
               else Inl OutOfBounds)
            else Inr s)
         else Inl OutOfBounds)
      else Inl OutOfBounds)"

section \<open>Static graph construction\<close>

text \<open>
  \<open>StaticGraph\<close> stores, per node, the start of its window in the edge array, and per
  directed edge its target, weight and the position of its reverse edge. The class itself is
  declared outside the given sources; a node or an edge that is not given a weight has
  weight 1, which is what the tests of the static graph expect of a graph built without
  weights.
\<close>

record StaticGraph_Node =
  nd_begin :: nat
  nd_weight :: int
  nd_valid :: bool

record StaticGraph_Edge =
  ed_target :: HypernodeID
  ed_weight :: int
  ed_backwards :: nat

record StaticGraph =
  sg_num_nodes :: nat
  sg_num_edges :: nat
  sg_nodes :: "StaticGraph_Node list"
  sg_edges :: "StaticGraph_Edge list"
  sg_community_ids :: "PartitionID list"
  sg_total_weight :: int

definition default_Node :: StaticGraph_Node where
  "default_Node = \<lparr>nd_begin = 0, nd_weight = 1, nd_valid = False\<rparr>"

definition default_Edge :: StaticGraph_Edge where
  "default_Edge = \<lparr>ed_target = 0, ed_weight = 1, ed_backwards = 0\<rparr>"

text \<open>
  The degree count: an edge that does not have exactly two pins stops the construction
  (\<open>ERROR\<close>), a pin that is not a node is outside the counter.
\<close>

fun count_degrees :: "nat \<Rightarrow> HypernodeID list list \<Rightarrow> nat list \<Rightarrow> error + nat list" where
  "count_degrees num_nodes [] num_degree_per_vertex = Inr num_degree_per_vertex"
| "count_degrees num_nodes (e # es) num_degree_per_vertex =
     (if length e \<noteq> 2 then Inl NotAGraph
      else if \<exists>pin\<in>set e. \<not> pin < num_nodes then Inl OutOfBounds
      else count_degrees num_nodes es
             (fold (\<lambda>pin d. d[pin := d ! pin + 1]) e num_degree_per_vertex))"

text \<open>The prefix sum over the degrees: entry \<open>i\<close> is the sum of the degrees before
  \<open>i\<close>, the start of the window of node \<open>i\<close>.\<close>

definition degree_prefix_sum :: "nat list \<Rightarrow> nat \<Rightarrow> nat" where
  "degree_prefix_sum degs i = sum_list (take i degs)"

text \<open>
  One iteration of \<open>setup_edges\<close>, for the input edge at \<open>pos\<close>: each pin takes the next
  free slot of its window (the cursor \<open>incident_edges_position\<close> is bumped), and the two
  slots are filled with the directed edges.
\<close>

definition setup_edge ::
  "HypernodeID list list \<Rightarrow> int list option \<Rightarrow> nat list \<Rightarrow> nat
     \<Rightarrow> nat list \<times> StaticGraph_Edge list \<Rightarrow> error + nat list \<times> StaticGraph_Edge list" where
  "setup_edge edge_vector edge_weight degs pos st =
     (let incident_edges_position = fst st; es = snd st in
      if pos < length edge_vector \<and> 1 < length (edge_vector ! pos) then
        (let pin0 = edge_vector ! pos ! 0 in
         if pin0 < length incident_edges_position then
           (let incident_edges_pos0 = degree_prefix_sum degs pin0 + incident_edges_position ! pin0;
                cursor1 = incident_edges_position[pin0 := incident_edges_position ! pin0 + 1];
                pin1 = edge_vector ! pos ! 1 in
            if incident_edges_pos0 < length es \<and> pin1 < length cursor1 then
              (let incident_edges_pos1 = degree_prefix_sum degs pin1 + cursor1 ! pin1;
                   cursor2 = cursor1[pin1 := cursor1 ! pin1 + 1] in
               if incident_edges_pos1 < length es then
                 (case edge_weight of
                    None \<Rightarrow>
                      Inr (cursor2,
                           es[incident_edges_pos0 := (es ! incident_edges_pos0)
                                 \<lparr>ed_target := pin1, ed_backwards := incident_edges_pos1\<rparr>,
                              incident_edges_pos1 := (es ! incident_edges_pos1)
                                 \<lparr>ed_target := pin0, ed_backwards := incident_edges_pos0\<rparr>])
                  | Some w \<Rightarrow>
                      if pos < length w then
                        Inr (cursor2,
                             es[incident_edges_pos0 := \<lparr>ed_target = pin1, ed_weight = w ! pos,
                                                        ed_backwards = incident_edges_pos1\<rparr>,
                                incident_edges_pos1 := \<lparr>ed_target = pin0, ed_weight = w ! pos,
                                                        ed_backwards = incident_edges_pos0\<rparr>])
                      else Inl OutOfBounds)
               else Inl OutOfBounds)
            else Inl OutOfBounds)
         else Inl OutOfBounds)
      else Inl OutOfBounds)"

text \<open>
  \<open>setup_edges\<close> is a parallel loop over the input edges whose iterations bump shared
  cursors, so the slot an edge gets depends on the order in which the iterations run. The
  list \<open>schedule\<close> is that order; \<open>[0..<num_edges]\<close> is the sequential one.
\<close>

fun setup_edges ::
  "HypernodeID list list \<Rightarrow> int list option \<Rightarrow> nat list \<Rightarrow> nat list
     \<Rightarrow> nat list \<times> StaticGraph_Edge list \<Rightarrow> error + nat list \<times> StaticGraph_Edge list" where
  "setup_edges edge_vector edge_weight degs [] st = Inr st"
| "setup_edges edge_vector edge_weight degs (pos # schedule) st =
     (case setup_edge edge_vector edge_weight degs pos st of
        Inl e \<Rightarrow> Inl e
      | Inr st' \<Rightarrow> setup_edges edge_vector edge_weight degs schedule st')"

definition setup_nodes :: "nat \<Rightarrow> int list option \<Rightarrow> nat list \<Rightarrow> error + StaticGraph_Node list" where
  "setup_nodes num_nodes node_weight degs =
     (case node_weight of
        None \<Rightarrow> Inr (map (\<lambda>pos. \<lparr>nd_begin = degree_prefix_sum degs pos, nd_weight = 1,
                                  nd_valid = True\<rparr>) [0..<num_nodes])
      | Some w \<Rightarrow>
          if num_nodes \<le> length w then
            Inr (map (\<lambda>pos. \<lparr>nd_begin = degree_prefix_sum degs pos, nd_weight = w ! pos,
                              nd_valid = True\<rparr>) [0..<num_nodes])
          else Inl OutOfBounds)"

text \<open>
  The sort of one node's window by target, in place. \<open>std::sort\<close> leaves the order of
  entries with equal targets open; the model keeps their order.
\<close>

definition sort_window ::
  "nat \<Rightarrow> nat \<Rightarrow> StaticGraph_Edge list \<Rightarrow> StaticGraph_Edge list" where
  "sort_window b e es = take b es @ sort_key ed_target (take (e - b) (drop b es)) @ drop e es"

definition sort_incident_edges ::
  "nat \<Rightarrow> StaticGraph_Node list \<Rightarrow> StaticGraph_Edge list \<Rightarrow> StaticGraph_Edge list" where
  "sort_incident_edges num_nodes nodes es =
     fold (\<lambda>u es'. sort_window (nd_begin (nodes ! u)) (nd_begin (nodes ! (u + 1))) es')
       [0..<num_nodes] es"

definition computeTotalNodeWeight :: "nat \<Rightarrow> StaticGraph_Node list \<Rightarrow> int" where
  "computeTotalNodeWeight num_nodes nodes =
     sum_list (map (\<lambda>hn. if nd_valid (nodes ! hn) then nd_weight (nodes ! hn) else 0)
                 [0..<num_nodes])"

text \<open>
  \<open>StaticGraphFactory::construct\<close>. The node array has \<open>num_nodes + 1\<close> entries, the last
  one the sentinel that starts at the end of the edge array; the edge array has
  \<open>2 * num_edges\<close> entries. The windows are sorted only when
  \<open>stable_construction_of_degree\<close> is set.
\<close>

definition construct ::
  "nat list \<Rightarrow> nat \<Rightarrow> nat \<Rightarrow> HypernodeID list list \<Rightarrow> int list option \<Rightarrow> int list option
     \<Rightarrow> bool \<Rightarrow> error + StaticGraph" where
  "construct schedule num_nodes num_edges edge_vector edge_weight node_weight
       stable_construction_of_degree =
     (if length edge_vector \<noteq> num_edges then Inl AssertionFailed
      else case count_degrees num_nodes edge_vector (replicate num_nodes 0) of
        Inl e \<Rightarrow> Inl e
      | Inr degs \<Rightarrow>
         (case setup_edges edge_vector edge_weight degs schedule
                 (replicate num_nodes 0, replicate (2 * num_edges) default_Edge) of
            Inl e \<Rightarrow> Inl e
          | Inr (cursor, es) \<Rightarrow>
             (case setup_nodes num_nodes node_weight degs of
                Inl e \<Rightarrow> Inl e
              | Inr ns \<Rightarrow>
                 (let nodes = ns @ [default_Node\<lparr>nd_begin := length es\<rparr>];
                      es' = (if stable_construction_of_degree
                             then sort_incident_edges num_nodes nodes es else es)
                  in Inr \<lparr> sg_num_nodes = num_nodes, sg_num_edges = num_edges,
                           sg_nodes = nodes, sg_edges = es',
                           sg_community_ids = replicate num_nodes 0,
                           sg_total_weight = computeTotalNodeWeight num_nodes nodes \<rparr>))))"

text \<open>The entries of the edge array in the window of node \<open>u\<close>, from the start of \<open>u\<close>
  to the start of \<open>u + 1\<close>.\<close>

definition incident_entries :: "StaticGraph \<Rightarrow> HypernodeID \<Rightarrow> StaticGraph_Edge list" where
  "incident_entries g u =
     take (nd_begin (sg_nodes g ! (u + 1)) - nd_begin (sg_nodes g ! u))
       (drop (nd_begin (sg_nodes g ! u)) (sg_edges g))"

definition incident_targets :: "StaticGraph \<Rightarrow> HypernodeID \<Rightarrow> HypernodeID list" where
  "incident_targets g u = map ed_target (incident_entries g u)"


text \<open>
  Modelled from the spec: the incident nets of a node of a static graph.
  \<open>StaticGraph::incidentEdges\<close> is declared in \<open>static_graph.h\<close>, which is not among the
  given sources. The id of a directed edge is its position in the edge array (the tests of
  the static graph expect the incident nets 0, 1 of node 1, 2, 3 of node 2 and 10, 11 of
  node 6), so the incident nets of \<open>u\<close> are the positions of its window, from the start of
  \<open>u\<close> to the start of \<open>u + 1\<close>.
\<close>

definition sg_incidentEdges :: "StaticGraph \<Rightarrow> HypernodeID \<Rightarrow> HyperedgeID list" where
  "sg_incidentEdges g u = [nd_begin (sg_nodes g ! u) ..< nd_begin (sg_nodes g ! (u + 1))]"

text \<open>The sort of the range \<open>[b, e)\<close> of an array by a key, in place; the window sorts of
  the factories and of the contraction are instances of it.\<close>

definition sort_range :: "('a \<Rightarrow> 'k::linorder) \<Rightarrow> nat \<Rightarrow> nat \<Rightarrow> 'a list \<Rightarrow> 'a list" where
  "sort_range k b e xs = take b xs @ sort_key k (take (e - b) (drop b xs)) @ drop e xs"
section \<open>Contraction\<close>

text \<open>
  \<open>StaticHypergraph::contract\<close> returns \<open>contract_v2(communities)\<close> in its first
  statement; the rest of its body is never reached. The model follows \<open>contract_v2\<close>
  phase by phase. Its parallel loops write disjoint places (or, for the cluster bitmap, the
  same value), so each is a loop over the ids in ascending order; the thread-local bitmap
  \<open>contained\<close> is one bitmap that is handed from iteration to iteration.
\<close>

record ContractedHyperedgeInformation =
  chi_he :: HyperedgeID
  chi_hash :: nat
  chi_size :: nat
  chi_valid :: bool

text \<open>A default-constructed entry; \<open>kEdgeHashSeed\<close> is declared outside the given
  sources and is passed in as \<open>seed\<close>.\<close>

definition default_chi :: "nat \<Rightarrow> ContractedHyperedgeInformation" where
  "default_chi seed =
     \<lparr>chi_he = kInvalidHyperedge, chi_hash = seed, chi_size = SIZE_MAX, chi_valid = False\<rparr>"

text \<open>\<open>operator<\<close> compares \<open>(hash, size, he)\<close> lexicographically.\<close>

definition chi_key :: "ContractedHyperedgeInformation \<Rightarrow> nat \<times> nat \<times> nat" where
  "chi_key p = (chi_hash p, chi_size p, chi_he p)"

subsection \<open>Compactification of the cluster ids\<close>

text \<open>\<open>mapping[clusters[u]] = 1\<close> for every \<open>u\<close> below \<open>initialNumNodes()\<close>, enabled or
  not.\<close>

fun mark_clusters :: "HypernodeID list \<Rightarrow> HypernodeID list \<Rightarrow> nat list \<Rightarrow> error + nat list" where
  "mark_clusters clusters [] mapping = Inr mapping"
| "mark_clusters clusters (u # us) mapping =
     (if u < length clusters \<and> clusters ! u < length mapping
      then mark_clusters clusters us (mapping[clusters ! u := 1])
      else Inl OutOfBounds)"

text \<open>The prefix sum is inclusive (the source subtracts one afterwards for that
  reason).\<close>

definition inclusive_prefix_sum :: "nat list \<Rightarrow> nat list" where
  "inclusive_prefix_sum xs = map (\<lambda>i. sum_list (take (i + 1) xs)) [0..<length xs]"

text \<open>Subtracting one from a 32-bit unsigned value.\<close>

definition dec_u32 :: "nat \<Rightarrow> nat" where
  "dec_u32 x = (if x = 0 then 4294967295 else x - 1)"

definition present_bitmap :: "StaticHypergraph \<Rightarrow> HypernodeID list \<Rightarrow> error + nat list" where
  "present_bitmap hg clusters =
     mark_clusters clusters [0..<initialNumNodes hg] (replicate (initialNumNodes hg) 0)"

definition compactify ::
  "StaticHypergraph \<Rightarrow> HypernodeID list \<Rightarrow> error + nat \<times> HypernodeID list" where
  "compactify hg clusters =
     (case present_bitmap hg clusters of
        Inl e \<Rightarrow> Inl e
      | Inr present \<Rightarrow>
          (let mapping = inclusive_prefix_sum present in
           if initialNumNodes hg = 0 then Inl OutOfBounds
           else Inr (mapping ! (initialNumNodes hg - 1),
                     map (\<lambda>u. if nodeIsEnabled hg u then dec_u32 (mapping ! (clusters ! u))
                               else kInvalidHypernode) [0..<initialNumNodes hg]
                     @ drop (initialNumNodes hg) clusters)))"

subsection \<open>Coarse pin lists\<close>

text \<open>
  The pins of one hyperedge are mapped to their clusters; a cluster is appended to the pin
  list when it is valid and its bit in \<open>contained\<close> is not set yet. The state is the bitmap
  and the pin list.
\<close>

fun map_pins ::
  "HypernodeID list \<Rightarrow> HypernodeID list \<Rightarrow> bool list \<times> HypernodeID list
     \<Rightarrow> error + bool list \<times> HypernodeID list" where
  "map_pins clusters [] st = Inr st"
| "map_pins clusters (v # vs) st =
     (if v < length clusters then
        (let cv = clusters ! v in
         if cv \<noteq> kInvalidHypernode then
           (if cv < length (fst st) then
              (if \<not> fst st ! cv
               then map_pins clusters vs ((fst st)[cv := True], snd st @ [cv])
               else map_pins clusters vs st)
            else Inl OutOfBounds)
         else map_pins clusters vs st)
      else Inl OutOfBounds)"

definition reset_bits :: "HypernodeID list \<Rightarrow> bool list \<Rightarrow> bool list" where
  "reset_bits pin_list contained' = fold (\<lambda>v c. c[v := False]) pin_list contained'"

definition set_bits :: "HypernodeID list \<Rightarrow> bool list \<Rightarrow> bool list" where
  "set_bits pin_list contained' = fold (\<lambda>v c. c[v := True]) pin_list contained'"

text \<open>The fingerprint: 420 plus the squares of the coarse pins, in \<open>size_t\<close>
  arithmetic.\<close>

definition edge_hash :: "HypernodeID list \<Rightarrow> nat" where
  "edge_hash pin_list =
     fold (\<lambda>v h. (h + (v * v) mod 18446744073709551616) mod 18446744073709551616) pin_list 420"

definition pin_list_step ::
  "StaticHypergraph \<Rightarrow> HypernodeID list \<Rightarrow> HyperedgeID
     \<Rightarrow> bool list \<times> HypernodeID list list \<times> ContractedHyperedgeInformation list
     \<Rightarrow> error + bool list \<times> HypernodeID list list \<times> ContractedHyperedgeInformation list" where
  "pin_list_step hg clusters he st =
     (case st of (contained', coarse_pin_lists, permutation) \<Rightarrow>
        if he < length coarse_pin_lists \<and> he < length permutation \<and> he < length (hyperedges hg)
        then
          (case map_pins clusters (pins hg he) (contained', coarse_pin_lists ! he) of
             Inl e \<Rightarrow> Inl e
           | Inr (contained1, pin_list) \<Rightarrow>
               (let contained2 = reset_bits pin_list contained1 in
                if length pin_list > 1 then
                  Inr (contained2, coarse_pin_lists[he := pin_list],
                       permutation[he := \<lparr>chi_he = he, chi_hash = edge_hash pin_list,
                                           chi_size = length pin_list, chi_valid = True\<rparr>])
                else
                  Inr (contained2, coarse_pin_lists[he := []],
                       permutation[he := \<lparr>chi_he = he, chi_hash = SIZE_MAX,
                                           chi_size = 0, chi_valid = False\<rparr>])))
        else Inl OutOfBounds)"

fun pin_lists_loop ::
  "StaticHypergraph \<Rightarrow> HypernodeID list \<Rightarrow> HyperedgeID list
     \<Rightarrow> bool list \<times> HypernodeID list list \<times> ContractedHyperedgeInformation list
     \<Rightarrow> error + bool list \<times> HypernodeID list list \<times> ContractedHyperedgeInformation list" where
  "pin_lists_loop hg clusters [] st = Inr st"
| "pin_lists_loop hg clusters (he # hes) st =
     (case pin_list_step hg clusters he st of
        Inl e \<Rightarrow> Inl e
      | Inr st' \<Rightarrow> pin_lists_loop hg clusters hes st')"

subsection \<open>Identical net detection\<close>

text \<open>
  \<open>HyperedgeWeight\<close> is a signed 32-bit integer: a sum of hyperedge weights that leaves
  the range \<open>-2^31 .. 2^31 - 1\<close> wraps around. \<open>wrap_weight\<close> is the value that a 32-bit
  two's complement register holds for the integer \<open>x\<close>.
\<close>

definition wrap_weight :: "int \<Rightarrow> int" where
  "wrap_weight x = (x + 2147483648) mod 4294967296 - 2147483648"

text \<open>
  The loop over the candidates \<open>j\<close> behind a representative: a candidate that is still
  valid and whose pins are all marked in \<open>contained\<close> is invalidated, its weight is added
  to the weight of the representative (in 32-bit arithmetic) and its pin list is cleared. \<open>n\<close> is
  \<open>permutation.size()\<close>.
\<close>

fun all_contained :: "bool list \<Rightarrow> HypernodeID list \<Rightarrow> error + bool" where
  "all_contained contained' [] = Inr True"
| "all_contained contained' (v # vs) =
     (if v < length contained'
      then (if contained' ! v then all_contained contained' vs else Inr False)
      else Inl OutOfBounds)"

function cand_loop ::
  "StaticHypergraph \<Rightarrow> bool list \<Rightarrow> nat \<Rightarrow> nat \<Rightarrow> nat \<Rightarrow> nat
     \<Rightarrow> ContractedHyperedgeInformation list \<times> HypernodeID list list \<times> int
     \<Rightarrow> error + ContractedHyperedgeInformation list \<times> HypernodeID list list \<times> int" where
  "cand_loop hg contained' hash rep_size n j st =
     (case st of (permutation, coarse_pin_lists, rep_weight) \<Rightarrow>
        if j < n then
          (if j < length permutation then
             (if hash = chi_hash (permutation ! j) \<and> rep_size = chi_size (permutation ! j) then
                (let cand = permutation ! j in
                 if chi_he cand < length coarse_pin_lists then
                   (if chi_valid cand then
                      (case all_contained contained' (coarse_pin_lists ! chi_he cand) of
                         Inl e \<Rightarrow> Inl e
                       | Inr True \<Rightarrow>
                           if chi_he cand < length (hyperedges hg) then
                             cand_loop hg contained' hash rep_size n (j + 1)
                               (permutation[j := cand\<lparr>chi_valid := False\<rparr>],
                                coarse_pin_lists[chi_he cand := []],
                                wrap_weight (rep_weight + edgeWeight hg (chi_he cand)))
                           else Inl OutOfBounds
                       | Inr False \<Rightarrow> cand_loop hg contained' hash rep_size n (j + 1) st)
                    else cand_loop hg contained' hash rep_size n (j + 1) st)
                 else Inl OutOfBounds)
              else Inr st)
           else Inl OutOfBounds)
        else Inr st)"
  by pat_completeness auto
termination
  by (relation "measure (\<lambda>(hg, contained', hash, rep_size, n, j, st). n - j)") auto

declare cand_loop.simps [simp del]

text \<open>
  The loop over the positions of one run of equal hash. The state is the permutation, the
  coarse pin lists, the coarse edge weights, the bitmap and the two local counters.
\<close>

type_synonym run_state =
  "ContractedHyperedgeInformation list \<times> HypernodeID list list \<times> int list \<times> bool list
     \<times> nat \<times> nat"

function run_loop ::
  "StaticHypergraph \<Rightarrow> nat \<Rightarrow> nat \<Rightarrow> nat \<Rightarrow> run_state \<Rightarrow> error + run_state" where
  "run_loop hg hash n pos st =
     (case st of
        (permutation, coarse_pin_lists, coarse_edge_weights, contained',
         num_local_nets, num_local_pins) \<Rightarrow>
        if pos < n then
          (if pos < length permutation then
             (if hash = chi_hash (permutation ! pos) then
                (let rep = permutation ! pos in
                 if chi_he rep < length (hyperedges hg) then
                   (if chi_valid rep then
                      (if chi_he rep < length coarse_pin_lists
                          \<and> chi_he rep < length coarse_edge_weights
                          \<and> (\<forall>v \<in> set (coarse_pin_lists ! chi_he rep). v < length contained')
                       then
                         (case cand_loop hg (set_bits (coarse_pin_lists ! chi_he rep) contained')
                                 hash (chi_size rep) n (pos + 1)
                                 (permutation, coarse_pin_lists, edgeWeight hg (chi_he rep)) of
                            Inl e \<Rightarrow> Inl e
                          | Inr (permutation', coarse_pin_lists', rep_weight) \<Rightarrow>
                              run_loop hg hash n (pos + 1)
                                (permutation', coarse_pin_lists',
                                 coarse_edge_weights[chi_he rep := rep_weight],
                                 reset_bits (coarse_pin_lists' ! chi_he rep)
                                   (set_bits (coarse_pin_lists ! chi_he rep) contained'),
                                 num_local_nets + 1,
                                 num_local_pins + length (coarse_pin_lists' ! chi_he rep)))
                       else Inl OutOfBounds)
                    else run_loop hg hash n (pos + 1) st)
                 else Inl OutOfBounds)
              else Inr st)
           else Inl OutOfBounds)
        else Inr st)"
  by pat_completeness auto
termination
  by (relation "measure (\<lambda>(hg, hash, n, pos, st). n - pos)") auto

declare run_loop.simps [simp del]

text \<open>
  The body that \<open>doParallelForAllEdges\<close> runs for the position \<open>pos\<close>: a run is processed
  from \<open>pos\<close> when the entry there starts a run of equal hash and is valid. The counters
  of the coarse nets and pins are added up at the end of the run.
\<close>

type_synonym detect_state =
  "ContractedHyperedgeInformation list \<times> HypernodeID list list \<times> int list \<times> bool list
     \<times> nat \<times> nat"

definition detect_step :: "StaticHypergraph \<Rightarrow> nat \<Rightarrow> detect_state \<Rightarrow> error + detect_state" where
  "detect_step hg pos st =
     (case st of
        (permutation, coarse_pin_lists, coarse_edge_weights, contained',
         num_coarse_nets, num_coarse_pins) \<Rightarrow>
        if pos < length permutation then
          (if (pos = 0 \<or> chi_hash (permutation ! pos) \<noteq> chi_hash (permutation ! (pos - 1)))
              \<and> chi_valid (permutation ! pos)
           then
             (case run_loop hg (chi_hash (permutation ! pos)) (length permutation) pos
                     (permutation, coarse_pin_lists, coarse_edge_weights, contained', 0, 0) of
                Inl e \<Rightarrow> Inl e
              | Inr (permutation', coarse_pin_lists', coarse_edge_weights', contained2,
                     num_local_nets, num_local_pins) \<Rightarrow>
                  Inr (permutation', coarse_pin_lists', coarse_edge_weights', contained2,
                       num_coarse_nets + num_local_nets, num_coarse_pins + num_local_pins))
           else Inr st)
        else Inl OutOfBounds)"

fun detect_loop ::
  "StaticHypergraph \<Rightarrow> nat list \<Rightarrow> detect_state \<Rightarrow> error + detect_state" where
  "detect_loop hg [] st = Inr st"
| "detect_loop hg (pos # ps) st =
     (case detect_step hg pos st of
        Inl e \<Rightarrow> Inl e
      | Inr st' \<Rightarrow> detect_loop hg ps st')"


subsection \<open>Writing the coarse hypergraph\<close>

text \<open>
  The prefix sum over the fine hyperedges: a hyperedge whose coarse pin list is not empty
  gets the next coarse id, and its header is written there. The state is the running sum of
  the sizes, the next coarse id, \<open>chg._hyperedges\<close> and \<open>offsets_for_fine_nets\<close>.
\<close>

fun write_headers ::
  "HypernodeID list list \<Rightarrow> int list \<Rightarrow> HyperedgeID list
     \<Rightarrow> nat \<times> nat \<times> Hyperedge list \<times> nat list
     \<Rightarrow> error + nat \<times> nat \<times> Hyperedge list \<times> nat list" where
  "write_headers coarse_pin_lists coarse_edge_weights [] st = Inr st"
| "write_headers coarse_pin_lists coarse_edge_weights (he # hes) st =
     (case st of (net_size_sum, coarse_net_id, chg_hyperedges, offsets_for_fine_nets) \<Rightarrow>
        if he < length coarse_pin_lists then
          (if coarse_pin_lists ! he \<noteq> [] then
             (if coarse_net_id < length chg_hyperedges \<and> he < length coarse_edge_weights
                 \<and> he < length offsets_for_fine_nets
              then write_headers coarse_pin_lists coarse_edge_weights hes
                     (net_size_sum + length (coarse_pin_lists ! he), coarse_net_id + 1,
                      chg_hyperedges[coarse_net_id :=
                        \<lparr>he_begin = net_size_sum, he_size = length (coarse_pin_lists ! he),
                         he_weight = coarse_edge_weights ! he, he_valid = True\<rparr>],
                      offsets_for_fine_nets[he := net_size_sum])
              else Inl OutOfBounds)
           else write_headers coarse_pin_lists coarse_edge_weights hes st)
        else Inl OutOfBounds)"

text \<open>Copying one pin list to the incidence array from \<open>pos\<close> on; every pin bumps the
  degree (\<open>_size\<close>) of its coarse vertex.\<close>

fun write_pins ::
  "HypernodeID list \<Rightarrow> nat \<Rightarrow> HypernodeID list \<times> nat list
     \<Rightarrow> error + HypernodeID list \<times> nat list" where
  "write_pins [] pos st = Inr st"
| "write_pins (v # vs) pos st =
     (if pos < length (fst st) \<and> v < length (snd st)
      then write_pins vs (pos + 1) ((fst st)[pos := v], (snd st)[v := snd st ! v + 1])
      else Inl OutOfBounds)"

fun copy_pin_lists ::
  "HypernodeID list list \<Rightarrow> nat list \<Rightarrow> HyperedgeID list
     \<Rightarrow> HypernodeID list \<times> nat list \<Rightarrow> error + HypernodeID list \<times> nat list" where
  "copy_pin_lists coarse_pin_lists offsets_for_fine_nets [] st = Inr st"
| "copy_pin_lists coarse_pin_lists offsets_for_fine_nets (he # hes) st =
     (if he < length coarse_pin_lists \<and> he < length offsets_for_fine_nets then
        (if coarse_pin_lists ! he \<noteq> [] then
           (case write_pins (coarse_pin_lists ! he) (offsets_for_fine_nets ! he) st of
              Inl e \<Rightarrow> Inl e
            | Inr st' \<Rightarrow> copy_pin_lists coarse_pin_lists offsets_for_fine_nets hes st')
         else copy_pin_lists coarse_pin_lists offsets_for_fine_nets hes st)
      else Inl OutOfBounds)"

text \<open>The prefix sum over the degrees of the coarse vertices gives the start of every
  window of incident nets.\<close>

definition exclusive_prefix_sum :: "nat list \<Rightarrow> nat list" where
  "exclusive_prefix_sum xs = map (\<lambda>i. sum_list (take i xs)) [0..<length xs]"

text \<open>
  Every coarse net is entered into the window of each of its pins at the pin's cursor
  (\<open>_begin\<close>, bumped by the write). The order within a window depends on the order in
  which the nets are handled; here it is ascending, and the windows are sorted afterwards as
  in the source.
\<close>

fun scatter_net ::
  "HyperedgeID \<Rightarrow> HypernodeID list \<Rightarrow> nat list \<times> HyperedgeID list
     \<Rightarrow> error + nat list \<times> HyperedgeID list" where
  "scatter_net he [] st = Inr st"
| "scatter_net he (v # vs) st =
     (if v < length (fst st) \<and> fst st ! v < length (snd st)
      then scatter_net he vs ((fst st)[v := fst st ! v + 1], (snd st)[fst st ! v := he])
      else Inl OutOfBounds)"

fun scatter_nets ::
  "(HyperedgeID \<Rightarrow> HypernodeID list) \<Rightarrow> HyperedgeID list \<Rightarrow> nat list \<times> HyperedgeID list
     \<Rightarrow> error + nat list \<times> HyperedgeID list" where
  "scatter_nets pins_of [] st = Inr st"
| "scatter_nets pins_of (he # hes) st =
     (case scatter_net he (pins_of he) st of
        Inl e \<Rightarrow> Inl e
      | Inr st' \<Rightarrow> scatter_nets pins_of hes st')"

definition sort_nets_window :: "nat \<Rightarrow> nat \<Rightarrow> HyperedgeID list \<Rightarrow> HyperedgeID list" where
  "sort_nets_window b e nets = take b nets @ sort (take (e - b) (drop b nets)) @ drop e nets"

text \<open>
  The weights of the enabled fine vertices are added to their coarse vertices, and the
  community of a coarse vertex is overwritten by each of its fine vertices (in the source
  the last writer is decided by the scheduling).
\<close>

fun aggregate_nodes ::
  "StaticHypergraph \<Rightarrow> HypernodeID list \<Rightarrow> HypernodeID list \<Rightarrow> int list \<times> PartitionID list
     \<Rightarrow> error + int list \<times> PartitionID list" where
  "aggregate_nodes hg clusters [] st = Inr st"
| "aggregate_nodes hg clusters (u # us) st =
     (if u < length clusters \<and> clusters ! u < length (fst st) \<and> clusters ! u < length (snd st)
         \<and> u < length (hypernodes hg) \<and> u < length (community_ids hg)
      then aggregate_nodes hg clusters us
             ((fst st)[clusters ! u := fst st ! (clusters ! u) + nodeWeight hg u],
              (snd st)[clusters ! u := community_ids hg ! u])
      else Inl OutOfBounds)"

subsection \<open>The contraction\<close>

definition contract_v2 ::
  "nat \<Rightarrow> StaticHypergraph \<Rightarrow> HypernodeID list \<Rightarrow> error + StaticHypergraph \<times> HypernodeID list" where
  "contract_v2 seed hg clusters0 =
     (case compactify hg clusters0 of
        Inl e \<Rightarrow> Inl e
      | Inr (num_coarse_nodes, clusters) \<Rightarrow>
     (case pin_lists_loop hg clusters (enabledEdges hg)
             (replicate num_coarse_nodes False,
              replicate (numHyperedges hg) [],
              replicate (numHyperedges hg) (default_chi seed)) of
        Inl e \<Rightarrow> Inl e
      | Inr (contained1, pin_lists, permutation0) \<Rightarrow>
     (case detect_loop hg (enabledEdges hg)
             (sort_key chi_key permutation0, pin_lists,
              replicate (numHyperedges hg) 0, contained1, 0, 0) of
        Inl e \<Rightarrow> Inl e
      | Inr (permutation, coarse_pin_lists, coarse_edge_weights, contained2,
             num_coarse_nets, num_coarse_pins) \<Rightarrow>
     (case write_headers coarse_pin_lists coarse_edge_weights [0..<numHyperedges hg]
             (0, 0,
              replicate num_coarse_nets
                \<lparr>he_begin = 0, he_size = 0, he_weight = 1, he_valid = False\<rparr>,
              replicate (numHyperedges hg) 0) of
        Inl e \<Rightarrow> Inl e
      | Inr (net_size_sum, coarse_net_id, chg_hyperedges, offsets_for_fine_nets) \<Rightarrow>
     (case copy_pin_lists coarse_pin_lists offsets_for_fine_nets (enabledEdges hg)
             (replicate num_coarse_pins 0, replicate num_coarse_nodes 0) of
        Inl e \<Rightarrow> Inl e
      | Inr (chg_incidence_array, degrees) \<Rightarrow>
     (case scatter_nets
             (\<lambda>he. take (he_size (chg_hyperedges ! he))
                      (drop (he_begin (chg_hyperedges ! he)) chg_incidence_array))
             [0..<num_coarse_nets]
             (exclusive_prefix_sum degrees, replicate num_coarse_pins 0) of
        Inl e \<Rightarrow> Inl e
      | Inr (cursors, scattered) \<Rightarrow>
     (case aggregate_nodes hg clusters (enabledNodes hg)
             (replicate num_coarse_nodes 0, replicate num_coarse_nodes 0) of
        Inl e \<Rightarrow> Inl e
      | Inr (weights, communities) \<Rightarrow>
          Inr (\<lparr> num_hypernodes = num_coarse_nodes,
                 num_hyperedges = num_coarse_nets,
                 num_pins = num_coarse_pins,
                 total_degree = num_coarse_pins,
                 total_weight = total_weight hg,
                 max_edge_size = fold (\<lambda>e m. max m (he_size (chg_hyperedges ! e)))
                                   [0..<num_coarse_nets] 0,
                 hypernodes = map (\<lambda>u. \<lparr>hn_begin = cursors ! u - degrees ! u,
                                         hn_size = degrees ! u,
                                         hn_weight = weights ! u,
                                         hn_valid = True\<rparr>) [0..<num_coarse_nodes],
                 incident_nets = fold (\<lambda>u nets. sort_nets_window
                                          (cursors ! u - degrees ! u) (cursors ! u) nets)
                                   [0..<num_coarse_nodes] scattered,
                 hyperedges = chg_hyperedges,
                 incidence_array = chg_incidence_array,
                 community_ids = communities \<rparr>,
               clusters))))))))"

definition contract ::
  "nat \<Rightarrow> StaticHypergraph \<Rightarrow> HypernodeID list \<Rightarrow> error + StaticHypergraph \<times> HypernodeID list" where
  "contract seed hg communities = contract_v2 seed hg communities"

subsection \<open>What the phases compute\<close>

text \<open>
  The coarse pin list of a hyperedge without the bitmap and without bounds checks: the
  clusters of its pins in order, invalid ones and repetitions left out.
\<close>

fun dedup_pins :: "HypernodeID list \<Rightarrow> HypernodeID list \<Rightarrow> HypernodeID list \<Rightarrow> HypernodeID list" where
  "dedup_pins clusters [] pin_list = pin_list"
| "dedup_pins clusters (v # vs) pin_list =
     (if clusters ! v \<noteq> kInvalidHypernode \<and> clusters ! v \<notin> set pin_list
      then dedup_pins clusters vs (pin_list @ [clusters ! v])
      else dedup_pins clusters vs pin_list)"

definition coarse_pins :: "HypernodeID list \<Rightarrow> StaticHypergraph \<Rightarrow> HyperedgeID \<Rightarrow> HypernodeID list" where
  "coarse_pins clusters hg he = dedup_pins clusters (pins hg he) []"

text \<open>The set of coarse vertices that the pins of a fine hyperedge are mapped to.\<close>

definition coarse_image :: "HypernodeID list \<Rightarrow> StaticHypergraph \<Rightarrow> HyperedgeID \<Rightarrow> HypernodeID set" where
  "coarse_image clusters hg he =
     set (filter (\<lambda>c. c \<noteq> kInvalidHypernode) (map (\<lambda>v. clusters ! v) (pins hg he)))"

text \<open>The pin list and the entry of the permutation that the second phase leaves for an
  enabled hyperedge.\<close>

definition initial_pin_list :: "HypernodeID list \<Rightarrow> StaticHypergraph \<Rightarrow> HyperedgeID \<Rightarrow> HypernodeID list" where
  "initial_pin_list clusters hg he =
     (if length (coarse_pins clusters hg he) > 1 then coarse_pins clusters hg he else [])"

definition initial_entry ::
  "HypernodeID list \<Rightarrow> StaticHypergraph \<Rightarrow> HyperedgeID \<Rightarrow> ContractedHyperedgeInformation" where
  "initial_entry clusters hg he =
     (if length (coarse_pins clusters hg he) > 1
      then \<lparr>chi_he = he, chi_hash = edge_hash (coarse_pins clusters hg he),
            chi_size = length (coarse_pins clusters hg he), chi_valid = True\<rparr>
      else \<lparr>chi_he = he, chi_hash = SIZE_MAX, chi_size = 0, chi_valid = False\<rparr>)"

text \<open>
  Two positions of the sorted permutation hold the same net when the pin lists of their
  hyperedges (as the second phase left them) have the same pins; a position is the first of
  its net when it is valid and no valid position before it holds the same net. The weight of
  a net is the sum of the weights of all hyperedges at valid positions that hold it.
\<close>

definition same_net ::
  "HypernodeID list list \<Rightarrow> ContractedHyperedgeInformation list \<Rightarrow> nat \<Rightarrow> nat \<Rightarrow> bool" where
  "same_net cpl0 P p q \<longleftrightarrow> set (cpl0 ! chi_he (P ! p)) = set (cpl0 ! chi_he (P ! q))"

definition first_of_net ::
  "HypernodeID list list \<Rightarrow> ContractedHyperedgeInformation list \<Rightarrow> nat \<Rightarrow> bool" where
  "first_of_net cpl0 P f \<longleftrightarrow>
     chi_valid (P ! f) \<and> (\<forall>q<f. chi_valid (P ! q) \<longrightarrow> \<not> same_net cpl0 P q f)"

definition net_weight ::
  "StaticHypergraph \<Rightarrow> HypernodeID list list \<Rightarrow> ContractedHyperedgeInformation list \<Rightarrow> nat \<Rightarrow> int" where
  "net_weight hg cpl0 P p =
     (\<Sum>q \<in> {q. q < length P \<and> chi_valid (P ! q) \<and> same_net cpl0 P p q}.
        edgeWeight hg (chi_he (P ! q)))"

text \<open>
  The weight that the detection stores for the representative at position \<open>p\<close>: its own
  weight when no other net has the same pins, and otherwise the sum of the weights of the
  nets with these pins as the 32-bit accumulator holds it.
\<close>

definition merged_weight ::
  "StaticHypergraph \<Rightarrow> HypernodeID list list \<Rightarrow> ContractedHyperedgeInformation list \<Rightarrow> nat \<Rightarrow> int" where
  "merged_weight hg cpl0 P p =
     (if {q. q < length P \<and> chi_valid (P ! q) \<and> same_net cpl0 P p q} = {p}
      then edgeWeight hg (chi_he (P ! p))
      else wrap_weight (net_weight hg cpl0 P p))"

text \<open>
  What the detection relies on: the permutation is sorted, a valid entry names a hyperedge
  whose pin list has at least two pairwise distinct pins below \<open>N\<close> and records its length,
  no two valid entries name the same hyperedge, and valid entries of the same net carry the
  same hash.
\<close>

definition detect_pre ::
  "nat \<Rightarrow> ContractedHyperedgeInformation list \<Rightarrow> HypernodeID list list \<Rightarrow> bool" where
  "detect_pre N P cpl0 \<longleftrightarrow>
     length cpl0 = length P \<and> sorted (map chi_key P)
     \<and> (\<forall>p<length P. chi_valid (P ! p) \<longrightarrow>
           chi_he (P ! p) < length P \<and> 2 \<le> length (cpl0 ! chi_he (P ! p))
           \<and> distinct (cpl0 ! chi_he (P ! p))
           \<and> chi_size (P ! p) = length (cpl0 ! chi_he (P ! p))
           \<and> (\<forall>x \<in> set (cpl0 ! chi_he (P ! p)). x < N))
     \<and> (\<forall>p<length P. \<forall>q<length P.
           chi_valid (P ! p) \<and> chi_valid (P ! q) \<and> chi_he (P ! p) = chi_he (P ! q) \<longrightarrow> p = q)
     \<and> (\<forall>p<length P. \<forall>q<length P.
           chi_valid (P ! p) \<and> chi_valid (P ! q) \<and> same_net cpl0 P p q
             \<longrightarrow> chi_hash (P ! p) = chi_hash (P ! q))"

text \<open>
  The state of the detection between two representatives, relative to the predicate \<open>dn\<close>
  that says of the first position of a net whether it has been handled as a
  representative: the nets that were handled have their first hyperedge valid, with its pin
  list and the weight of the net, and their other hyperedges invalid with empty pin lists;
  the nets that were not handled are as the second phase left them.
\<close>

definition det_inv ::
  "StaticHypergraph \<Rightarrow> nat \<Rightarrow> ContractedHyperedgeInformation list \<Rightarrow> HypernodeID list list
     \<Rightarrow> (nat \<Rightarrow> bool) \<Rightarrow> ContractedHyperedgeInformation list \<Rightarrow> HypernodeID list list
     \<Rightarrow> int list \<Rightarrow> bool list \<Rightarrow> bool" where
  "det_inv hg N P cpl0 dn perm cpl cew c \<longleftrightarrow>
     length perm = length P \<and> length cpl = length P \<and> length cew = length P
     \<and> length c = N \<and> (\<forall>i<N. \<not> c ! i)
     \<and> (\<forall>p<length P. chi_he (perm ! p) = chi_he (P ! p)
            \<and> chi_hash (perm ! p) = chi_hash (P ! p) \<and> chi_size (perm ! p) = chi_size (P ! p))
     \<and> (\<forall>p<length P. \<not> chi_valid (P ! p) \<longrightarrow> \<not> chi_valid (perm ! p))
     \<and> (\<forall>he<length P. (\<forall>p<length P. chi_valid (P ! p) \<longrightarrow> chi_he (P ! p) \<noteq> he)
            \<longrightarrow> cpl ! he = cpl0 ! he)
     \<and> (\<forall>p<length P. chi_valid (P ! p) \<longrightarrow>
          (\<forall>f<length P. first_of_net cpl0 P f \<and> same_net cpl0 P f p \<longrightarrow>
             (if dn f
              then (if p = f
                    then chi_valid (perm ! p) \<and> cpl ! chi_he (P ! p) = cpl0 ! chi_he (P ! p)
                         \<and> cew ! chi_he (P ! p) = merged_weight hg cpl0 P p
                    else \<not> chi_valid (perm ! p) \<and> cpl ! chi_he (P ! p) = [])
              else chi_valid (perm ! p) \<and> cpl ! chi_he (P ! p) = cpl0 ! chi_he (P ! p))))"

text \<open>
  A fine hyperedge is kept when it is enabled and is mapped to more than one coarse vertex.
  After the second phase and the sort, the valid entries of the permutation are the kept
  hyperedges, each with its coarse pin list.
\<close>

definition kept :: "HypernodeID list \<Rightarrow> StaticHypergraph \<Rightarrow> HyperedgeID \<Rightarrow> bool" where
  "kept cl hg he \<longleftrightarrow>
     he < numHyperedges hg \<and> edgeIsEnabled hg he \<and> 1 < length (coarse_pins cl hg he)"

definition entries_ok ::
  "HypernodeID list \<Rightarrow> StaticHypergraph \<Rightarrow> nat \<Rightarrow> ContractedHyperedgeInformation list
     \<Rightarrow> HypernodeID list list \<Rightarrow> bool" where
  "entries_ok cl hg N P cpl0 \<longleftrightarrow>
     length P = numHyperedges hg \<and> detect_pre N P cpl0
     \<and> (\<forall>p<length P. chi_valid (P ! p) \<longrightarrow>
           kept cl hg (chi_he (P ! p))
           \<and> cpl0 ! chi_he (P ! p) = coarse_pins cl hg (chi_he (P ! p)))
     \<and> (\<forall>he. kept cl hg he \<longrightarrow> (\<exists>p<length P. chi_valid (P ! p) \<and> chi_he (P ! p) = he))
     \<and> (\<forall>he<numHyperedges hg. \<not> kept cl hg he \<longrightarrow> cpl0 ! he = [])"


text \<open>
  The fine hyperedges that are merged into the coarse hyperedge \<open>e\<close>: the enabled hyperedges
  whose pins are mapped to the pins of \<open>e\<close>.
\<close>

definition merged_edges ::
  "HypernodeID list \<Rightarrow> StaticHypergraph \<Rightarrow> StaticHypergraph \<Rightarrow> HyperedgeID \<Rightarrow> HyperedgeID list" where
  "merged_edges cl hg chg e =
     filter (\<lambda>he. edgeIsEnabled hg he \<and> coarse_image cl hg he = set (pins chg e))
       [0..<numHyperedges hg]"

text \<open>
  A hypergraph that the contraction with the identity clustering leaves as it is: fewer
  vertices than the invalid id, every vertex and every hyperedge enabled, every hyperedge
  with at least two pairwise distinct pins that are vertices, and no two hyperedges with the
  same set of pins.
\<close>

definition simple_hypergraph :: "StaticHypergraph \<Rightarrow> bool" where
  "simple_hypergraph hg \<longleftrightarrow>
     initialNumNodes hg \<le> kInvalidHypernode
     \<and> list_all (nodeIsEnabled hg) [0..<initialNumNodes hg]
     \<and> list_all (\<lambda>e. edgeIsEnabled hg e \<and> 2 \<le> length (pins hg e) \<and> distinct (pins hg e)
                      \<and> list_all (\<lambda>v. v < initialNumNodes hg) (pins hg e))
          [0..<numHyperedges hg]
     \<and> distinct (map (\<lambda>e. set (pins hg e)) [0..<numHyperedges hg])"
section \<open>Static hypergraph construction\<close>


section \<open>Localized FM search\<close>

text \<open>
  Of the FM refiner the given sources hold the test of \<open>findMoves\<close>
  (\<open>fm_core_test.cc\<close>) and the metric \<open>km1\<close> (\<open>metrics.h\<close>); the partitioned
  hypergraph, the move tracker and \<open>localized_kway_fm_core.h\<close> are not among them. They
  are modelled from sections 3, 4.3 and 4.7 of the specification, for one search that runs
  alone.
\<close>

text \<open>Modelled from the spec: an entry \<open>Move{v, from, to, gain, move_id}\<close> of the move
  tracker (section 4.7).\<close>

record Move =
  mv_node :: HypernodeID
  mv_from :: PartitionID
  mv_to :: PartitionID
  mv_gain :: int
  mv_id :: nat

text \<open>Modelled from the spec: the value \<open>invalidGain\<close> that marks the gain of a reverted
  move; the test compares against it, its declaration is missing. It is taken to be the
  least 32-bit value.\<close>

definition invalidGain :: int where
  "invalidGain = - 2147483648"

text \<open>Modelled from the spec: the partitioned hypergraph of section 3: the block of every
  vertex, the pin counts per hyperedge and block, the connectivity set of every hyperedge
  and the block weights.\<close>

record Partition =
  part_of :: "HypernodeID \<Rightarrow> PartitionID"
  pin_count_in_part :: "HyperedgeID \<Rightarrow> PartitionID \<Rightarrow> nat"
  connectivity_set :: "HyperedgeID \<Rightarrow> PartitionID set"
  part_weight :: "PartitionID \<Rightarrow> int"

text \<open>Modelled from the spec: \<open>initialize_partition\<close> (section 4.3) recomputes the pin
  counts, the connectivity sets and the block weights from the blocks of the vertices.\<close>

definition initialize_partition ::
  "StaticHypergraph \<Rightarrow> nat \<Rightarrow> (HypernodeID \<Rightarrow> PartitionID) \<Rightarrow> Partition" where
  "initialize_partition hg k part =
     \<lparr> part_of = part,
       pin_count_in_part = (\<lambda>e b. length (filter (\<lambda>u. part u = b) (pins hg e))),
       connectivity_set =
         (\<lambda>e. set (filter (\<lambda>b. 0 < length (filter (\<lambda>u. part u = b) (pins hg e)))
                      (map int [0..<k]))),
       part_weight =
         (\<lambda>b. sum_list (map (nodeWeight hg) (filter (\<lambda>v. part v = b) (enabledNodes hg)))) \<rparr>"

text \<open>Modelled from the spec: \<open>connectivity[e]\<close> is the size of the connectivity set
  (section 3).\<close>

definition phg_connectivity :: "Partition \<Rightarrow> HyperedgeID \<Rightarrow> int" where
  "phg_connectivity s e = int (card (connectivity_set s e))"

text \<open>\<open>metrics::km1\<close>: the sum of \<open>max(connectivity(he) - 1, 0) * edgeWeight(he)\<close> over
  the enabled hyperedges.\<close>

definition km1 :: "StaticHypergraph \<Rightarrow> Partition \<Rightarrow> int" where
  "km1 hg s =
     sum_list (map (\<lambda>he. max (phg_connectivity s he - 1) 0 * edgeWeight hg he)
                 (enabledEdges hg))"

text \<open>Modelled from the spec: \<open>km1_gain(v, from, to)\<close> (section 4.3) is the sum over the
  incident hyperedges \<open>e\<close> of \<open>(pin_count[e][from] == 1 ? w(e) : 0) -
  (pin_count[e][to] == 0 ? w(e) : 0)\<close>.\<close>

definition km1_gain ::
  "StaticHypergraph \<Rightarrow> Partition \<Rightarrow> HypernodeID \<Rightarrow> PartitionID \<Rightarrow> PartitionID \<Rightarrow> int" where
  "km1_gain hg s v from_b to_b =
     sum_list (map (\<lambda>e. (if pin_count_in_part s e from_b = 1 then edgeWeight hg e else 0)
                       - (if pin_count_in_part s e to_b = 0 then edgeWeight hg e else 0))
                 (incidentEdges hg v))"

text \<open>Modelled from the spec: what \<open>change_part\<close> does for one incident hyperedge
  (section 4.3): it decrements \<open>pin_count[e][from]\<close> and removes \<open>from\<close> from the
  connectivity set when the count reaches 0, and it increments \<open>pin_count[e][to]\<close> and
  adds \<open>to\<close> when the count was 0.\<close>

definition update_pin_counts ::
  "PartitionID \<Rightarrow> PartitionID \<Rightarrow> HyperedgeID \<Rightarrow> Partition \<Rightarrow> Partition" where
  "update_pin_counts from_b to_b e s =
     (let dec = pin_count_in_part s e from_b - 1;
          s1 = s\<lparr>pin_count_in_part :=
                   (pin_count_in_part s)(e := (pin_count_in_part s e)(from_b := dec))\<rparr>;
          s2 = (if dec = 0
                then s1\<lparr>connectivity_set :=
                          (connectivity_set s1)(e := connectivity_set s1 e - {from_b})\<rparr>
                else s1);
          was = pin_count_in_part s2 e to_b;
          s3 = s2\<lparr>pin_count_in_part :=
                    (pin_count_in_part s2)(e := (pin_count_in_part s2 e)(to_b := was + 1))\<rparr>
      in if was = 0
         then s3\<lparr>connectivity_set :=
                   (connectivity_set s3)(e := insert to_b (connectivity_set s3 e))\<rparr>
         else s3)"

text \<open>Modelled from the spec: the transition of \<open>v\<close> from \<open>from\<close> to \<open>to\<close> that a
  successful \<open>change_part\<close> performs: every incident hyperedge is updated, then the block
  of \<open>v\<close> and the two block weights.\<close>

definition move_node ::
  "StaticHypergraph \<Rightarrow> HypernodeID \<Rightarrow> PartitionID \<Rightarrow> PartitionID \<Rightarrow> Partition \<Rightarrow> Partition" where
  "move_node hg v from_b to_b s =
     (let s1 = fold (update_pin_counts from_b to_b) (incidentEdges hg v) s
      in s1\<lparr>part_of := (part_of s1)(v := to_b),
             part_weight := (part_weight s1)
               (from_b := part_weight s1 from_b - nodeWeight hg v,
                to_b := part_weight s1 to_b + nodeWeight hg v)\<rparr>)"

text \<open>Modelled from the spec: \<open>change_part(v, from, to)\<close> succeeds iff
  \<open>part_weight[to] + weight(v) \<le> max_part_weight\<close> (section 4.3); \<open>None\<close> is the
  failure.\<close>

definition change_part ::
  "StaticHypergraph \<Rightarrow> (PartitionID \<Rightarrow> int) \<Rightarrow> HypernodeID \<Rightarrow> PartitionID \<Rightarrow> PartitionID
     \<Rightarrow> Partition \<Rightarrow> Partition option" where
  "change_part hg max_part_weight v from_b to_b s =
     (if part_weight s to_b + nodeWeight hg v \<le> max_part_weight to_b
      then Some (move_node hg v from_b to_b s) else None)"

text \<open>Modelled from the spec: the best target of a vertex is a block other than its own
  with the largest \<open>km1_gain\<close> (the first one among equals); with one block there is
  none. The key of a vertex in the priority queue is that gain, recomputed when the top is
  taken (the gain strategy \<open>recompute\<close> of section 4.7).\<close>

definition best_target ::
  "StaticHypergraph \<Rightarrow> nat \<Rightarrow> Partition \<Rightarrow> HypernodeID \<Rightarrow> (PartitionID \<times> int) option" where
  "best_target hg k s v =
     (case filter (\<lambda>b. b \<noteq> part_of s v) (map int [0..<k]) of
        [] \<Rightarrow> None
      | b # bs \<Rightarrow>
          (let to_b = arg_min_list (\<lambda>b. - km1_gain hg s v (part_of s v) b) (b # bs)
           in Some (to_b, km1_gain hg s v (part_of s v) to_b)))"

text \<open>Modelled from the spec: the key of a vertex in the priority queue, its best gain
  (section 4.7); a vertex without a target has the invalid gain.\<close>

definition best_gain :: "StaticHypergraph \<Rightarrow> nat \<Rightarrow> Partition \<Rightarrow> HypernodeID \<Rightarrow> int" where
  "best_gain hg k s v = (case best_target hg k s v of None \<Rightarrow> invalidGain | Some (b, g) \<Rightarrow> g)"

text \<open>Modelled from the spec: the neighbours of a vertex are the pins of its incident
  hyperedges.\<close>

definition neighbors :: "StaticHypergraph \<Rightarrow> HypernodeID \<Rightarrow> HypernodeID list" where
  "neighbors hg v = concat (map (pins hg) (incidentEdges hg v))"

text \<open>Modelled from the spec: \<open>best_prefix\<close> is the prefix of the moves with the largest
  cumulative gain (section 4.7), the longest one among equals (scenario 6: the gains
  \<open>+3, +1, -2, +2, -5\<close> keep the first four moves). The scan carries the running sum,
  the best sum, the number of moves seen and the best number.\<close>

fun best_prefix_scan :: "int \<Rightarrow> int \<Rightarrow> nat \<Rightarrow> nat \<Rightarrow> int list \<Rightarrow> nat" where
  "best_prefix_scan cur best i bi [] = bi"
| "best_prefix_scan cur best i bi (g # gs) =
     (if best \<le> cur + g
      then best_prefix_scan (cur + g) (cur + g) (i + 1) (i + 1) gs
      else best_prefix_scan (cur + g) best (i + 1) bi gs)"

definition best_prefix :: "int list \<Rightarrow> nat" where
  "best_prefix gains = best_prefix_scan 0 0 0 0 gains"

text \<open>Modelled from the spec: the stopping rule (section 4.7) ends the search when more
  than \<open>limit\<close> moves in a row have not improved the cumulative gain.\<close>

definition stop_search :: "nat \<Rightarrow> Move list \<Rightarrow> bool" where
  "stop_search limit moves \<longleftrightarrow> limit < length moves - best_prefix (map mv_gain moves)"

text \<open>
  Modelled from the spec: the expansion (step 2 of section 4.7). The vertex with the
  largest key is taken from the priority queue \<open>pq\<close>; when it has a best target and
  \<open>change_part\<close> succeeds, the move is appended to the tracker with the next id and the
  neighbours that no search has touched are put into the queue. \<open>untouched\<close> are the
  vertices without a search tag.
\<close>

function expand ::
  "StaticHypergraph \<Rightarrow> nat \<Rightarrow> (PartitionID \<Rightarrow> int) \<Rightarrow> nat \<Rightarrow> HypernodeID list
     \<Rightarrow> HypernodeID list \<Rightarrow> Move list \<Rightarrow> Partition \<Rightarrow> Partition \<times> Move list" where
  "expand hg k max_part_weight limit pq untouched moves s =
     (if pq = [] \<or> stop_search limit moves then (s, moves)
      else
        (let v = arg_min_list (\<lambda>u. - best_gain hg k s u) pq;
             pq1 = remove1 v pq
         in case best_target hg k s v of
              None \<Rightarrow> expand hg k max_part_weight limit pq1 untouched moves s
            | Some (to_b, g) \<Rightarrow>
                (case change_part hg max_part_weight v (part_of s v) to_b s of
                   None \<Rightarrow> expand hg k max_part_weight limit pq1 untouched moves s
                 | Some s' \<Rightarrow>
                     expand hg k max_part_weight limit
                       (pq1 @ filter (\<lambda>u. u \<in> set (neighbors hg v)) untouched)
                       (filter (\<lambda>u. u \<notin> set (neighbors hg v)) untouched)
                       (moves @ [\<lparr>mv_node = v, mv_from = part_of s v, mv_to = to_b,
                                  mv_gain = g, mv_id = length moves\<rparr>])
                       s')))"
  by pat_completeness auto
termination
  by (relation "measure (\<lambda>(hg, k, max_part_weight, limit, pq, untouched, moves, s).
                           length pq + length untouched)")
    (auto simp: length_remove1 arg_min_list_in add.assoc sum_length_filter_compl)

declare expand.simps [simp del]

text \<open>Modelled from the spec: the inverse \<open>change_part\<close> that reverts a move (step 4 of
  section 4.7); it restores a state that was reached before and is not subject to the
  weight limit.\<close>

definition revert_move :: "StaticHypergraph \<Rightarrow> Move \<Rightarrow> Partition \<Rightarrow> Partition" where
  "revert_move hg m s = move_node hg (mv_node m) (mv_to m) (mv_from m) s"

text \<open>Modelled from the spec: the moves after \<open>best_prefix\<close> are reverted in LIFO order
  and their gains are marked invalid (step 4 of section 4.7). The list holds the moves
  to revert, the last one first; the marked entries come back in the order of the
  tracker.\<close>

fun revert_moves :: "StaticHypergraph \<Rightarrow> Move list \<Rightarrow> Partition \<Rightarrow> Partition \<times> Move list" where
  "revert_moves hg [] s = (s, [])"
| "revert_moves hg (m # ms) s =
     (case revert_moves hg ms (revert_move hg m s) of
        (s', marked) \<Rightarrow> (s', marked @ [m\<lparr>mv_gain := invalidGain\<rparr>]))"

definition rollback :: "StaticHypergraph \<Rightarrow> Move list \<Rightarrow> Partition \<Rightarrow> Partition \<times> Move list" where
  "rollback hg moves s =
     (case revert_moves hg (rev (drop (best_prefix (map mv_gain moves)) moves)) s of
        (s', marked) \<Rightarrow> (s', take (best_prefix (map mv_gain moves)) moves @ marked))"

text \<open>Modelled from the spec: the setup (step 1 of section 4.7) claims the seeds, which
  are enabled vertices, and puts them into the queue; every other enabled vertex is
  untouched.\<close>

definition claim_seeds :: "StaticHypergraph \<Rightarrow> HypernodeID list \<Rightarrow> HypernodeID list" where
  "claim_seeds hg seeds = remdups (filter (\<lambda>v. v \<in> set (enabledNodes hg)) seeds)"

text \<open>Modelled from the spec: the moves that the expansion of one search performs
  (step 2 of section 4.7), in the order of the tracker.\<close>

definition performed_moves ::
  "StaticHypergraph \<Rightarrow> nat \<Rightarrow> (PartitionID \<Rightarrow> int) \<Rightarrow> nat \<Rightarrow> HypernodeID list \<Rightarrow> Partition
     \<Rightarrow> Move list" where
  "performed_moves hg k max_part_weight limit seeds s =
     snd (expand hg k max_part_weight limit (claim_seeds hg seeds)
            (filter (\<lambda>v. v \<notin> set (claim_seeds hg seeds)) (enabledNodes hg)) [] s)"

text \<open>Modelled from the spec: the moves after \<open>best_prefix\<close>, which the rollback
  reverts (step 4 of section 4.7).\<close>

definition reverted_moves ::
  "StaticHypergraph \<Rightarrow> nat \<Rightarrow> (PartitionID \<Rightarrow> int) \<Rightarrow> nat \<Rightarrow> HypernodeID list \<Rightarrow> Partition
     \<Rightarrow> Move list" where
  "reverted_moves hg k max_part_weight limit seeds s =
     drop (best_prefix (map mv_gain (performed_moves hg k max_part_weight limit seeds s)))
       (performed_moves hg k max_part_weight limit seeds s)"

text \<open>Modelled from the spec: one localized search (section 4.7): setup, expansion until
  the queue is empty or the stopping rule holds, rollback. It returns the partitioned
  hypergraph and the move tracker.\<close>

definition findMoves ::
  "StaticHypergraph \<Rightarrow> nat \<Rightarrow> (PartitionID \<Rightarrow> int) \<Rightarrow> nat \<Rightarrow> HypernodeID list \<Rightarrow> Partition
     \<Rightarrow> Partition \<times> Move list" where
  "findMoves hg k max_part_weight limit seeds s =
     (case expand hg k max_part_weight limit (claim_seeds hg seeds)
             (filter (\<lambda>v. v \<notin> set (claim_seeds hg seeds)) (enabledNodes hg)) [] s of
        (s1, moves) \<Rightarrow> rollback hg moves s1)"

subsection \<open>Consistency of the partitioned hypergraph\<close>

text \<open>
  Modelled from the spec: the invariants of the static hypergraph (section 3): the
  incident nets are the adjoint of the incidence array, and there are no repetitions inside
  the window of a vertex or of a hyperedge.
\<close>

definition wf_hypergraph :: "StaticHypergraph \<Rightarrow> bool" where
  "wf_hypergraph hg \<longleftrightarrow>
     list_all (\<lambda>v. distinct (incidentEdges hg v)
                 \<and> list_all (\<lambda>e. e \<in> set (enabledEdges hg) \<and> v \<in> set (pins hg e))
                     (incidentEdges hg v))
       (enabledNodes hg)
     \<and> list_all (\<lambda>e. distinct (pins hg e)
                 \<and> list_all (\<lambda>v. v \<in> set (enabledNodes hg) \<and> e \<in> set (incidentEdges hg v))
                     (pins hg e))
         (enabledEdges hg)"

text \<open>
  Modelled from the spec: the invariants of the partitioned hypergraph (section 3):
  \<open>pin_count_in_part[e][b]\<close> counts the pins of \<open>e\<close> in block \<open>b\<close> and the connectivity
  set holds the blocks with a positive count.
\<close>

definition consistent :: "StaticHypergraph \<Rightarrow> Partition \<Rightarrow> bool" where
  "consistent hg s \<longleftrightarrow>
     (\<forall>e\<in>set (enabledEdges hg).
        (\<forall>b. pin_count_in_part s e b = length (filter (\<lambda>u. part_of s u = b) (pins hg e)))
        \<and> connectivity_set s e = {b. 0 < pin_count_in_part s e b})"

text \<open>The objective as a function of the blocks of the vertices alone, the blocks after a
  sequence of moves, and a sequence of moves whose entries record the block that the
  vertex had, a different target, the decrease of the objective as gain, and no invalid
  gain.\<close>

definition km1_part :: "StaticHypergraph \<Rightarrow> (HypernodeID \<Rightarrow> PartitionID) \<Rightarrow> int" where
  "km1_part hg p =
     sum_list (map (\<lambda>he. max (int (card (p ` set (pins hg he))) - 1) 0 * edgeWeight hg he)
                 (enabledEdges hg))"

definition replay :: "Move list \<Rightarrow> (HypernodeID \<Rightarrow> PartitionID) \<Rightarrow> HypernodeID \<Rightarrow> PartitionID" where
  "replay moves p = fold (\<lambda>m p. p(mv_node m := mv_to m)) moves p"

fun exact_log ::
  "StaticHypergraph \<Rightarrow> (HypernodeID \<Rightarrow> PartitionID) \<Rightarrow> Move list \<Rightarrow> bool" where
  "exact_log hg p [] \<longleftrightarrow> True"
| "exact_log hg p (m # ms) \<longleftrightarrow>
     mv_node m \<in> set (enabledNodes hg) \<and> p (mv_node m) = mv_from m \<and> mv_to m \<noteq> mv_from m
     \<and> mv_gain m = km1_part hg p - km1_part hg (p(mv_node m := mv_to m))
     \<and> mv_gain m \<noteq> invalidGain
     \<and> exact_log hg (p(mv_node m := mv_to m)) ms"
section \<open>Concrete inputs\<close>

text \<open>A scheduler with two blocks in which block 0 already holds a reservation of 3
  towards block 1.\<close>

definition reserved_example :: "SchedulerBase" where
  "reserved_example =
     SchedulerBase_new\<lparr>block_weights := (\<lambda>i j. if i = 0 \<and> j = 0 then 5
                                                 else if i = 0 \<and> j = 1 then 3 else 0)\<rparr>"


text \<open>
  Three hyperedges over three vertices in two blocks: vertex 0 lies in block 0, vertices 1
  and 2 in block 1, so hyperedges 0 and 2 are cut and hyperedge 1 is not.
\<close>

definition two_block_example :: PartitionedHypergraph where
  "two_block_example = overlay 2 [[0, 1], [1, 2], [0, 1]] (\<lambda>v. if v = 0 then 0 else 1)"

text \<open>A scheduler whose list for the block pair \<open>(0, 1)\<close> holds hyperedge 0 twice and
  the uncut hyperedge 1.\<close>

definition stale_cut_example :: "SchedulerBase" where
  "stale_cut_example =
     SchedulerBase_new\<lparr>block_pair_cut_he := (\<lambda>b0 b1. if b0 = 0 \<and> b1 = 1 then [0, 2, 0, 1] else [])\<rparr>"
text \<open>
  A path on three vertices, \<open>0 - 1 - 2\<close>, as a static hypergraph with the two edges
  \<open>{0, 1}\<close> and \<open>{1, 2}\<close>, and the search state in which the vertices were discovered in
  the order 0, 1, 2.
\<close>

definition path_example :: StaticHypergraph where
  "path_example =
     \<lparr> num_hypernodes = 3, num_hyperedges = 2, num_pins = 4, total_degree = 4,
       total_weight = 3, max_edge_size = 2,
       hypernodes = [\<lparr>hn_begin = 0, hn_size = 1, hn_weight = 1, hn_valid = True\<rparr>,
                     \<lparr>hn_begin = 1, hn_size = 2, hn_weight = 1, hn_valid = True\<rparr>,
                     \<lparr>hn_begin = 3, hn_size = 1, hn_weight = 1, hn_valid = True\<rparr>],
       incident_nets = [0, 0, 1, 1],
       hyperedges = [\<lparr>he_begin = 0, he_size = 2, he_weight = 1, he_valid = True\<rparr>,
                     \<lparr>he_begin = 2, he_size = 2, he_weight = 1, he_valid = True\<rparr>],
       incidence_array = [0, 1, 1, 2],
       community_ids = [0, 0, 0] \<rparr>"

definition path_search_state :: dfs_state where
  "path_search_state =
     \<lparr> parent = [0, 0, 1], lowPoint = [0, 1, 2], depth = [0, 1, 2],
       children = 0, isArticulationPoint = False \<rparr>"

text \<open>
  The graph on three nodes with the input edges \<open>{0, 2}\<close> and \<open>{0, 1}\<close>, as
  \<open>construct\<close> builds it without stable construction when the iterations of
  \<open>setup_edges\<close> run in input order, and as it builds it with stable construction.
\<close>

definition sequential_graph :: StaticGraph where
  "sequential_graph =
     \<lparr> sg_num_nodes = 3, sg_num_edges = 2,
       sg_nodes = [\<lparr>nd_begin = 0, nd_weight = 1, nd_valid = True\<rparr>,
                   \<lparr>nd_begin = 2, nd_weight = 1, nd_valid = True\<rparr>,
                   \<lparr>nd_begin = 3, nd_weight = 1, nd_valid = True\<rparr>,
                   \<lparr>nd_begin = 4, nd_weight = 1, nd_valid = False\<rparr>],
       sg_edges = [\<lparr>ed_target = 2, ed_weight = 1, ed_backwards = 3\<rparr>,
                   \<lparr>ed_target = 1, ed_weight = 1, ed_backwards = 2\<rparr>,
                   \<lparr>ed_target = 0, ed_weight = 1, ed_backwards = 1\<rparr>,
                   \<lparr>ed_target = 0, ed_weight = 1, ed_backwards = 0\<rparr>],
       sg_community_ids = [0, 0, 0], sg_total_weight = 3 \<rparr>"

definition stable_graph :: StaticGraph where
  "stable_graph =
     sequential_graph\<lparr>sg_edges := [\<lparr>ed_target = 1, ed_weight = 1, ed_backwards = 2\<rparr>,
                                    \<lparr>ed_target = 2, ed_weight = 1, ed_backwards = 3\<rparr>,
                                    \<lparr>ed_target = 0, ed_weight = 1, ed_backwards = 1\<rparr>,
                                    \<lparr>ed_target = 0, ed_weight = 1, ed_backwards = 0\<rparr>]\<rparr>"

text \<open>
  A static hypergraph with \<open>n\<close> enabled vertices of weight 1 and the given hyperedges
  (pin list and weight), all enabled, in the layout of section 3 of the specification.
\<close>

definition hypergraph_of :: "nat \<Rightarrow> (HypernodeID list \<times> int) list \<Rightarrow> StaticHypergraph" where
  "hypergraph_of n es =
     \<lparr> num_hypernodes = n,
       num_hyperedges = length es,
       num_pins = length (concat (map fst es)),
       total_degree = length (concat (map fst es)),
       total_weight = int n,
       max_edge_size = fold (\<lambda>e m. max m (length (fst e))) es 0,
       hypernodes = map (\<lambda>v. \<lparr>hn_begin = length (concat (map (\<lambda>u. filter (\<lambda>e. u \<in> set (fst (es ! e)))
                                                    [0..<length es]) [0..<v])),
                               hn_size = length (filter (\<lambda>e. v \<in> set (fst (es ! e))) [0..<length es]),
                               hn_weight = 1, hn_valid = True\<rparr>) [0..<n],
       incident_nets = concat (map (\<lambda>v. filter (\<lambda>e. v \<in> set (fst (es ! e))) [0..<length es])
                                 [0..<n]),
       hyperedges = map (\<lambda>e. \<lparr>he_begin = length (concat (map fst (take e es))),
                               he_size = length (fst (es ! e)),
                               he_weight = snd (es ! e), he_valid = True\<rparr>) [0..<length es],
       incidence_array = concat (map fst es),
       community_ids = replicate n 0 \<rparr>"


text \<open>Two vertices without hyperedges, the second vertex disabled.\<close>

definition disabled_vertex_example :: StaticHypergraph where
  "disabled_vertex_example =
     (hypergraph_of 2 [])\<lparr>hypernodes :=
        [\<lparr>hn_begin = 0, hn_size = 0, hn_weight = 1, hn_valid = True\<rparr>,
         \<lparr>hn_begin = 0, hn_size = 0, hn_weight = 1, hn_valid = False\<rparr>]\<rparr>"

text \<open>Three hyperedges with the same pins and the weights 1, 2 and 3 (scenario 5 of the
  specification).\<close>

definition identical_nets_example :: StaticHypergraph where
  "identical_nets_example = hypergraph_of 3 [([0, 1, 2], 1), ([0, 1, 2], 2), ([2, 1, 0], 3)]"

text \<open>Eight vertices that are contracted in pairs (scenario 4 of the specification).\<close>

definition pairs_example :: StaticHypergraph where
  "pairs_example =
     hypergraph_of 8 [([0, 1], 1), ([1, 2], 2), ([2, 3, 4], 3), ([4, 5], 1), ([6, 7, 0], 5),
                      ([3, 2], 7)]"


text \<open>The result of contracting the pairs: the hyperedges inside a pair are gone.\<close>

definition pairs_contracted :: StaticHypergraph where
  "pairs_contracted =
     \<lparr> num_hypernodes = 4, num_hyperedges = 3, num_pins = 6, total_degree = 6,
       total_weight = 8, max_edge_size = 2,
       hypernodes = [\<lparr>hn_begin = 0, hn_size = 2, hn_weight = 2, hn_valid = True\<rparr>,
                     \<lparr>hn_begin = 2, hn_size = 2, hn_weight = 2, hn_valid = True\<rparr>,
                     \<lparr>hn_begin = 4, hn_size = 1, hn_weight = 2, hn_valid = True\<rparr>,
                     \<lparr>hn_begin = 5, hn_size = 1, hn_weight = 2, hn_valid = True\<rparr>],
       incident_nets = [0, 2, 0, 1, 1, 2],
       hyperedges = [\<lparr>he_begin = 0, he_size = 2, he_weight = 2, he_valid = True\<rparr>,
                     \<lparr>he_begin = 2, he_size = 2, he_weight = 3, he_valid = True\<rparr>,
                     \<lparr>he_begin = 4, he_size = 2, he_weight = 5, he_valid = True\<rparr>],
       incidence_array = [0, 1, 1, 2, 3, 0],
       community_ids = [0, 0, 0, 0] \<rparr>"

text \<open>Four vertices in two clusters \<open>{0, 1}\<close> and \<open>{2, 3}\<close>: three of the four hyperedges
  connect the two clusters, the third one lies inside the first cluster.\<close>

definition merging_example :: StaticHypergraph where
  "merging_example = hypergraph_of 4 [([0, 2], 1), ([1, 3], 2), ([0, 1], 4), ([2, 3, 0], 8)]"

definition merging_contracted :: StaticHypergraph where
  "merging_contracted =
     \<lparr> num_hypernodes = 2, num_hyperedges = 1, num_pins = 2, total_degree = 2,
       total_weight = 4, max_edge_size = 2,
       hypernodes = [\<lparr>hn_begin = 0, hn_size = 1, hn_weight = 2, hn_valid = True\<rparr>,
                     \<lparr>hn_begin = 1, hn_size = 1, hn_weight = 2, hn_valid = True\<rparr>],
       incident_nets = [0, 0],
       hyperedges = [\<lparr>he_begin = 0, he_size = 2, he_weight = 11, he_valid = True\<rparr>],
       incidence_array = [0, 1],
       community_ids = [0, 0] \<rparr>"

text \<open>Two hyperedges with the same two pins whose weights add up to \<open>2^31\<close>, one more than
  the largest \<open>HyperedgeWeight\<close>, and the hypergraph that the contraction with the identity
  clustering returns for them.\<close>

definition overflow_example :: StaticHypergraph where
  "overflow_example = hypergraph_of 2 [([0, 1], 2147483647), ([0, 1], 1)]"

definition overflow_contracted :: StaticHypergraph where
  "overflow_contracted =
     \<lparr> num_hypernodes = 2, num_hyperedges = 1, num_pins = 2, total_degree = 2,
       total_weight = 2, max_edge_size = 2,
       hypernodes = [\<lparr>hn_begin = 0, hn_size = 1, hn_weight = 1, hn_valid = True\<rparr>,
                     \<lparr>hn_begin = 1, hn_size = 1, hn_weight = 1, hn_valid = True\<rparr>],
       incident_nets = [0, 0],
       hyperedges = [\<lparr>he_begin = 0, he_size = 2, he_weight = - 2147483648, he_valid = True\<rparr>],
       incidence_array = [0, 1],
       community_ids = [0, 0] \<rparr>"

text \<open>A path of three vertices with two hyperedges of different weight.\<close>

definition path_hypergraph :: StaticHypergraph where
  "path_hypergraph = hypergraph_of 3 [([0, 1], 4), ([1, 2], 5)]"

definition identical_nets_contracted :: StaticHypergraph where
  "identical_nets_contracted =
     \<lparr> num_hypernodes = 3, num_hyperedges = 1, num_pins = 3, total_degree = 3,
       total_weight = 3, max_edge_size = 3,
       hypernodes = [\<lparr>hn_begin = 0, hn_size = 1, hn_weight = 1, hn_valid = True\<rparr>,
                     \<lparr>hn_begin = 1, hn_size = 1, hn_weight = 1, hn_valid = True\<rparr>,
                     \<lparr>hn_begin = 2, hn_size = 1, hn_weight = 1, hn_valid = True\<rparr>],
       incident_nets = [0, 0, 0],
       hyperedges = [\<lparr>he_begin = 0, he_size = 3, he_weight = 6, he_valid = True\<rparr>],
       incidence_array = [0, 1, 2],
       community_ids = [0, 0, 0] \<rparr>"

definition path_contracted :: StaticHypergraph where
  "path_contracted =
     \<lparr> num_hypernodes = 3, num_hyperedges = 2, num_pins = 4, total_degree = 4,
       total_weight = 3, max_edge_size = 2,
       hypernodes = [\<lparr>hn_begin = 0, hn_size = 1, hn_weight = 1, hn_valid = True\<rparr>,
                     \<lparr>hn_begin = 1, hn_size = 2, hn_weight = 1, hn_valid = True\<rparr>,
                     \<lparr>hn_begin = 3, hn_size = 1, hn_weight = 1, hn_valid = True\<rparr>],
       incident_nets = [0, 0, 1, 1],
       hyperedges = [\<lparr>he_begin = 0, he_size = 2, he_weight = 4, he_valid = True\<rparr>,
                     \<lparr>he_begin = 2, he_size = 2, he_weight = 5, he_valid = True\<rparr>],
       incidence_array = [0, 1, 1, 2],
       community_ids = [0, 0, 0] \<rparr>"

text \<open>
  Four vertices and four hyperedges in two blocks: vertices 0 and 3 lie in block 0,
  vertices 1 and 2 in block 1.
\<close>

definition fm_example :: StaticHypergraph where
  "fm_example = hypergraph_of 4 [([0, 1], 3), ([1, 2], 1), ([2, 3], 2), ([0, 1, 2], 1)]"

definition fm_blocks :: "HypernodeID \<Rightarrow> PartitionID" where
  "fm_blocks v = (if v = 0 \<or> v = 3 then 0 else 1)"
section \<open>Properties of the block weight arbitration\<close>

lemma init_block_weights_off_diagonal:
  "i < k \<Longrightarrow> j < k \<Longrightarrow> i \<noteq> j \<Longrightarrow> block_weights (init_block_weights k pw s) i j = 0"
  by (simp add: init_block_weights_def)

lemma init_block_weights_diagonal:
  "i < k \<Longrightarrow> block_weights (init_block_weights k pw s) i i = pw i"
  by (simp add: init_block_weights_def)

text \<open>
  C6 as stated fails: with a reservation already in the slot, the acquire overwrites it
  and the release clears it, so the matrix is not restored.
\<close>

theorem aquire_release_not_restored:
  "(2::size_t) \<le> block_weights reserved_example 0 0 \<and>
   aquire_then_release 2 0 1 2 reserved_example \<noteq> Inr reserved_example"
proof -
  have "block_weights s 0 1 = 0"
    if "aquire_then_release 2 0 1 2 reserved_example = Inr s" for s
    using that
    by (auto simp: aquire_then_release_def aquire_block_weight_def
        release_block_weight_def Let_def)
  moreover have "block_weights reserved_example 0 1 = 3"
    by (simp add: reserved_example_def)
  ultimately have "aquire_then_release 2 0 1 2 reserved_example \<noteq> Inr reserved_example"
    by fastforce
  then show ?thesis by (simp add: reserved_example_def)
qed

text \<open>
  C6 (amended): for blocks \<open>b \<noteq> b'\<close> below \<open>k\<close> whose slot \<open>W[b][b']\<close> is zero before
  the acquire (as it is after \<open>init_block_weights\<close> and after every release) and every
  amount \<open>a \<le> W[b][b]\<close>, the acquire sets \<open>W[b][b']\<close> to \<open>a\<close>, lowers \<open>W[b][b]\<close> by
  \<open>a\<close> without wrapping and leaves every other entry alone, and the release that
  follows restores the state before the acquire.
\<close>

theorem aquire_release_restores:
  assumes "b \<noteq> b'" and "b < k" and "b' < k"
    and "a \<le> block_weights s b b" and "block_weights s b b' = 0"
  shows "\<exists>s1. aquire_block_weight k b b' a s = Inr s1
           \<and> block_weights s1 b b' = a
           \<and> unat (block_weights s1 b b) + unat a = unat (block_weights s b b)
           \<and> (\<forall>i j. (i, j) \<noteq> (b, b) \<and> (i, j) \<noteq> (b, b') \<longrightarrow>
                  block_weights s1 i j = block_weights s i j)
           \<and> release_block_weight k b b' a s1 = Inr s"
proof -
  define s1 where "s1 = s\<lparr>block_weights := (block_weights s)(b :=
      (block_weights s b)(b' := a, b := block_weights s b b - a))\<rparr>"
  have acq: "aquire_block_weight k b b' a s = Inr s1"
    using assms(1-3) by (simp add: aquire_block_weight_def s1_def Let_def)
  have slot: "block_weights s1 b b' = a"
    using assms(1) by (simp add: s1_def)
  have diag: "unat (block_weights s1 b b) + unat a = unat (block_weights s b b)"
    using assms(4) by (simp add: s1_def unat_sub word_le_nat_alt)
  have frame: "\<forall>i j. (i, j) \<noteq> (b, b) \<and> (i, j) \<noteq> (b, b') \<longrightarrow>
      block_weights s1 i j = block_weights s i j"
    by (auto simp: s1_def)
  have "(block_weights s1)(b := (block_weights s1 b)(b' := 0,
          b := ((block_weights s1 b)(b' := 0)) b + a)) = block_weights s"
    using assms(1,5) by (auto simp: s1_def fun_eq_iff)
  then have rel: "release_block_weight k b b' a s1 = Inr s"
    using assms(2,3) by (simp add: release_block_weight_def Let_def s1_def)
  from acq slot diag frame rel show ?thesis by blast
qed

theorem aquire_release_restores_witness:
  "\<exists>s1. aquire_block_weight 2 0 1 2 (init_block_weights 2 (\<lambda>_. 5) SchedulerBase_new) = Inr s1
       \<and> block_weights s1 0 1 = 2
       \<and> release_block_weight 2 0 1 2 s1 = Inr (init_block_weights 2 (\<lambda>_. 5) SchedulerBase_new)"
proof -
  have "(2::size_t) \<le> block_weights (init_block_weights 2 (\<lambda>_. 5) SchedulerBase_new) 0 0"
    by (simp add: init_block_weights_def)
  moreover have "block_weights (init_block_weights 2 (\<lambda>_. 5) SchedulerBase_new) 0 1 = 0"
    by (simp add: init_block_weights_def)
  ultimately show ?thesis
    using aquire_release_restores [of 0 1 2 2 "init_block_weights 2 (\<lambda>_. 5) SchedulerBase_new"]
    by auto
qed

section \<open>Properties of the quotient graph construction\<close>

lemma scan_block1_ok:
  assumes "0 \<le> block0" "block0 < int k" "\<forall>b\<in>set bs. 0 \<le> b \<and> b < int k"
  shows "\<exists>el cu. scan_block1 k he block0 bs acc = Inr (el, cu)
           \<and> set el = set (fst acc) \<union> {(block0, b1) | b1. b1 \<in> set bs \<and> block0 < b1}
           \<and> (\<forall>x y. set (cu x y) = set (snd acc x y)
                  \<union> (if x = block0 \<and> y \<in> set bs \<and> block0 < y then {he} else {}))"
  using assms
proof (induction bs arbitrary: acc)
  case Nil
  then show ?case by (cases acc) simp
next
  case (Cons b1 bs)
  show ?case
  proof (cases "block0 < b1")
    case True
    let ?acc' = "(insort_insert (block0, b1) (fst acc),
                  (snd acc)(block0 := (snd acc block0)(b1 := snd acc block0 b1 @ [he])))"
    have push: "push_cut_he k block0 b1 he (snd acc) = Inr (snd ?acc')"
      using Cons.prems by (simp add: push_cut_he_def)
    from Cons.IH [of ?acc'] Cons.prems obtain el cu where
      r: "scan_block1 k he block0 bs ?acc' = Inr (el, cu)"
      and el: "set el = set (fst ?acc') \<union> {(block0, b1) | b1. b1 \<in> set bs \<and> block0 < b1}"
      and cu: "\<forall>x y. set (cu x y) = set (snd ?acc' x y)
                  \<union> (if x = block0 \<and> y \<in> set bs \<and> block0 < y then {he} else {})"
      by auto
    have "scan_block1 k he block0 (b1 # bs) acc = Inr (el, cu)"
      using True push r by simp
    moreover have "set el = set (fst acc) \<union> {(block0, b) | b. b \<in> set (b1 # bs) \<and> block0 < b}"
      using el True by (auto simp: set_insort_insert)
    moreover have "\<forall>x y. set (cu x y) = set (snd acc x y)
                  \<union> (if x = block0 \<and> y \<in> set (b1 # bs) \<and> block0 < y then {he} else {})"
      using cu True by auto
    ultimately show ?thesis by blast
  next
    case False
    from Cons.IH [of acc] Cons.prems obtain el cu where
      r: "scan_block1 k he block0 bs acc = Inr (el, cu)"
      and el: "set el = set (fst acc) \<union> {(block0, b1) | b1. b1 \<in> set bs \<and> block0 < b1}"
      and cu: "\<forall>x y. set (cu x y) = set (snd acc x y)
                  \<union> (if x = block0 \<and> y \<in> set bs \<and> block0 < y then {he} else {})"
      by auto
    have "scan_block1 k he block0 (b1 # bs) acc = Inr (el, cu)"
      using False r by simp
    moreover have "set el = set (fst acc) \<union> {(block0, b) | b. b \<in> set (b1 # bs) \<and> block0 < b}"
      using el False by auto
    moreover have "\<forall>x y. set (cu x y) = set (snd acc x y)
                  \<union> (if x = block0 \<and> y \<in> set (b1 # bs) \<and> block0 < y then {he} else {})"
      using cu False by auto
    ultimately show ?thesis by blast
  qed
qed

lemma scan_block0_ok:
  assumes "\<forall>b\<in>set bs. 0 \<le> b \<and> b < int k" "\<forall>b\<in>set cs. 0 \<le> b \<and> b < int k"
  shows "\<exists>el cu. scan_block0 k he cs bs acc = Inr (el, cu)
           \<and> set el = set (fst acc) \<union> {(b0, b1) | b0 b1. b0 \<in> set bs \<and> b1 \<in> set cs \<and> b0 < b1}
           \<and> (\<forall>x y. set (cu x y) = set (snd acc x y)
                  \<union> (if x \<in> set bs \<and> y \<in> set cs \<and> x < y then {he} else {}))"
  using assms
proof (induction bs arbitrary: acc)
  case Nil
  then show ?case by (cases acc) simp
next
  case (Cons b0 bs)
  from scan_block1_ok [of b0 k cs he acc] Cons.prems obtain el1 cu1 where
    r1: "scan_block1 k he b0 cs acc = Inr (el1, cu1)"
    and el1: "set el1 = set (fst acc) \<union> {(b0, b1) | b1. b1 \<in> set cs \<and> b0 < b1}"
    and cu1: "\<forall>x y. set (cu1 x y) = set (snd acc x y)
                  \<union> (if x = b0 \<and> y \<in> set cs \<and> b0 < y then {he} else {})"
    by auto
  from Cons.IH [of "(el1, cu1)"] Cons.prems obtain el cu where
    r: "scan_block0 k he cs bs (el1, cu1) = Inr (el, cu)"
    and el: "set el = set el1 \<union> {(b0, b1) | b0 b1. b0 \<in> set bs \<and> b1 \<in> set cs \<and> b0 < b1}"
    and cu: "\<forall>x y. set (cu x y) = set (cu1 x y)
                  \<union> (if x \<in> set bs \<and> y \<in> set cs \<and> x < y then {he} else {})"
    by auto
  have "scan_block0 k he cs (b0 # bs) acc = Inr (el, cu)"
    using r1 r by simp
  moreover have "set el = set (fst acc)
      \<union> {(x, y) | x y. x \<in> set (b0 # bs) \<and> y \<in> set cs \<and> x < y}"
    using el el1 by auto
  moreover have "\<forall>x y. set (cu x y) = set (snd acc x y)
                  \<union> (if x \<in> set (b0 # bs) \<and> y \<in> set cs \<and> x < y then {he} else {})"
    using cu cu1 by auto
  ultimately show ?case by blast
qed

lemma scan_edges_ok:
  assumes "\<forall>he\<in>set hes. 1 < connectivity hg he \<longrightarrow>
             (\<forall>b\<in>set (connectivitySet hg he). 0 \<le> b \<and> b < int k)"
  shows "\<exists>el cu. scan_edges k hg hes acc = Inr (el, cu)
           \<and> set el = set (fst acc) \<union> {(b0, b1) | b0 b1. b0 < b1 \<and> (\<exists>he\<in>set hes.
                 1 < connectivity hg he \<and> b0 \<in> set (connectivitySet hg he)
                 \<and> b1 \<in> set (connectivitySet hg he))}
           \<and> (\<forall>x y. set (cu x y) = set (snd acc x y)
                  \<union> {he \<in> set hes. 1 < connectivity hg he \<and> x \<in> set (connectivitySet hg he)
                        \<and> y \<in> set (connectivitySet hg he) \<and> x < y})"
  using assms
proof (induction hes arbitrary: acc)
  case Nil
  then show ?case by (cases acc) simp
next
  case (Cons he hes)
  show ?case
  proof (cases "1 < connectivity hg he")
    case True
    let ?cs = "connectivitySet hg he"
    from scan_block0_ok [of ?cs k ?cs he acc] Cons.prems True obtain el1 cu1 where
      r1: "scan_block0 k he ?cs ?cs acc = Inr (el1, cu1)"
      and el1: "set el1 = set (fst acc)
          \<union> {(b0, b1) | b0 b1. b0 \<in> set ?cs \<and> b1 \<in> set ?cs \<and> b0 < b1}"
      and cu1: "\<forall>x y. set (cu1 x y) = set (snd acc x y)
                  \<union> (if x \<in> set ?cs \<and> y \<in> set ?cs \<and> x < y then {he} else {})"
      by auto
    from Cons.IH [of "(el1, cu1)"] Cons.prems obtain el cu where
      r: "scan_edges k hg hes (el1, cu1) = Inr (el, cu)"
      and el: "set el = set el1 \<union> {(b0, b1) | b0 b1. b0 < b1 \<and> (\<exists>he\<in>set hes.
                 1 < connectivity hg he \<and> b0 \<in> set (connectivitySet hg he)
                 \<and> b1 \<in> set (connectivitySet hg he))}"
      and cu: "\<forall>x y. set (cu x y) = set (cu1 x y)
                  \<union> {he \<in> set hes. 1 < connectivity hg he \<and> x \<in> set (connectivitySet hg he)
                        \<and> y \<in> set (connectivitySet hg he) \<and> x < y}"
      by auto
    have "scan_edges k hg (he # hes) acc = Inr (el, cu)"
      using True r1 r by simp
    moreover have "set el = set (fst acc) \<union> {(b0, b1) | b0 b1. b0 < b1 \<and> (\<exists>h\<in>set (he # hes).
                 1 < connectivity hg h \<and> b0 \<in> set (connectivitySet hg h)
                 \<and> b1 \<in> set (connectivitySet hg h))}"
      using el el1 True by auto
    moreover have "\<forall>x y. set (cu x y) = set (snd acc x y)
                  \<union> {h \<in> set (he # hes). 1 < connectivity hg h \<and> x \<in> set (connectivitySet hg h)
                        \<and> y \<in> set (connectivitySet hg h) \<and> x < y}"
      using cu cu1 True by auto
    ultimately show ?thesis by blast
  next
    case False
    from Cons.IH [of acc] Cons.prems obtain el cu where
      r: "scan_edges k hg hes acc = Inr (el, cu)"
      and el: "set el = set (fst acc) \<union> {(b0, b1) | b0 b1. b0 < b1 \<and> (\<exists>he\<in>set hes.
                 1 < connectivity hg he \<and> b0 \<in> set (connectivitySet hg he)
                 \<and> b1 \<in> set (connectivitySet hg he))}"
      and cu: "\<forall>x y. set (cu x y) = set (snd acc x y)
                  \<union> {he \<in> set hes. 1 < connectivity hg he \<and> x \<in> set (connectivitySet hg he)
                        \<and> y \<in> set (connectivitySet hg he) \<and> x < y}"
      by auto
    have "scan_edges k hg (he # hes) acc = Inr (el, cu)"
      using False r by simp
    moreover have "set el = set (fst acc) \<union> {(b0, b1) | b0 b1. b0 < b1 \<and> (\<exists>h\<in>set (he # hes).
                 1 < connectivity hg h \<and> b0 \<in> set (connectivitySet hg h)
                 \<and> b1 \<in> set (connectivitySet hg h))}"
      using el False by auto
    moreover have "\<forall>x y. set (cu x y) = set (snd acc x y)
                  \<union> {h \<in> set (he # hes). 1 < connectivity hg h \<and> x \<in> set (connectivitySet hg h)
                        \<and> y \<in> set (connectivitySet hg h) \<and> x < y}"
      using cu False by auto
    ultimately show ?thesis by blast
  qed
qed

text \<open>
  C3: run on a freshly constructed scheduler and a partitioned hypergraph whose
  connectivity sets hold block ids in \<open>[0, k)\<close>, \<open>buildQuotientGraph\<close> succeeds; the
  quotient graph then contains the pair \<open>(b0, b1)\<close> exactly when \<open>b0 < b1\<close> and some
  hyperedge with connectivity above 1 has both blocks in its connectivity set, and every
  such hyperedge occurs in \<open>_block_pair_cut_he[b0][b1]\<close>.
\<close>

theorem buildQuotientGraph_correct:
  assumes "\<forall>he\<in>set (edges hg). 1 < connectivity hg he \<longrightarrow>
             (\<forall>b\<in>set (connectivitySet hg he). 0 \<le> b \<and> b < int k)"
  shows "\<exists>s. buildQuotientGraph k hg SchedulerBase_new = Inr s
           \<and> (\<forall>b0 b1. (b0, b1) \<in> set (quotient_graph s) \<longleftrightarrow>
                 b0 < b1 \<and> (\<exists>he\<in>set (edges hg). 1 < connectivity hg he
                    \<and> b0 \<in> set (connectivitySet hg he) \<and> b1 \<in> set (connectivitySet hg he)))
           \<and> (\<forall>b0 b1 he. b0 < b1 \<and> he \<in> set (edges hg) \<and> 1 < connectivity hg he
                    \<and> b0 \<in> set (connectivitySet hg he) \<and> b1 \<in> set (connectivitySet hg he)
                 \<longrightarrow> he \<in> set (block_pair_cut_he s b0 b1))"
proof -
  from scan_edges_ok [OF assms, of "([], \<lambda>_ _. [])"] obtain el cu where
    r: "scan_edges k hg (edges hg) ([], \<lambda>_ _. []) = Inr (el, cu)"
    and el: "set el = {(b0, b1) | b0 b1. b0 < b1 \<and> (\<exists>he\<in>set (edges hg).
                 1 < connectivity hg he \<and> b0 \<in> set (connectivitySet hg he)
                 \<and> b1 \<in> set (connectivitySet hg he))}"
    and cu: "\<forall>x y. set (cu x y) =
                 {he \<in> set (edges hg). 1 < connectivity hg he \<and> x \<in> set (connectivitySet hg he)
                        \<and> y \<in> set (connectivitySet hg he) \<and> x < y}"
    by auto
  let ?s = "SchedulerBase_new\<lparr>quotient_graph := el, block_pair_cut_he := cu\<rparr>"
  have "buildQuotientGraph k hg SchedulerBase_new = Inr ?s"
    using r by (simp add: buildQuotientGraph_def SchedulerBase_new_def)
  moreover have "\<forall>b0 b1. (b0, b1) \<in> set (quotient_graph ?s) \<longleftrightarrow>
                 b0 < b1 \<and> (\<exists>he\<in>set (edges hg). 1 < connectivity hg he
                    \<and> b0 \<in> set (connectivitySet hg he) \<and> b1 \<in> set (connectivitySet hg he))"
    using el by simp
  moreover have "\<forall>b0 b1 he. b0 < b1 \<and> he \<in> set (edges hg) \<and> 1 < connectivity hg he
                    \<and> b0 \<in> set (connectivitySet hg he) \<and> b1 \<in> set (connectivitySet hg he)
                 \<longrightarrow> he \<in> set (block_pair_cut_he ?s b0 b1)"
    using cu by simp
  ultimately show ?thesis by blast
qed

lemma two_block_example_eval:
  "edges two_block_example = [0, 1, 2]"
  "connectivitySet two_block_example 0 = [0, 1]"
  "connectivitySet two_block_example (Suc 0) = [1]"
  "connectivitySet two_block_example 2 = [0, 1]"
  "connectivity two_block_example 0 = 2"
  "connectivity two_block_example (Suc 0) = 1"
  "connectivity two_block_example 2 = 2"
  by (simp_all add: two_block_example_def overlay_def upt_rec)

theorem buildQuotientGraph_correct_witness:
  "\<exists>s. buildQuotientGraph 2 two_block_example SchedulerBase_new = Inr s
       \<and> (0, 1) \<in> set (quotient_graph s) \<and> (1, 0) \<notin> set (quotient_graph s)
       \<and> 0 \<in> set (block_pair_cut_he s 0 1) \<and> 2 \<in> set (block_pair_cut_he s 0 1)"
proof -
  have wf: "\<forall>he\<in>set (edges two_block_example). 1 < connectivity two_block_example he \<longrightarrow>
      (\<forall>b\<in>set (connectivitySet two_block_example he). 0 \<le> b \<and> b < int 2)"
    by (simp add: two_block_example_eval)
  from buildQuotientGraph_correct [OF wf] obtain s where
    s: "buildQuotientGraph 2 two_block_example SchedulerBase_new = Inr s"
    and q: "\<forall>b0 b1. (b0, b1) \<in> set (quotient_graph s) \<longleftrightarrow>
        b0 < b1 \<and> (\<exists>he\<in>set (edges two_block_example). 1 < connectivity two_block_example he
          \<and> b0 \<in> set (connectivitySet two_block_example he)
          \<and> b1 \<in> set (connectivitySet two_block_example he))"
    and c: "\<forall>b0 b1 he. b0 < b1 \<and> he \<in> set (edges two_block_example)
          \<and> 1 < connectivity two_block_example he
          \<and> b0 \<in> set (connectivitySet two_block_example he)
          \<and> b1 \<in> set (connectivitySet two_block_example he)
        \<longrightarrow> he \<in> set (block_pair_cut_he s b0 b1)"
    by blast
  have "(0, 1) \<in> set (quotient_graph s)"
    using q by (simp add: two_block_example_eval)
  moreover have "(1, 0) \<notin> set (quotient_graph s)"
    using q by simp
  moreover have "0 \<in> set (block_pair_cut_he s 0 1)"
    using c [rule_format, of 0 1 0] by (simp add: two_block_example_eval)
  moreover have "2 \<in> set (block_pair_cut_he s 0 1)"
    using c [rule_format, of 0 1 2] by (simp add: two_block_example_eval)
  ultimately show ?thesis using s by blast
qed

section \<open>Properties of the cut hyperedge lists\<close>

lemma swap_pop:
  assumes "i < length xs"
  shows "butlast (xs[i := xs ! (length xs - 1), length xs - 1 := xs ! i]) = (butlast xs)[i := last xs]"
proof (cases "i = length xs - 1")
  case True
  then have "length (butlast xs) \<le> i" by simp
  then have "(butlast xs)[i := last xs] = butlast xs" by (rule list_update_beyond)
  then show ?thesis using True assms by (simp add: butlast_list_update)
next
  case False
  then have "xs \<noteq> []" using assms by auto
  then show ?thesis using False assms
    by (simp add: butlast_list_update last_conv_nth)
qed

lemma swap_pop_take:
  assumes "i < length xs"
  shows "take i ((butlast xs)[i := last xs]) = take i xs"
  using assms by (simp add: take_butlast)

lemma swap_pop_subset:
  assumes "i < length xs"
  shows "set ((butlast xs)[i := last xs]) \<subseteq> set xs"
proof -
  have "xs \<noteq> []" using assms by auto
  then have "last xs \<in> set xs" by simp
  moreover have "set (butlast xs) \<subseteq> set xs" by (auto dest: in_set_butlastD)
  ultimately show ?thesis
    using set_update_subset_insert [of "butlast xs" i "last xs"] by auto
qed

lemma swap_pop_keeps:
  assumes "i < length xs" "h \<in> set xs" "h \<noteq> xs ! i"
  shows "h \<in> set ((butlast xs)[i := last xs])"
proof -
  from assms(2) obtain j where j: "j < length xs" "xs ! j = h"
    by (auto simp: in_set_conv_nth)
  have ne: "j \<noteq> i" using j assms(3) by auto
  show ?thesis
  proof (cases "j = length xs - 1")
    case True
    moreover have "xs \<noteq> []" using assms(1) by auto
    ultimately have "h = last xs" using j by (simp add: last_conv_nth)
    moreover have "i < length (butlast xs)" using assms(1) ne True by auto
    ultimately show ?thesis by (simp add: set_update_memI)
  next
    case False
    then have jb: "j < length (butlast xs)" using j by auto
    then have "((butlast xs)[i := last xs]) ! j = h"
      using ne j by (simp add: nth_butlast)
    moreover have "j < length ((butlast xs)[i := last xs])" using jb by simp
    ultimately show ?thesis by (metis nth_mem)
  qed
qed

lemma update_loop_ok:
  assumes "N = length cuts" "i \<le> N" "\<forall>h\<in>set cuts. h < length visited"
    and "distinct (take i cuts)"
    and "\<forall>h\<in>set (take i cuts). visited ! h
            \<and> pinCountInPart hg h block0 \<noteq> 0 \<and> pinCountInPart hg h block1 \<noteq> 0"
    and "\<forall>h. h < length visited \<and> visited ! h
            \<and> pinCountInPart hg h block0 \<noteq> 0 \<and> pinCountInPart hg h block1 \<noteq> 0
            \<longrightarrow> h \<in> set (take i cuts)"
  shows "\<exists>r. update_loop hg block0 block1 visited cuts i N = Inr r
           \<and> distinct r
           \<and> set r = {h \<in> set cuts. pinCountInPart hg h block0 \<noteq> 0
                                   \<and> pinCountInPart hg h block1 \<noteq> 0}"
  using assms
proof (induction hg block0 block1 visited cuts i N rule: update_loop.induct)
  case (1 hg block0 block1 visited cuts i N)
  note N = \<open>N = length cuts\<close>
  show ?case
  proof (cases "i < N")
    case False
    then have "i = N" using "1.prems"(2) by simp
    then have "take i cuts = cuts" using N by simp
    then show ?thesis
      using False "1.prems"(4,5) by (subst update_loop.simps) auto
  next
    case True
    let ?he = "cuts ! i"
    have he_set: "?he \<in> set cuts" using True N by simp
    then have he_lt: "?he < length visited" using "1.prems"(3) by blast
    have guard: "N \<le> length cuts \<and> cuts ! i < length visited"
      using N he_lt by simp
    let ?rm = "pinCountInPart hg ?he block0 = 0 \<or> pinCountInPart hg ?he block1 = 0
               \<or> visited ! ?he"
    show ?thesis
    proof (cases ?rm)
      case rm: True
      let ?cuts' = "butlast (cuts[i := cuts ! (N - 1), N - 1 := cuts ! i])"
      let ?v' = "visited[?he := True]"
      have c': "?cuts' = (butlast cuts)[i := last cuts]"
        using swap_pop [of i cuts] True N by simp
      have tk: "take i ?cuts' = take i cuts"
        using swap_pop_take [of i cuts] True N c' by simp
      have sub: "set ?cuts' \<subseteq> set cuts"
        using swap_pop_subset [of i cuts] True N c' by simp
      have p1: "N - 1 = length ?cuts'" using N by simp
      have p2: "i \<le> N - 1" using True by simp
      have p3: "\<forall>h\<in>set ?cuts'. h < length ?v'" using sub "1.prems"(3) by auto
      have p4: "distinct (take i ?cuts')" using tk "1.prems"(4) by simp
      have p5: "\<forall>h\<in>set (take i ?cuts'). ?v' ! h
            \<and> pinCountInPart hg h block0 \<noteq> 0 \<and> pinCountInPart hg h block1 \<noteq> 0"
      proof
        fix h assume h: "h \<in> set (take i ?cuts')"
        then have hin: "h \<in> set (take i cuts)" using tk by simp
        then have "h \<in> set cuts" by (rule in_set_takeD)
        then have "h < length visited" using "1.prems"(3) by blast
        moreover have "visited ! h" using "1.prems"(5) hin by blast
        ultimately have "?v' ! h" using he_lt by (cases "h = ?he") simp_all
        then show "?v' ! h
            \<and> pinCountInPart hg h block0 \<noteq> 0 \<and> pinCountInPart hg h block1 \<noteq> 0"
          using "1.prems"(5) hin by blast
      qed
      have p6: "\<forall>h. h < length ?v' \<and> ?v' ! h
            \<and> pinCountInPart hg h block0 \<noteq> 0 \<and> pinCountInPart hg h block1 \<noteq> 0
            \<longrightarrow> h \<in> set (take i ?cuts')"
      proof (intro allI impI)
        fix h assume h: "h < length ?v' \<and> ?v' ! h
            \<and> pinCountInPart hg h block0 \<noteq> 0 \<and> pinCountInPart hg h block1 \<noteq> 0"
        have "visited ! h"
        proof (cases "h = ?he")
          case True
          then show ?thesis using rm h by auto
        next
          case False
          then show ?thesis using h by (simp add: nth_list_update)
        qed
        then have "h \<in> set (take i cuts)" using h "1.prems"(6) by simp
        then show "h \<in> set (take i ?cuts')" using tk by simp
      qed
      from "1.IH"(1) [OF True guard refl rm p1 p2 p3 p4 p5 p6] obtain r where
        r: "update_loop hg block0 block1 ?v' ?cuts' i (N - 1) = Inr r" "distinct r"
          "set r = {h \<in> set ?cuts'. pinCountInPart hg h block0 \<noteq> 0
                                   \<and> pinCountInPart hg h block1 \<noteq> 0}"
        by blast
      have step: "update_loop hg block0 block1 visited cuts i N = Inr r"
        using True guard rm r(1) by (subst update_loop.simps) (simp add: Let_def)
      have "{h \<in> set ?cuts'. pinCountInPart hg h block0 \<noteq> 0
                                   \<and> pinCountInPart hg h block1 \<noteq> 0}
          = {h \<in> set cuts. pinCountInPart hg h block0 \<noteq> 0
                                   \<and> pinCountInPart hg h block1 \<noteq> 0}"
      proof (intro set_eqI iffI)
        fix h assume "h \<in> {h \<in> set ?cuts'. pinCountInPart hg h block0 \<noteq> 0
                                   \<and> pinCountInPart hg h block1 \<noteq> 0}"
        then show "h \<in> {h \<in> set cuts. pinCountInPart hg h block0 \<noteq> 0
                                   \<and> pinCountInPart hg h block1 \<noteq> 0}"
          using sub by auto
      next
        fix h assume h: "h \<in> {h \<in> set cuts. pinCountInPart hg h block0 \<noteq> 0
                                   \<and> pinCountInPart hg h block1 \<noteq> 0}"
        have "h \<in> set ?cuts'"
        proof (cases "h = ?he")
          case True
          then have "visited ! h" using rm h by auto
          then have "h \<in> set (take i cuts)" using h True he_lt "1.prems"(6) by auto
          then have "h \<in> set (take i ?cuts')" using tk by simp
          then show ?thesis by (rule in_set_takeD)
        next
          case False
          then show ?thesis
            using swap_pop_keeps [of i cuts h] \<open>i < N\<close> N h c' by simp
        qed
        then show "h \<in> {h \<in> set ?cuts'. pinCountInPart hg h block0 \<noteq> 0
                                   \<and> pinCountInPart hg h block1 \<noteq> 0}"
          using h by simp
      qed
      then show ?thesis using step r by auto
    next
      case keep: False
      let ?v' = "visited[?he := True]"
      have tk: "take (i + 1) cuts = take i cuts @ [?he]"
        using True N by (simp add: take_Suc_conv_app_nth)
      have notin: "?he \<notin> set (take i cuts)" using keep "1.prems"(5) by blast
      have p2: "i + 1 \<le> N" using True by simp
      have p3: "\<forall>h\<in>set cuts. h < length ?v'" using "1.prems"(3) by simp
      have p4: "distinct (take (i + 1) cuts)" using tk notin "1.prems"(4) by simp
      have p5: "\<forall>h\<in>set (take (i + 1) cuts). ?v' ! h
            \<and> pinCountInPart hg h block0 \<noteq> 0 \<and> pinCountInPart hg h block1 \<noteq> 0"
      proof
        fix h assume h: "h \<in> set (take (i + 1) cuts)"
        then have "h \<in> set cuts" by (rule in_set_takeD)
        then have hl: "h < length visited" using "1.prems"(3) by blast
        show "?v' ! h
            \<and> pinCountInPart hg h block0 \<noteq> 0 \<and> pinCountInPart hg h block1 \<noteq> 0"
        proof (cases "h = ?he")
          case True
          then show ?thesis using keep hl by simp
        next
          case False
          then have "h \<in> set (take i cuts)" using h tk by simp
          then show ?thesis using "1.prems"(5) hl False by (simp add: nth_list_update)
        qed
      qed
      have p6: "\<forall>h. h < length ?v' \<and> ?v' ! h
            \<and> pinCountInPart hg h block0 \<noteq> 0 \<and> pinCountInPart hg h block1 \<noteq> 0
            \<longrightarrow> h \<in> set (take (i + 1) cuts)"
      proof (intro allI impI)
        fix h assume h: "h < length ?v' \<and> ?v' ! h
            \<and> pinCountInPart hg h block0 \<noteq> 0 \<and> pinCountInPart hg h block1 \<noteq> 0"
        show "h \<in> set (take (i + 1) cuts)"
        proof (cases "h = ?he")
          case True
          then show ?thesis using tk by simp
        next
          case False
          then have "visited ! h" using h by (simp add: nth_list_update)
          then have "h \<in> set (take i cuts)" using h "1.prems"(6) by simp
          then show ?thesis using tk by simp
        qed
      qed
      from "1.IH"(2) [OF True guard refl keep N p2 p3 p4 p5 p6] obtain r where
        r: "update_loop hg block0 block1 ?v' cuts (i + 1) N = Inr r" "distinct r"
          "set r = {h \<in> set cuts. pinCountInPart hg h block0 \<noteq> 0
                                   \<and> pinCountInPart hg h block1 \<noteq> 0}"
        by blast
      have "update_loop hg block0 block1 visited cuts i N = Inr r"
        using True guard keep r(1) by (subst update_loop.simps) (simp add: Let_def)
      then show ?thesis using r by auto
    qed
  qed
qed

text \<open>
  C10: for blocks \<open>0 \<le> block0 < block1 < k\<close> and a stored list whose entries are
  hyperedge ids below \<open>initialNumEdges\<close>, \<open>blockPairCutHyperedges\<close> succeeds (neither
  assertion fails), the returned list is the stored one, it contains no hyperedge more than
  once, and every hyperedge in it has a pin in \<open>block0\<close> and a pin in \<open>block1\<close>. It
  keeps exactly the entries of the old list that have pins on both sides.
\<close>

theorem blockPairCutHyperedges_distinct_cut:
  assumes "block0 < block1" and "0 \<le> block0" and "block1 < int k"
    and "\<forall>h\<in>set (block_pair_cut_he s block0 block1). h < initialNumEdges hg"
  shows "\<exists>s' r. blockPairCutHyperedges k hg block0 block1 s = Inr (s', r)
           \<and> r = block_pair_cut_he s' block0 block1
           \<and> distinct r
           \<and> (\<forall>h\<in>set r. 0 < pinCountInPart hg h block0 \<and> 0 < pinCountInPart hg h block1)
           \<and> set r \<subseteq> set (block_pair_cut_he s block0 block1)"
proof -
  let ?old = "block_pair_cut_he s block0 block1"
  have "\<exists>r. update_loop hg block0 block1 (replicate (initialNumEdges hg) False) ?old 0
          (length ?old) = Inr r \<and> distinct r
        \<and> set r = {h \<in> set ?old. pinCountInPart hg h block0 \<noteq> 0
                                   \<and> pinCountInPart hg h block1 \<noteq> 0}"
    by (rule update_loop_ok) (use assms(4) in auto)
  then obtain r where
    r: "update_loop hg block0 block1 (replicate (initialNumEdges hg) False) ?old 0
          (length ?old) = Inr r"
      "distinct r"
      "set r = {h \<in> set ?old. pinCountInPart hg h block0 \<noteq> 0
                                   \<and> pinCountInPart hg h block1 \<noteq> 0}"
    by blast
  let ?s' = "s\<lparr>block_pair_cut_he :=
      (block_pair_cut_he s)(block0 := (block_pair_cut_he s block0)(block1 := r))\<rparr>"
  have upd: "updateBlockPairCutHyperedges k hg block0 block1 s = Inr ?s'"
    using assms(1-3) r(1) by (simp add: updateBlockPairCutHyperedges_def)
  have stored: "block_pair_cut_he ?s' block0 block1 = r" by simp
  have res: "blockPairCutHyperedges k hg block0 block1 s = Inr (?s', r)"
    using assms(1) upd r(2) by (simp add: blockPairCutHyperedges_def)
  have pins: "\<forall>h\<in>set r. 0 < pinCountInPart hg h block0 \<and> 0 < pinCountInPart hg h block1"
    using r(3) by auto
  have sub: "set r \<subseteq> set ?old" using r(3) by auto
  show ?thesis
  proof (intro exI conjI)
    show "blockPairCutHyperedges k hg block0 block1 s = Inr (?s', r)" by (fact res)
    show "r = block_pair_cut_he ?s' block0 block1" by simp
    show "distinct r" by (fact r(2))
    show "\<forall>h\<in>set r. 0 < pinCountInPart hg h block0 \<and> 0 < pinCountInPart hg h block1"
      by (fact pins)
    show "set r \<subseteq> set ?old" by (fact sub)
  qed
qed

lemma stale_cut_example_eval:
  "(case blockPairCutHyperedges 2 two_block_example 0 1 stale_cut_example of
      Inl e \<Rightarrow> [] | Inr (s', r) \<Rightarrow> r) = [0, 2]"
  by code_simp

theorem blockPairCutHyperedges_distinct_cut_witness:
  "\<exists>s' r. blockPairCutHyperedges 2 two_block_example 0 1 stale_cut_example = Inr (s', r)
       \<and> r = [0, 2] \<and> distinct r"
proof -
  have "\<forall>h\<in>set (block_pair_cut_he stale_cut_example 0 1). h < initialNumEdges two_block_example"
    by (simp add: stale_cut_example_def two_block_example_def overlay_def SchedulerBase_new_def)
  from blockPairCutHyperedges_distinct_cut [of 0 1 2, OF _ _ _ this]
  obtain s' r where
    "blockPairCutHyperedges 2 two_block_example 0 1 stale_cut_example = Inr (s', r)"
    "distinct r"
    by auto
  then show ?thesis using stale_cut_example_eval by auto
qed

section \<open>Properties of the articulation point search\<close>

lemma scan_pin_assign:
  assumes "v \<noteq> 0" "u < length (parent s)" "u < length (lowPoint s)"
    "v < length (depth s)" "v < length (lowPoint s)"
  shows "\<exists>s'. scan_pin v u s = Inr s' \<and> parent s' = (parent s)[u := v]
           \<and> children s' = children s + 1
           \<and> length (lowPoint s') = length (lowPoint s) \<and> depth s' = depth s"
  using assms by (simp add: scan_pin_def Let_def)

lemma scan_pins_assign:
  assumes "v \<noteq> 0"
    and "\<forall>u\<in>set us. u < length (parent s) \<and> u < length (lowPoint s)"
    and "v < length (depth s)" "v < length (lowPoint s)"
  shows "\<exists>s'. scan_pins v us s = Inr s'
           \<and> length (parent s') = length (parent s)
           \<and> (\<forall>u\<in>set us. parent s' ! u = v)
           \<and> (\<forall>w. w < length (parent s) \<and> parent s ! w = v \<longrightarrow> parent s' ! w = v)
           \<and> children s' = children s + int (length us)
           \<and> length (lowPoint s') = length (lowPoint s) \<and> depth s' = depth s"
  using assms
proof (induction us arbitrary: s)
  case Nil
  then show ?case by simp
next
  case (Cons u us)
  from scan_pin_assign [of v u s] Cons.prems obtain s1 where
    s1: "scan_pin v u s = Inr s1" "parent s1 = (parent s)[u := v]"
      "children s1 = children s + 1"
      "length (lowPoint s1) = length (lowPoint s)" "depth s1 = depth s"
    by auto
  have b: "\<forall>w\<in>set us. w < length (parent s1) \<and> w < length (lowPoint s1)"
    using Cons.prems(2) s1 by simp
  from Cons.IH [of s1, OF Cons.prems(1) b] Cons.prems(3,4) s1 obtain s' where
    s': "scan_pins v us s1 = Inr s'"
      "length (parent s') = length (parent s1)"
      "\<forall>w\<in>set us. parent s' ! w = v"
      "\<forall>w. w < length (parent s1) \<and> parent s1 ! w = v \<longrightarrow> parent s' ! w = v"
      "children s' = children s1 + int (length us)"
      "length (lowPoint s') = length (lowPoint s1)" "depth s' = depth s1"
    by auto
  have u: "parent s' ! u = v"
    using s'(4) s1(2) Cons.prems(2) by simp
  have keep: "\<forall>w. w < length (parent s) \<and> parent s ! w = v \<longrightarrow> parent s' ! w = v"
  proof (intro allI impI)
    fix w assume w: "w < length (parent s) \<and> parent s ! w = v"
    then have "parent s1 ! w = v" using s1(2) by (cases "w = u") simp_all
    then show "parent s' ! w = v" using s'(4) w s1(2) by simp
  qed
  have "scan_pins v (u # us) s = Inr s'" using s1(1) s'(1) by simp
  moreover have "length (parent s') = length (parent s)" using s'(2) s1(2) by simp
  moreover have "\<forall>w\<in>set (u # us). parent s' ! w = v" using u s'(3) by simp
  moreover have "children s' = children s + int (length (u # us))"
    using s'(5) s1(3) by simp
  moreover have "length (lowPoint s') = length (lowPoint s) \<and> depth s' = depth s"
    using s' s1 by simp
  ultimately show ?case using keep by blast
qed

lemma scan_incident_edges_assign:
  assumes "v \<noteq> 0"
    and "\<forall>e\<in>set es. e < length (hyperedges hg)
           \<and> (\<forall>u\<in>set (pins hg e). u < length (parent s) \<and> u < length (lowPoint s))"
    and "v < length (depth s)" "v < length (lowPoint s)"
  shows "\<exists>s'. scan_incident_edges hg v es s = Inr s'
           \<and> length (parent s') = length (parent s)
           \<and> (\<forall>e\<in>set es. \<forall>u\<in>set (pins hg e). parent s' ! u = v)
           \<and> (\<forall>w. w < length (parent s) \<and> parent s ! w = v \<longrightarrow> parent s' ! w = v)
           \<and> children s' = children s + int (sum_list (map (\<lambda>e. length (pins hg e)) es))"
  using assms
proof (induction es arbitrary: s)
  case Nil
  then show ?case by simp
next
  case (Cons e es)
  have pe: "\<forall>u\<in>set (pins hg e). u < length (parent s) \<and> u < length (lowPoint s)"
    using Cons.prems(2) by simp
  from scan_pins_assign [OF Cons.prems(1) pe Cons.prems(3,4)] obtain s1 where
    s1: "scan_pins v (pins hg e) s = Inr s1"
      "length (parent s1) = length (parent s)"
      "\<forall>u\<in>set (pins hg e). parent s1 ! u = v"
      "\<forall>w. w < length (parent s) \<and> parent s ! w = v \<longrightarrow> parent s1 ! w = v"
      "children s1 = children s + int (length (pins hg e))"
      "length (lowPoint s1) = length (lowPoint s)" "depth s1 = depth s"
    by blast
  have b: "\<forall>e\<in>set es. e < length (hyperedges hg)
           \<and> (\<forall>u\<in>set (pins hg e). u < length (parent s1) \<and> u < length (lowPoint s1))"
    using Cons.prems(2) s1(2,6) by simp
  have d: "v < length (depth s1)" "v < length (lowPoint s1)"
    using Cons.prems(3,4) s1(6,7) by simp_all
  from Cons.IH [OF Cons.prems(1) b d] obtain s' where
    s': "scan_incident_edges hg v es s1 = Inr s'"
      "length (parent s') = length (parent s1)"
      "\<forall>e\<in>set es. \<forall>u\<in>set (pins hg e). parent s' ! u = v"
      "\<forall>w. w < length (parent s1) \<and> parent s1 ! w = v \<longrightarrow> parent s' ! w = v"
      "children s' = children s1 + int (sum_list (map (\<lambda>e. length (pins hg e)) es))"
    by blast
  have first: "\<forall>u\<in>set (pins hg e). parent s' ! u = v"
    using s'(4) s1(2,3) pe by simp
  have keep: "\<forall>w. w < length (parent s) \<and> parent s ! w = v \<longrightarrow> parent s' ! w = v"
    using s'(4) s1(2,4) by simp
  have "scan_incident_edges hg v (e # es) s = Inr s'"
    using Cons.prems(2) s1(1) s'(1) by simp
  moreover have "length (parent s') = length (parent s)" using s'(2) s1(2) by simp
  moreover have "\<forall>e'\<in>set (e # es). \<forall>u\<in>set (pins hg e'). parent s' ! u = v"
    using first s'(3) by simp
  moreover have "children s' = children s
      + int (sum_list (map (\<lambda>e. length (pins hg e)) (e # es)))"
    using s'(5) s1(5) by simp
  ultimately show ?case using keep by blast
qed

text \<open>
  C9: the test of the child branch is the assignment \<open>parent[u] = v\<close> (see
  \<open>scan_pin\<close>). For a popped vertex \<open>v \<noteq> 0\<close> whose incident edges and their pins
  address the vectors, the scan therefore takes the child branch for every pin of every
  incident edge (\<open>children\<close> ends as the number of pins visited), and \<open>parent[u] = v\<close>
  holds for each of these pins after the scan.
\<close>

theorem pop_scan_assigns_parent:
  assumes "v \<noteq> 0" and "v < length (hypernodes hg)"
    and "\<forall>e\<in>set (incidentEdges hg v). e < length (hyperedges hg)
           \<and> (\<forall>u\<in>set (pins hg e). u < length (parent s) \<and> u < length (lowPoint s))"
    and "v < length (depth s)" and "v < length (lowPoint s)"
  shows "\<exists>s'. pop_scan hg v s = Inr s'
           \<and> (\<forall>e\<in>set (incidentEdges hg v). \<forall>u\<in>set (pins hg e). parent s' ! u = v)
           \<and> children s' = int (sum_list (map (\<lambda>e. length (pins hg e)) (incidentEdges hg v)))"
proof -
  let ?s0 = "s\<lparr>children := 0, isArticulationPoint := False\<rparr>"
  have "\<exists>s'. scan_incident_edges hg v (incidentEdges hg v) ?s0 = Inr s'
           \<and> length (parent s') = length (parent ?s0)
           \<and> (\<forall>e\<in>set (incidentEdges hg v). \<forall>u\<in>set (pins hg e). parent s' ! u = v)
           \<and> (\<forall>w. w < length (parent ?s0) \<and> parent ?s0 ! w = v \<longrightarrow> parent s' ! w = v)
           \<and> children s' = children ?s0
               + int (sum_list (map (\<lambda>e. length (pins hg e)) (incidentEdges hg v)))"
    by (rule scan_incident_edges_assign) (use assms in simp_all)
  then show ?thesis using assms(2) by (auto simp: pop_scan_def)
qed

lemma path_example_eval:
  "incidentEdges path_example (Suc 0) = [0, 1]"
  "pins path_example 0 = [0, 1]"
  "pins path_example (Suc 0) = [1, 2]"
  by (simp_all add: path_example_def incidentEdges_def pins_def)

theorem pop_scan_assigns_parent_witness:
  "\<exists>s'. pop_scan path_example 1 path_search_state = Inr s'
       \<and> parent s' ! 0 = 1 \<and> parent s' ! 1 = 1 \<and> parent s' ! 2 = 1 \<and> children s' = 4"
proof -
  have b: "\<forall>e\<in>set (incidentEdges path_example 1). e < length (hyperedges path_example)
           \<and> (\<forall>u\<in>set (pins path_example e). u < length (parent path_search_state)
                  \<and> u < length (lowPoint path_search_state))"
    by (simp add: path_example_eval) (simp add: path_example_def path_search_state_def)
  have "\<exists>s'. pop_scan path_example 1 path_search_state = Inr s'
           \<and> (\<forall>e\<in>set (incidentEdges path_example 1). \<forall>u\<in>set (pins path_example e). parent s' ! u = 1)
           \<and> children s' = int (sum_list (map (\<lambda>e. length (pins path_example e))
                                    (incidentEdges path_example 1)))"
    by (rule pop_scan_assigns_parent [OF _ _ b])
      (simp_all add: path_example_def path_search_state_def)
  then show ?thesis by (auto simp: path_example_eval)
qed

text \<open>
  On the path \<open>0 - 1 - 2\<close> the assignment makes vertex 0 a child of vertex 1 although
  vertex 0 is its parent; the comparison leaves the state unchanged. For the popped vertex
  \<open>0\<close> the assignment stores zero, so the child branch is not taken.
\<close>

lemma assignment_differs_from_comparison:
  "scan_pin 1 0 path_search_state =
     Inr (path_search_state\<lparr>parent := [1, 0, 1], children := 1, isArticulationPoint := False,
                            lowPoint := [0, 0, 2]\<rparr>)"
  "scan_pin_intended 1 0 path_search_state = Inr path_search_state"
  by (simp_all add: scan_pin_def scan_pin_intended_def path_search_state_def Let_def)

lemma scan_pin_vertex_zero:
  "scan_pin 0 u s = Inr s' \<Longrightarrow> children s' = children s \<and> parent s' = (parent s)[u := 0]"
  by (auto simp: scan_pin_def Let_def split: if_splits)

section \<open>Properties of the static graph construction\<close>

lemma bump_sum:
  assumes "pin < length d"
  shows "sum_list (d[pin := d ! pin + 1]) = sum_list d + (1::nat)"
  using assms by (simp add: sum_list_update)

lemma count_degrees_sum:
  assumes "count_degrees n es d = Inr d'" "n \<le> length d"
  shows "length d' = length d \<and> sum_list d' = sum_list d + 2 * length es"
  using assms
proof (induction es arbitrary: d)
  case Nil
  then show ?case by simp
next
  case (Cons e es)
  from Cons.prems(1) have len: "length e = 2" by (auto split: if_splits)
  then obtain a b where e: "e = [a, b]"
    by (cases e; cases "tl e") auto
  from Cons.prems(1) e have ab: "a < n" "b < n" by (auto split: if_splits)
  let ?d1 = "fold (\<lambda>pin d. d[pin := d ! pin + 1]) e d"
  have s1: "sum_list (d[a := d ! a + 1]) = sum_list d + 1"
    using ab(1) Cons.prems(2) by (intro bump_sum) simp
  have s2: "sum_list ((d[a := d ! a + 1])[b := d[a := d ! a + 1] ! b + 1])
      = sum_list (d[a := d ! a + 1]) + 1"
    using ab(2) Cons.prems(2) by (intro bump_sum) simp
  have d1: "length ?d1 = length d" "sum_list ?d1 = sum_list d + 2"
    using e s1 s2 by simp_all
  have "count_degrees n es ?d1 = Inr d'"
    using Cons.prems(1) e ab by (simp split: if_splits)
  from Cons.IH [OF this] d1 Cons.prems(2) show ?case by simp
qed

lemma setup_edge_length:
  assumes "setup_edge ev ew degs pos st = Inr st'"
  shows "length (snd st') = length (snd st)"
  using assms
  by (auto simp: setup_edge_def Let_def split: if_splits option.splits)

lemma setup_edges_length:
  assumes "setup_edges ev ew degs sched st = Inr st'"
  shows "length (snd st') = length (snd st)"
  using assms
proof (induction sched arbitrary: st)
  case Nil
  then show ?case by simp
next
  case (Cons pos sched)
  then show ?case
    by (auto split: sum.splits dest: setup_edge_length)
qed

text \<open>Sorting a range keeps the length of the array, sorts the range and leaves every
  range before it as it is.\<close>

lemma sort_range_length:
  assumes "b \<le> e" "e \<le> length xs"
  shows "length (sort_range k b e xs) = length xs"
  using assms by (simp add: sort_range_def)

lemma sort_range_same:
  assumes "b \<le> e" "e \<le> length xs"
  shows "take (e - b) (drop b (sort_range k b e xs)) = sort_key k (take (e - b) (drop b xs))"
  using assms by (simp add: sort_range_def)

lemma sort_range_before:
  assumes "b' \<le> e'" "e' \<le> b"  "b \<le> length xs"
  shows "take (e' - b') (drop b' (sort_range k b e xs)) = take (e' - b') (drop b' xs)"
proof -
  have "take (e' - b') (drop b' (sort_range k b e xs))
      = take (e' - b') (drop b' (take b xs @ (sort_key k (take (e - b) (drop b xs)) @ drop e xs)))"
    by (simp add: sort_range_def)
  also have "\<dots> = take (e' - b') (drop b' (take b xs))"
    using assms by simp
  also have "\<dots> = take (e' - b') (drop b' xs)"
    using assms by (simp add: drop_take)
  finally show ?thesis .
qed

lemma window_starts_mono:
  fixes f :: "nat \<Rightarrow> nat"
  assumes "\<forall>i<n. f i \<le> f (i + 1)" "i \<le> j" "j \<le> n"
  shows "f i \<le> f j"
  using assms(2,3)
proof (induction j)
  case 0
  then show ?case by simp
next
  case (Suc j)
  show ?case
  proof (cases "i = Suc j")
    case True
    then show ?thesis by simp
  next
    case False
    then have "f i \<le> f j" using Suc by simp
    moreover have "f j \<le> f (j + 1)" using assms(1) Suc.prems by simp
    ultimately show ?thesis by simp
  qed
qed

lemma sort_ranges_length:
  fixes f :: "nat \<Rightarrow> nat"
  assumes "\<forall>i<n. f i \<le> f (i + 1)" "f n \<le> length xs"
  shows "length (fold (\<lambda>u xs'. sort_range k (f u) (f (u + 1)) xs') [0..<n] xs) = length xs"
  using assms
proof (induction n)
  case 0
  then show ?case by simp
next
  case (Suc n)
  have fn: "f n \<le> f (n + 1)" using Suc.prems(1) by simp
  then have "length (fold (\<lambda>u xs'. sort_range k (f u) (f (u + 1)) xs') [0..<n] xs) = length xs"
    using Suc by simp
  then show ?case using fn Suc.prems(2) by (simp add: sort_range_length)
qed

text \<open>When the windows partition a prefix of the array and every window is sorted in turn,
  every window is sorted at the end.\<close>

lemma sort_ranges_sorted:
  fixes f :: "nat \<Rightarrow> nat"
  assumes "\<forall>i<n. f i \<le> f (i + 1)" "f n \<le> length xs" "u < n"
  shows "sorted (map k
           (take (f (u + 1) - f u)
              (drop (f u) (fold (\<lambda>u xs'. sort_range k (f u) (f (u + 1)) xs') [0..<n] xs))))"
  using assms
proof (induction n arbitrary: u)
  case 0
  then show ?case by simp
next
  case (Suc n)
  let ?r = "fold (\<lambda>u xs'. sort_range k (f u) (f (u + 1)) xs') [0..<n] xs"
  have mono: "\<forall>i<n. f i \<le> f (i + 1)" using Suc.prems(1) by simp
  have fn: "f n \<le> f (n + 1)" using Suc.prems(1) by simp
  have fnl: "f n \<le> length xs" using fn Suc.prems(2) by simp
  have len: "length ?r = length xs"
    using mono fnl by (rule sort_ranges_length)
  have step: "fold (\<lambda>u xs'. sort_range k (f u) (f (u + 1)) xs') [0..<Suc n] xs
      = sort_range k (f n) (f (n + 1)) ?r" by simp
  show ?case
  proof (cases "u = n")
    case True
    have "take (f (n + 1) - f n) (drop (f n) (sort_range k (f n) (f (n + 1)) ?r))
        = sort_key k (take (f (n + 1) - f n) (drop (f n) ?r))"
      using fn Suc.prems(2) len by (intro sort_range_same) simp_all
    then show ?thesis using True step by simp
  next
    case False
    then have u: "u < n" using Suc.prems(3) by simp
    have le: "f (u + 1) \<le> f n"
      by (rule window_starts_mono [OF mono]) (use u in simp_all)
    have fu: "f u \<le> f (u + 1)" using mono u by simp
    have "take (f (u + 1) - f u) (drop (f u) (sort_range k (f n) (f (n + 1)) ?r))
        = take (f (u + 1) - f u) (drop (f u) ?r)"
      using fu le fnl len by (intro sort_range_before) simp_all
    moreover have "sorted (map k (take (f (u + 1) - f u) (drop (f u) ?r)))"
      using Suc.IH [OF mono fnl u] .
    ultimately show ?thesis using step by simp
  qed
qed

lemma sort_window_range: "sort_window b e es = sort_range ed_target b e es"
  by (simp add: sort_window_def sort_range_def)


lemma sort_all_sorted:
  fixes f :: "nat \<Rightarrow> nat"
  assumes "\<forall>i<n. f i \<le> f (i + 1)" "f n \<le> length es" "u < n"
  shows "sorted (map ed_target
           (take (f (u + 1) - f u)
              (drop (f u) (fold (\<lambda>u es'. sort_window (f u) (f (u + 1)) es') [0..<n] es))))"
  unfolding sort_window_range using assms by (rule sort_ranges_sorted)

lemma degree_prefix_sum_mono:
  "degree_prefix_sum degs i \<le> degree_prefix_sum degs (i + 1)"
proof (cases "i < length degs")
  case True
  then show ?thesis by (simp add: degree_prefix_sum_def take_Suc_conv_app_nth)
next
  case False
  then show ?thesis by (simp add: degree_prefix_sum_def)
qed

lemma degree_prefix_sum_le:
  "degree_prefix_sum degs i \<le> sum_list degs"
proof -
  have "sum_list degs = sum_list (take i degs) + sum_list (drop i degs)"
    by (metis append_take_drop_id sum_list_append)
  then show ?thesis by (simp add: degree_prefix_sum_def)
qed



text \<open>
  The order of the entries of a window by target is another matter: \<open>construct\<close> sorts the
  entries by target only with stable construction. Without it and with the iterations of
  \<open>setup_edges\<close> run in input order, the window of node 0 holds the targets 2, 1 (at the
  incident nets 0, 1); with it the targets of every window ascend.
\<close>

lemma construct_unstable_targets:
  "construct [0, 1] 3 2 [[0, 2], [0, 1]] None None False = Inr sequential_graph
   \<and> incident_targets sequential_graph 0 = [2, 1]
   \<and> sg_incidentEdges sequential_graph 0 = [0, 1]"
proof -
  have "construct [0, 1] 3 2 [[0, 2], [0, 1]] None None False = Inr sequential_graph"
    by code_simp
  moreover have "incident_targets sequential_graph 0 = [2, 1]"
    by (simp add: incident_targets_def incident_entries_def sequential_graph_def)
  moreover have "sg_incidentEdges sequential_graph 0 = [0, 1]"
    by (simp add: sg_incidentEdges_def sequential_graph_def upt_rec)
  ultimately show ?thesis by simp
qed

lemma construct_stable_targets_sorted:
  assumes "construct schedule num_nodes num_edges edge_vector edge_weights node_weights True = Inr g"
    and "u < num_nodes"
  shows "sorted (incident_targets g u)"
proof -
  from assms(1) obtain degs cursor es ns where
    m: "length edge_vector = num_edges"
    and degs: "count_degrees num_nodes edge_vector (replicate num_nodes 0) = Inr degs"
    and se: "setup_edges edge_vector edge_weights degs schedule
               (replicate num_nodes 0, replicate (2 * num_edges) default_Edge) = Inr (cursor, es)"
    and sn: "setup_nodes num_nodes node_weights degs = Inr ns"
    and g: "g = \<lparr> sg_num_nodes = num_nodes, sg_num_edges = num_edges,
                  sg_nodes = ns @ [default_Node\<lparr>nd_begin := length es\<rparr>],
                  sg_edges = sort_incident_edges num_nodes
                               (ns @ [default_Node\<lparr>nd_begin := length es\<rparr>]) es,
                  sg_community_ids = replicate num_nodes 0,
                  sg_total_weight = computeTotalNodeWeight num_nodes
                               (ns @ [default_Node\<lparr>nd_begin := length es\<rparr>]) \<rparr>"
    by (auto simp: construct_def Let_def split: if_splits sum.splits)
  let ?nodes = "ns @ [default_Node\<lparr>nd_begin := length es\<rparr>]"
  define f where "f i = nd_begin (?nodes ! i)" for i
  have les: "length es = 2 * num_edges"
    using setup_edges_length [OF se] by simp
  have sum: "sum_list degs = 2 * num_edges"
    using count_degrees_sum [OF degs] m by simp
  have lns: "length ns = num_nodes"
    and nsb: "\<forall>i<num_nodes. nd_begin (ns ! i) = degree_prefix_sum degs i"
    using sn by (auto simp: setup_nodes_def split: option.splits if_splits)
  have f_lt: "\<forall>i<num_nodes. f i = degree_prefix_sum degs i"
    using nsb lns by (simp add: f_def nth_append)
  have f_n: "f num_nodes = length es"
    using lns by (simp add: f_def nth_append)
  have mono: "\<forall>i<num_nodes. f i \<le> f (i + 1)"
  proof (intro allI impI)
    fix i assume i: "i < num_nodes"
    show "f i \<le> f (i + 1)"
    proof (cases "i + 1 < num_nodes")
      case True
      then show ?thesis using f_lt i degree_prefix_sum_mono by simp
    next
      case False
      then have "i + 1 = num_nodes" using i by simp
      then show ?thesis using f_lt f_n i degree_prefix_sum_le [of degs i] sum les by simp
    qed
  qed
  have "sorted (map ed_target
           (take (f (u + 1) - f u)
              (drop (f u) (fold (\<lambda>u es'. sort_window (f u) (f (u + 1)) es') [0..<num_nodes] es))))"
    using mono f_n assms(2) by (intro sort_all_sorted) simp_all
  then show ?thesis
    by (simp add: incident_targets_def incident_entries_def g sort_incident_edges_def f_def)
qed

section \<open>Properties of the static hypergraph construction\<close>













section \<open>Properties of the contraction\<close>

subsection \<open>Compactification\<close>

text \<open>
  C5: the bitmap is set for the cluster of every vertex, enabled or not. With vertex 1
  disabled and in a cluster of its own, the bit of cluster 1 is set although no enabled
  vertex lies in it, and the coarse hypergraph gets two vertices of which only the first
  is the image of a fine vertex.
\<close>

theorem compactify_marks_disabled_cluster:
  "present_bitmap disabled_vertex_example [0, 1] = Inr [1, 1]
   \<and> enabledNodes disabled_vertex_example = [0]
   \<and> compactify disabled_vertex_example [0, 1] = Inr (2, [0, kInvalidHypernode])"
  by code_simp

subsection \<open>Coarse pin lists and fingerprints\<close>

lemma dedup_pins_set:
  "set (dedup_pins cl vs pl)
     = set pl \<union> set (filter (\<lambda>c. c \<noteq> kInvalidHypernode) (map (\<lambda>v. cl ! v) vs))"
  by (induction vs arbitrary: pl) auto

lemma dedup_pins_distinct:
  "distinct pl \<Longrightarrow> distinct (dedup_pins cl vs pl)"
  by (induction vs arbitrary: pl) auto

lemma dedup_pins_identity:
  assumes "\<forall>v\<in>set vs. cl ! v \<noteq> kInvalidHypernode" "distinct (map (\<lambda>v. cl ! v) vs)"
    and "set (map (\<lambda>v. cl ! v) vs) \<inter> set pl = {}"
  shows "dedup_pins cl vs pl = pl @ map (\<lambda>v. cl ! v) vs"
  using assms by (induction vs arbitrary: pl) auto

lemma coarse_pins_set: "set (coarse_pins cl hg he) = coarse_image cl hg he"
  by (simp add: coarse_pins_def coarse_image_def dedup_pins_set)

lemma coarse_pins_distinct: "distinct (coarse_pins cl hg he)"
  by (simp add: coarse_pins_def dedup_pins_distinct)

lemma map_pins_spec:
  assumes "map_pins cl vs (c, pl) = Inr (c', pl')"
    and "\<forall>i<length c. c ! i \<longleftrightarrow> i \<in> set pl" and "\<forall>x\<in>set pl. x < length c"
  shows "length c' = length c \<and> (\<forall>i<length c. c' ! i \<longleftrightarrow> i \<in> set pl')
           \<and> pl' = dedup_pins cl vs pl \<and> (\<forall>x\<in>set pl'. x < length c)"
  using assms
proof (induction vs arbitrary: c pl)
  case Nil
  then show ?case by simp
next
  case (Cons v vs)
  from Cons.prems(1) have v: "v < length cl" by (simp split: if_splits)
  show ?case
  proof (cases "cl ! v \<noteq> kInvalidHypernode")
    case False
    then have "map_pins cl vs (c, pl) = Inr (c', pl')" using Cons.prems(1) v by simp
    from Cons.IH [OF this Cons.prems(2,3)] False show ?thesis by simp
  next
    case True
    then have lt: "cl ! v < length c" using Cons.prems(1) v by (simp add: Let_def split: if_splits)
    show ?thesis
    proof (cases "c ! (cl ! v)")
      case set: True
      then have "map_pins cl vs (c, pl) = Inr (c', pl')"
        using Cons.prems(1) v True lt by (simp add: Let_def)
      moreover have "cl ! v \<in> set pl" using set lt Cons.prems(2) by simp
      ultimately show ?thesis using Cons.IH [of c pl] Cons.prems(2,3) True by simp
    next
      case unset: False
      then have r: "map_pins cl vs (c[cl ! v := True], pl @ [cl ! v]) = Inr (c', pl')"
        using Cons.prems(1) v True lt by (simp add: Let_def)
      have nin: "cl ! v \<notin> set pl" using unset lt Cons.prems(2) by simp
      have inv: "\<forall>i<length (c[cl ! v := True]). (c[cl ! v := True]) ! i \<longleftrightarrow> i \<in> set (pl @ [cl ! v])"
        using Cons.prems(2) lt by (auto simp: nth_list_update)
      have bd: "\<forall>x\<in>set (pl @ [cl ! v]). x < length (c[cl ! v := True])"
        using Cons.prems(3) lt by simp
      from Cons.IH [OF r inv bd] True nin show ?thesis by simp
    qed
  qed
qed

lemma nth_update_any:
  "i < length c \<Longrightarrow> c[a := b] ! i = (if i = a then b else c ! i)"
  by (cases "a < length c") (auto simp: nth_list_update)

lemma reset_bits_nth:
  "length (reset_bits xs c) = length c
   \<and> (\<forall>i<length c. reset_bits xs c ! i \<longleftrightarrow> c ! i \<and> i \<notin> set xs)"
  unfolding reset_bits_def
  by (induction xs arbitrary: c) (auto simp: nth_update_any)

lemma set_bits_nth:
  "length (set_bits xs c) = length c
   \<and> (\<forall>i<length c. set_bits xs c ! i \<longleftrightarrow> c ! i \<or> i \<in> set xs)"
  unfolding set_bits_def
  by (induction xs arbitrary: c) (auto simp: nth_update_any)

lemma fold_mod_sum:
  fixes M a :: nat
  shows "fold (\<lambda>v h. (h + f v mod M) mod M) xs a mod M = (a + sum_list (map f xs)) mod M"
proof (induction xs arbitrary: a)
  case Nil
  then show ?case by simp
next
  case (Cons x xs)
  have "fold (\<lambda>v h. (h + f v mod M) mod M) (x # xs) a mod M
      = ((a + f x mod M) mod M + sum_list (map f xs)) mod M"
    using Cons.IH [of "(a + f x mod M) mod M"] by simp
  also have "\<dots> = (a + f x + sum_list (map f xs)) mod M"
    by (simp add: mod_simps)
  finally show ?case by (simp add: add.assoc)
qed

lemma edge_hash_set:
  assumes "distinct xs" "distinct ys" "set xs = set ys" "xs \<noteq> []"
  shows "edge_hash xs = edge_hash ys"
proof -
  have ne: "ys \<noteq> []" using assms(3,4) by auto
  have m: "\<And>zs::nat list. zs \<noteq> [] \<Longrightarrow> edge_hash zs = edge_hash zs mod 18446744073709551616"
  proof -
    fix zs :: "nat list" assume "zs \<noteq> []"
    then obtain b bs where "zs = bs @ [b]" by (metis rev_exhaust)
    then show "edge_hash zs = edge_hash zs mod 18446744073709551616"
      by (simp add: edge_hash_def)
  qed
  have s: "sum_list (map (\<lambda>v. v * v) xs) = sum_list (map (\<lambda>v. v * v) ys)"
    using assms(1-3) by (simp add: sum_list_distinct_conv_sum_set)
  have "edge_hash xs mod 18446744073709551616 = edge_hash ys mod 18446744073709551616"
    unfolding edge_hash_def fold_mod_sum s ..
  then show ?thesis using m [OF assms(4)] m [OF ne] by simp
qed


lemma all_contained_spec:
  "all_contained c xs = Inr b \<Longrightarrow> b \<longleftrightarrow> (\<forall>v\<in>set xs. c ! v)"
  by (induction xs) (auto split: if_splits)

lemma same_net_refl: "same_net cpl0 P p p"
  by (simp add: same_net_def)

lemma same_net_sym: "same_net cpl0 P p q \<Longrightarrow> same_net cpl0 P q p"
  by (simp add: same_net_def)

lemma same_net_trans: "same_net cpl0 P p q \<Longrightarrow> same_net cpl0 P q r \<Longrightarrow> same_net cpl0 P p r"
  by (simp add: same_net_def)

lemma subset_same_length:
  assumes "distinct xs" "distinct ys" "length xs = length ys" "set xs \<subseteq> set ys"
  shows "set xs = set ys"
proof -
  have "card (set xs) = card (set ys)"
    using assms(1-3) by (simp add: distinct_card)
  then show ?thesis using assms(4) by (simp add: card_subset_eq)
qed

text \<open>In a sorted permutation the positions between two positions of equal hash and size
  have that hash and size too.\<close>

lemma sorted_block:
  assumes "sorted (map chi_key P)" "p \<le> q" "q \<le> r" "r < length P"
    and "chi_hash (P ! p) = chi_hash (P ! r)" "chi_size (P ! p) = chi_size (P ! r)"
  shows "chi_hash (P ! q) = chi_hash (P ! p) \<and> chi_size (P ! q) = chi_size (P ! p)"
proof -
  have pq: "chi_key (P ! p) \<le> chi_key (P ! q)"
    using assms(1-4) sorted_nth_mono [of "map chi_key P" p q] by simp
  have qr: "chi_key (P ! q) \<le> chi_key (P ! r)"
    using assms(1-4) sorted_nth_mono [of "map chi_key P" q r] by simp
  from pq qr assms(5,6) show ?thesis
    by (auto simp: chi_key_def less_eq_prod_def)
qed

lemma sorted_hash_block:
  assumes "sorted (map chi_key P)" "p \<le> q" "q \<le> r" "r < length P"
    and "chi_hash (P ! p) = chi_hash (P ! r)"
  shows "chi_hash (P ! q) = chi_hash (P ! p)"
proof -
  have pq: "chi_key (P ! p) \<le> chi_key (P ! q)"
    using assms(1-4) sorted_nth_mono [of "map chi_key P" p q] by simp
  have qr: "chi_key (P ! q) \<le> chi_key (P ! r)"
    using assms(1-4) sorted_nth_mono [of "map chi_key P" q r] by simp
  from pq qr assms(5) show ?thesis
    by (auto simp: chi_key_def less_eq_prod_def)
qed


lemma detect_pre_valid:
  assumes "detect_pre N P cpl0" "p < length P" "chi_valid (P ! p)"
  shows "chi_he (P ! p) < length P" "2 \<le> length (cpl0 ! chi_he (P ! p))"
    "distinct (cpl0 ! chi_he (P ! p))" "chi_size (P ! p) = length (cpl0 ! chi_he (P ! p))"
    "\<forall>x \<in> set (cpl0 ! chi_he (P ! p)). x < N"
  using assms unfolding detect_pre_def by blast+

lemma detect_pre_inj:
  assumes "detect_pre N P cpl0" "p < length P" "q < length P" "chi_valid (P ! p)"
    "chi_valid (P ! q)" "chi_he (P ! p) = chi_he (P ! q)"
  shows "p = q"
  using assms unfolding detect_pre_def by blast

lemma detect_pre_hash:
  assumes "detect_pre N P cpl0" "p < length P" "q < length P" "chi_valid (P ! p)"
    "chi_valid (P ! q)" "same_net cpl0 P p q"
  shows "chi_hash (P ! p) = chi_hash (P ! q)"
  using assms unfolding detect_pre_def by blast

lemma detect_pre_size:
  assumes "detect_pre N P cpl0" "p < length P" "q < length P" "chi_valid (P ! p)"
    "chi_valid (P ! q)" "same_net cpl0 P p q"
  shows "chi_size (P ! p) = chi_size (P ! q)"
proof -
  have "card (set (cpl0 ! chi_he (P ! p))) = card (set (cpl0 ! chi_he (P ! q)))"
    using assms(6) by (simp add: same_net_def)
  then show ?thesis
    using detect_pre_valid(3,4) [OF assms(1,2,4)] detect_pre_valid(3,4) [OF assms(1,3,5)]
    by (simp add: distinct_card)
qed

lemma detect_pre_sorted: "detect_pre N P cpl0 \<Longrightarrow> sorted (map chi_key P)"
  unfolding detect_pre_def by blast

lemma detect_pre_length: "detect_pre N P cpl0 \<Longrightarrow> length cpl0 = length P"
  unfolding detect_pre_def by blast

lemma wrap_weight_add: "wrap_weight (wrap_weight a + b) = wrap_weight (a + b)"
proof -
  have "(wrap_weight a + b + 2147483648) mod 4294967296
      = ((a + 2147483648) mod 4294967296 + b) mod 4294967296"
    unfolding wrap_weight_def by (simp add: algebra_simps)
  also have "\<dots> = (a + 2147483648 + b) mod 4294967296"
    by (rule mod_add_left_eq)
  finally show ?thesis unfolding wrap_weight_def by (simp add: algebra_simps)
qed

lemma wrap_weight_idem: "wrap_weight (wrap_weight a) = wrap_weight a"
  using wrap_weight_add [of a 0] by simp

lemma wrap_weight_in_range:
  assumes "- 2147483648 \<le> x" "x < 2147483648"
  shows "wrap_weight x = x"
proof -
  have "0 \<le> x + 2147483648" "x + 2147483648 < 4294967296" using assms by simp_all
  then have "(x + 2147483648) mod 4294967296 = x + 2147483648" by (rule mod_pos_pos_trivial)
  then show ?thesis unfolding wrap_weight_def by simp
qed

lemma cand_loop_spec:
  assumes "cand_loop hg c h sz n j (perm, cpl, w) = Inr (perm', cpl', w')"
    and pre: "detect_pre N P cpl0"
    and n: "n = length P"
    and lp: "length perm = length P" and lc: "length cpl = length P"
    and fld: "\<forall>p<length P. chi_he (perm ! p) = chi_he (P ! p)
               \<and> chi_hash (perm ! p) = chi_hash (P ! p) \<and> chi_size (perm ! p) = chi_size (P ! p)"
    and pos: "pos < j" "pos < length P" "chi_valid (P ! pos)"
    and h: "h = chi_hash (P ! pos)" and sz: "sz = chi_size (P ! pos)"
    and bits: "length c = N" "\<forall>i<N. c ! i \<longleftrightarrow> i \<in> set (cpl0 ! chi_he (P ! pos))"
    and intact: "\<forall>p. j \<le> p \<and> p < length P \<and> chi_valid (perm ! p)
                   \<longrightarrow> chi_valid (P ! p) \<and> cpl ! chi_he (P ! p) = cpl0 ! chi_he (P ! p)"
  shows "length perm' = length P \<and> length cpl' = length P
     \<and> (\<forall>p<length P. perm' ! p =
            (if j \<le> p \<and> chi_valid (perm ! p) \<and> same_net cpl0 P pos p
             then (perm ! p)\<lparr>chi_valid := False\<rparr> else perm ! p))
     \<and> (\<forall>p<length P. chi_valid (P ! p) \<longrightarrow> cpl' ! chi_he (P ! p) =
            (if j \<le> p \<and> chi_valid (perm ! p) \<and> same_net cpl0 P pos p
             then [] else cpl ! chi_he (P ! p)))
     \<and> (\<forall>he<length P. (\<forall>p<length P. chi_valid (P ! p) \<longrightarrow> chi_he (P ! p) \<noteq> he)
            \<longrightarrow> cpl' ! he = cpl ! he)
     \<and> w' = (if {p. j \<le> p \<and> p < length P \<and> chi_valid (perm ! p)
                        \<and> same_net cpl0 P pos p} = {} then w
             else wrap_weight (w + (\<Sum>p \<in> {p. j \<le> p \<and> p < length P \<and> chi_valid (perm ! p)
                             \<and> same_net cpl0 P pos p}. edgeWeight hg (chi_he (P ! p)))))"
  using assms(1) lp lc fld pos(1) intact
proof (induction "n - j" arbitrary: j perm cpl w)
  case 0
  then have jn: "\<not> j < n" by simp
  have res: "perm' = perm" "cpl' = cpl" "w' = w"
    using "0.prems"(1) jn by (simp_all add: cand_loop.simps [of hg c h sz n j])
  have e: "{p. j \<le> p \<and> p < length P \<and> chi_valid (perm ! p) \<and> same_net cpl0 P pos p} = {}"
    using jn n by auto
  have nj: "\<And>p. p < length P \<Longrightarrow> \<not> j \<le> p" using jn n by simp
  show ?case unfolding e using res "0.prems"(2,3) nj by simp
next
  case (Suc k)
  then have jn: "j < n" by simp
  then have jP: "j < length P" using n by simp
  note run = Suc.prems(1) [unfolded cand_loop.simps [of hg c h sz n j]] and lp = Suc.prems(2) and lc = Suc.prems(3) and fld = Suc.prems(4)
    and posj = Suc.prems(5) and intact = Suc.prems(6)
  let ?J = "\<lambda>j perm. {p. j \<le> p \<and> p < length P \<and> chi_valid (perm ! p) \<and> same_net cpl0 P pos p}"
  have srt: "sorted (map chi_key P)" using pre by (rule detect_pre_sorted)
  text \<open>a valid position from \<open>j\<close> on that holds the net of \<open>pos\<close> puts \<open>j\<close> into the block\<close>
  have blockI: "chi_hash (P ! j) = h \<and> chi_size (P ! j) = sz"
    if "p \<in> ?J j perm" for p
  proof -
    from that have p: "j \<le> p" "p < length P" "chi_valid (perm ! p)" "same_net cpl0 P pos p"
      by auto
    then have v0: "chi_valid (P ! p)" using intact by blast
    have "chi_hash (P ! pos) = chi_hash (P ! p)"
      using detect_pre_hash [OF pre pos(2) p(2) pos(3) v0 p(4)] .
    moreover have "chi_size (P ! pos) = chi_size (P ! p)"
      using detect_pre_size [OF pre pos(2) p(2) pos(3) v0 p(4)] .
    ultimately show ?thesis
      using sorted_block [OF srt _ p(1) p(2), of pos] posj h sz by simp
  qed
  show ?case
  proof (cases "h = chi_hash (perm ! j) \<and> sz = chi_size (perm ! j)")
    case False
    have res: "perm' = perm" "cpl' = cpl" "w' = w"
      using run jn jP lp False by simp_all
    have e: "?J j perm = {}"
    proof (rule ccontr)
      assume "?J j perm \<noteq> {}"
      then obtain p where "p \<in> ?J j perm" by blast
      from blockI [OF this] False fld jP show False by simp
    qed
    have nj: "\<And>p. p < length P \<Longrightarrow> \<not> (j \<le> p \<and> chi_valid (perm ! p) \<and> same_net cpl0 P pos p)"
      using e by blast
    show ?thesis unfolding e using res lp lc nj by auto
  next
    case blk: True
    let ?cand = "perm ! j"
    have hej: "chi_he ?cand = chi_he (P ! j)" using fld jP by simp
    have guard1: "chi_he ?cand < length cpl"
      using run jn jP lp blk
      by (auto simp: Let_def split: if_splits)
    have Jstep_same: "?J (j + 1) perm1 = ?J (j + 1) perm"
      if "\<forall>p<length P. p \<noteq> j \<longrightarrow> perm1 ! p = perm ! p" for perm1
      using that by auto
    show ?thesis
    proof (cases "chi_valid ?cand")
      case inval: False
      have rec: "cand_loop hg c h sz n (j + 1) (perm, cpl, w) = Inr (perm', cpl', w')"
        using run jn jP lp blk guard1 inval
        by (simp add: Let_def)
      have k: "k = n - (j + 1)" using Suc.hyps(2) by simp
      have int': "\<forall>p. j + 1 \<le> p \<and> p < length P \<and> chi_valid (perm ! p)
                   \<longrightarrow> chi_valid (P ! p) \<and> cpl ! chi_he (P ! p) = cpl0 ! chi_he (P ! p)"
        using intact by simp
      have posj': "pos < j + 1" using posj by simp
      note IH = Suc.hyps(1) [OF k rec lp lc fld posj' int']
      have eqc: "\<And>p. (j + 1 \<le> p \<and> chi_valid (perm ! p) \<and> same_net cpl0 P pos p)
                  = (j \<le> p \<and> chi_valid (perm ! p) \<and> same_net cpl0 P pos p)"
      proof -
        fix p show "(j + 1 \<le> p \<and> chi_valid (perm ! p) \<and> same_net cpl0 P pos p)
                  = (j \<le> p \<and> chi_valid (perm ! p) \<and> same_net cpl0 P pos p)"
          using inval by (cases "p = j") auto
      qed
      have Jeq: "?J (j + 1) perm = ?J j perm" using eqc by auto
      show ?thesis using IH eqc unfolding Jeq by simp
    next
      case val: True
      have v0: "chi_valid (P ! j)" and itc: "cpl ! chi_he (P ! j) = cpl0 ! chi_he (P ! j)"
        using intact jP val by auto
      obtain b where ac: "all_contained c (cpl ! chi_he ?cand) = Inr b"
        using run jn jP lp blk guard1 val
        by (cases "all_contained c (cpl ! chi_he ?cand)")
          (auto simp: Let_def)
      have bsame: "b \<longleftrightarrow> same_net cpl0 P pos j"
      proof -
        have "b \<longleftrightarrow> (\<forall>v\<in>set (cpl0 ! chi_he (P ! j)). c ! v)"
          using all_contained_spec [OF ac] hej itc by simp
        also have "\<dots> \<longleftrightarrow> set (cpl0 ! chi_he (P ! j)) \<subseteq> set (cpl0 ! chi_he (P ! pos))"
          using detect_pre_valid(5) [OF pre jP v0] bits(2) by auto
        also have "\<dots> \<longleftrightarrow> set (cpl0 ! chi_he (P ! j)) = set (cpl0 ! chi_he (P ! pos))"
        proof
          assume sub: "set (cpl0 ! chi_he (P ! j)) \<subseteq> set (cpl0 ! chi_he (P ! pos))"
          have "length (cpl0 ! chi_he (P ! j)) = length (cpl0 ! chi_he (P ! pos))"
            using detect_pre_valid(4) [OF pre jP v0] detect_pre_valid(4) [OF pre pos(2,3)]
              blk fld jP sz by simp
          then show "set (cpl0 ! chi_he (P ! j)) = set (cpl0 ! chi_he (P ! pos))"
            using subset_same_length [OF detect_pre_valid(3) [OF pre jP v0]
                detect_pre_valid(3) [OF pre pos(2,3)] _ sub] by simp
        qed simp
        finally show ?thesis by (auto simp: same_net_def)
      qed
      show ?thesis
      proof (cases b)
        case False
        have rec: "cand_loop hg c h sz n (j + 1) (perm, cpl, w) = Inr (perm', cpl', w')"
          using run jn jP lp blk guard1 val ac False
          by (simp add: Let_def)
        have k: "k = n - (j + 1)" using Suc.hyps(2) by simp
        have int': "\<forall>p. j + 1 \<le> p \<and> p < length P \<and> chi_valid (perm ! p)
                   \<longrightarrow> chi_valid (P ! p) \<and> cpl ! chi_he (P ! p) = cpl0 ! chi_he (P ! p)"
          using intact by simp
        have posj': "pos < j + 1" using posj by simp
        note IH = Suc.hyps(1) [OF k rec lp lc fld posj' int']
        have eqc: "\<And>p. (j + 1 \<le> p \<and> chi_valid (perm ! p) \<and> same_net cpl0 P pos p)
                  = (j \<le> p \<and> chi_valid (perm ! p) \<and> same_net cpl0 P pos p)"
        proof -
          fix p show "(j + 1 \<le> p \<and> chi_valid (perm ! p) \<and> same_net cpl0 P pos p)
                  = (j \<le> p \<and> chi_valid (perm ! p) \<and> same_net cpl0 P pos p)"
            using False bsame by (cases "p = j") auto
        qed
        have Jeq: "?J (j + 1) perm = ?J j perm" using eqc by auto
        show ?thesis using IH eqc unfolding Jeq by simp
      next
        case True
        let ?perm1 = "perm[j := ?cand\<lparr>chi_valid := False\<rparr>]"
        let ?cpl1 = "cpl[chi_he ?cand := []]"
        let ?w1 = "wrap_weight (w + edgeWeight hg (chi_he ?cand))"
        have rec: "cand_loop hg c h sz n (j + 1) (?perm1, ?cpl1, ?w1) = Inr (perm', cpl', w')"
          using run jn jP lp blk guard1 val ac True
          by (auto simp: Let_def split: if_splits)
        have k: "k = n - (j + 1)" using Suc.hyps(2) by simp
        have lp1: "length ?perm1 = length P" using lp by simp
        have lc1: "length ?cpl1 = length P" using lc by simp
        have fld1: "\<forall>p<length P. chi_he (?perm1 ! p) = chi_he (P ! p)
               \<and> chi_hash (?perm1 ! p) = chi_hash (P ! p) \<and> chi_size (?perm1 ! p) = chi_size (P ! p)"
        proof (intro allI impI)
          fix p assume p: "p < length P"
          show "chi_he (?perm1 ! p) = chi_he (P ! p)
               \<and> chi_hash (?perm1 ! p) = chi_hash (P ! p) \<and> chi_size (?perm1 ! p) = chi_size (P ! p)"
            using fld lp p by (cases "p = j") simp_all
        qed
        have other: "cpl ! chi_he (P ! p) = ?cpl1 ! chi_he (P ! p)"
          if "p < length P" "chi_valid (P ! p)" "p \<noteq> j" for p
        proof -
          have "chi_he (P ! p) \<noteq> chi_he (P ! j)"
            using detect_pre_inj [OF pre that(1) jP that(2) v0] that(3) by blast
          then show ?thesis using hej by simp
        qed
        have int1: "\<forall>p. j + 1 \<le> p \<and> p < length P \<and> chi_valid (?perm1 ! p)
                   \<longrightarrow> chi_valid (P ! p) \<and> ?cpl1 ! chi_he (P ! p) = cpl0 ! chi_he (P ! p)"
        proof (intro allI impI)
          fix p assume p: "j + 1 \<le> p \<and> p < length P \<and> chi_valid (?perm1 ! p)"
          then have pj: "j \<noteq> p" by simp
          have pv: "chi_valid (perm ! p)" using p nth_list_update_neq [OF pj, of perm] by simp
          have "chi_valid (P ! p) \<and> cpl ! chi_he (P ! p) = cpl0 ! chi_he (P ! p)"
            using intact p pv by simp
          then show "chi_valid (P ! p) \<and> ?cpl1 ! chi_he (P ! p) = cpl0 ! chi_he (P ! p)"
            using other [of p] p pj by simp
        qed
        have posj': "pos < j + 1" using posj by simp
        note IH = Suc.hyps(1) [OF k rec lp1 lc1 fld1 posj' int1]
        have J1: "?J (j + 1) ?perm1 = ?J (j + 1) perm" by auto
        have Jj: "?J j perm = insert j (?J (j + 1) perm)"
          using val True bsame jP by (auto simp: Suc_le_eq le_less)
        have fin: "finite (?J (j + 1) perm)" by simp
        have nin: "j \<notin> ?J (j + 1) perm" by simp
        have sumJ: "(\<Sum>p \<in> ?J j perm. edgeWeight hg (chi_he (P ! p)))
            = edgeWeight hg (chi_he (P ! j)) + (\<Sum>p \<in> ?J (j + 1) perm. edgeWeight hg (chi_he (P ! p)))"
          unfolding Jj using fin nin by simp
        have c1: "length perm' = length P \<and> length cpl' = length P" using IH by simp
        have c2: "\<forall>p<length P. perm' ! p =
            (if j \<le> p \<and> chi_valid (perm ! p) \<and> same_net cpl0 P pos p
             then (perm ! p)\<lparr>chi_valid := False\<rparr> else perm ! p)"
        proof (intro allI impI)
          fix p assume p: "p < length P"
          have e: "perm' ! p = (if j + 1 \<le> p \<and> chi_valid (?perm1 ! p) \<and> same_net cpl0 P pos p
             then (?perm1 ! p)\<lparr>chi_valid := False\<rparr> else ?perm1 ! p)"
            using IH p by simp
          show "perm' ! p = (if j \<le> p \<and> chi_valid (perm ! p) \<and> same_net cpl0 P pos p
             then (perm ! p)\<lparr>chi_valid := False\<rparr> else perm ! p)"
          proof (cases "p = j")
            case True
            then show ?thesis using e val \<open>b\<close> bsame lp jP by simp
          next
            case False
            then have "j + 1 \<le> p \<longleftrightarrow> j \<le> p" by auto
            then show ?thesis using e False by simp
          qed
        qed
        have c3: "\<forall>p<length P. chi_valid (P ! p) \<longrightarrow> cpl' ! chi_he (P ! p) =
            (if j \<le> p \<and> chi_valid (perm ! p) \<and> same_net cpl0 P pos p
             then [] else cpl ! chi_he (P ! p))"
        proof (intro allI impI)
          fix p assume p: "p < length P" and pv: "chi_valid (P ! p)"
          have e: "cpl' ! chi_he (P ! p) =
            (if j + 1 \<le> p \<and> chi_valid (?perm1 ! p) \<and> same_net cpl0 P pos p
             then [] else ?cpl1 ! chi_he (P ! p))"
            using IH p pv by simp
          show "cpl' ! chi_he (P ! p) =
            (if j \<le> p \<and> chi_valid (perm ! p) \<and> same_net cpl0 P pos p
             then [] else cpl ! chi_he (P ! p))"
          proof (cases "p = j")
            case True
            then show ?thesis using e val \<open>b\<close> bsame hej guard1 by simp
          next
            case False
            then have "j + 1 \<le> p \<longleftrightarrow> j \<le> p" by auto
            then show ?thesis using e False other [OF p pv False] by simp
          qed
        qed
        have c4: "\<forall>he<length P. (\<forall>p<length P. chi_valid (P ! p) \<longrightarrow> chi_he (P ! p) \<noteq> he)
            \<longrightarrow> cpl' ! he = cpl ! he"
        proof (intro allI impI)
          fix he assume he: "he < length P"
            and no: "\<forall>p<length P. chi_valid (P ! p) \<longrightarrow> chi_he (P ! p) \<noteq> he"
          have "cpl' ! he = ?cpl1 ! he" using IH he no by simp
          moreover have "chi_he (P ! j) \<noteq> he" using no jP v0 by simp
          ultimately show "cpl' ! he = cpl ! he" using hej by simp
        qed
        have ne: "?J j perm \<noteq> {}" unfolding Jj by simp
        have c5: "w' = (if ?J j perm = {} then w
             else wrap_weight (w + (\<Sum>p \<in> ?J j perm. edgeWeight hg (chi_he (P ! p)))))"
        proof -
          have w': "w' = (if ?J (j + 1) perm = {} then ?w1
             else wrap_weight (?w1 + (\<Sum>p \<in> ?J (j + 1) perm. edgeWeight hg (chi_he (P ! p)))))"
            using IH [THEN conjunct2, THEN conjunct2, THEN conjunct2, THEN conjunct2, THEN conjunct2]
            unfolding J1 .
          have "w' = wrap_weight (w + (\<Sum>p \<in> ?J j perm. edgeWeight hg (chi_he (P ! p))))"
          proof (cases "?J (j + 1) perm = {}")
            case True
            have s0: "(\<Sum>p \<in> ?J (j + 1) perm. edgeWeight hg (chi_he (P ! p))) = 0"
              unfolding True by simp
            have "w' = ?w1" using w' [unfolded True] by simp
            then show ?thesis unfolding sumJ s0 using hej by simp
          next
            case False
            have "w' = wrap_weight (?w1 + (\<Sum>p \<in> ?J (j + 1) perm. edgeWeight hg (chi_he (P ! p))))"
              using w' False by (simp only: if_False)
            then show ?thesis unfolding sumJ wrap_weight_add using hej
              by (simp only: add.assoc)
          qed
          then show ?thesis using ne by (simp only: if_False)
        qed
        from c1 c2 c3 c4 c5 show ?thesis by blast
      qed
    qed
  qed
qed


lemma first_of_net_exists:
  assumes "chi_valid (P ! p)"
  shows "\<exists>f\<le>p. first_of_net cpl0 P f \<and> same_net cpl0 P f p"
proof -
  define f where "f = (LEAST q. chi_valid (P ! q) \<and> same_net cpl0 P q p)"
  have ex: "chi_valid (P ! p) \<and> same_net cpl0 P p p"
    using assms by (simp add: same_net_refl)
  have f: "chi_valid (P ! f) \<and> same_net cpl0 P f p"
    unfolding f_def by (rule LeastI [of _ p]) (rule ex)
  have le: "f \<le> p" unfolding f_def by (rule Least_le) (rule ex)
  have least: "\<not> (chi_valid (P ! q) \<and> same_net cpl0 P q p)" if "q < f" for q
    using that unfolding f_def by (rule not_less_Least)
  have "first_of_net cpl0 P f"
    unfolding first_of_net_def
  proof (intro conjI allI impI)
    show "chi_valid (P ! f)" using f by simp
  next
    fix q assume q: "q < f" "chi_valid (P ! q)"
    show "\<not> same_net cpl0 P q f"
    proof
      assume "same_net cpl0 P q f"
      then have "same_net cpl0 P q p" using f same_net_trans by blast
      then show False using least [OF q(1)] q(2) by simp
    qed
  qed
  then show ?thesis using le f by blast
qed

lemma first_of_net_unique:
  assumes "first_of_net cpl0 P f" "first_of_net cpl0 P g" "same_net cpl0 P f g"
  shows "f = g"
proof (rule ccontr)
  assume "f \<noteq> g"
  then consider "f < g" | "g < f" by linarith
  then show False
  proof cases
    case 1
    then show False using assms unfolding first_of_net_def by blast
  next
    case 2
    then show False using assms same_net_sym unfolding first_of_net_def by blast
  qed
qed

lemma first_of_net_valid: "first_of_net cpl0 P f \<Longrightarrow> chi_valid (P ! f)"
  by (simp add: first_of_net_def)

lemma det_invD:
  assumes "det_inv hg N P cpl0 dn perm cpl cew c"
  shows "length perm = length P" "length cpl = length P" "length cew = length P"
    "length c = N" "\<forall>i<N. \<not> c ! i"
    "\<forall>p<length P. chi_he (perm ! p) = chi_he (P ! p)
            \<and> chi_hash (perm ! p) = chi_hash (P ! p) \<and> chi_size (perm ! p) = chi_size (P ! p)"
    "\<forall>p<length P. \<not> chi_valid (P ! p) \<longrightarrow> \<not> chi_valid (perm ! p)"
    "\<forall>he<length P. (\<forall>p<length P. chi_valid (P ! p) \<longrightarrow> chi_he (P ! p) \<noteq> he)
            \<longrightarrow> cpl ! he = cpl0 ! he"
  using assms unfolding det_inv_def by blast+

lemma det_inv_net:
  assumes "det_inv hg N P cpl0 dn perm cpl cew c"
    and "p < length P" "chi_valid (P ! p)" "f < length P" "first_of_net cpl0 P f"
      "same_net cpl0 P f p"
  shows "if dn f
         then (if p = f
               then chi_valid (perm ! p) \<and> cpl ! chi_he (P ! p) = cpl0 ! chi_he (P ! p)
                    \<and> cew ! chi_he (P ! p) = merged_weight hg cpl0 P p
               else \<not> chi_valid (perm ! p) \<and> cpl ! chi_he (P ! p) = [])
         else chi_valid (perm ! p) \<and> cpl ! chi_he (P ! p) = cpl0 ! chi_he (P ! p)"
  using assms unfolding det_inv_def by blast

lemma det_invI:
  assumes "length perm = length P" "length cpl = length P" "length cew = length P"
    "length c = N" "\<forall>i<N. \<not> c ! i"
    "\<forall>p<length P. chi_he (perm ! p) = chi_he (P ! p)
            \<and> chi_hash (perm ! p) = chi_hash (P ! p) \<and> chi_size (perm ! p) = chi_size (P ! p)"
    "\<forall>p<length P. \<not> chi_valid (P ! p) \<longrightarrow> \<not> chi_valid (perm ! p)"
    "\<forall>he<length P. (\<forall>p<length P. chi_valid (P ! p) \<longrightarrow> chi_he (P ! p) \<noteq> he)
            \<longrightarrow> cpl ! he = cpl0 ! he"
    "\<And>p f. p < length P \<Longrightarrow> chi_valid (P ! p) \<Longrightarrow> f < length P \<Longrightarrow> first_of_net cpl0 P f
        \<Longrightarrow> same_net cpl0 P f p \<Longrightarrow>
        (if dn f
         then (if p = f
               then chi_valid (perm ! p) \<and> cpl ! chi_he (P ! p) = cpl0 ! chi_he (P ! p)
                    \<and> cew ! chi_he (P ! p) = merged_weight hg cpl0 P p
               else \<not> chi_valid (perm ! p) \<and> cpl ! chi_he (P ! p) = [])
         else chi_valid (perm ! p) \<and> cpl ! chi_he (P ! p) = cpl0 ! chi_he (P ! p))"
  shows "det_inv hg N P cpl0 dn perm cpl cew c"
  unfolding det_inv_def
  using assms(1-8) assms(9) by blast

lemma det_inv_cong:
  assumes "det_inv hg N P cpl0 dn perm cpl cew c"
    and "\<forall>f<length P. first_of_net cpl0 P f \<longrightarrow> dn f = dn' f"
  shows "det_inv hg N P cpl0 dn' perm cpl cew c"
proof (rule det_invI)
  fix p f
  assume a: "p < length P" "chi_valid (P ! p)" "f < length P" "first_of_net cpl0 P f"
    "same_net cpl0 P f p"
  have "dn f = dn' f" using assms(2) a(3,4) by simp
  then show "if dn' f
         then (if p = f
               then chi_valid (perm ! p) \<and> cpl ! chi_he (P ! p) = cpl0 ! chi_he (P ! p)
                    \<and> cew ! chi_he (P ! p) = merged_weight hg cpl0 P p
               else \<not> chi_valid (perm ! p) \<and> cpl ! chi_he (P ! p) = [])
         else chi_valid (perm ! p) \<and> cpl ! chi_he (P ! p) = cpl0 ! chi_he (P ! p)"
    using det_inv_net [OF assms(1) a] by simp
qed (use det_invD [OF assms(1)] in blast)+

text \<open>A position that is still valid holds a hyperedge whose pin list is intact.\<close>

lemma det_inv_valid_intact:
  assumes inv: "det_inv hg N P cpl0 dn perm cpl cew c"
    and p: "p < length P" "chi_valid (perm ! p)"
  shows "chi_valid (P ! p) \<and> cpl ! chi_he (P ! p) = cpl0 ! chi_he (P ! p)"
proof -
  have v0: "chi_valid (P ! p)" using det_invD(7) [OF inv] p by blast
  obtain f where f: "f \<le> p" "first_of_net cpl0 P f" "same_net cpl0 P f p"
    using first_of_net_exists [OF v0] by blast
  have fl: "f < length P" using f(1) p(1) by simp
  show ?thesis
    using det_inv_net [OF inv p(1) v0 fl f(2,3)] p(2) v0 by (auto split: if_splits)
qed


text \<open>One representative: the hyperedges of its net behind it are absorbed.\<close>

lemma rep_step:
  assumes pre: "detect_pre N P cpl0"
    and inv: "det_inv hg N P cpl0 dn perm cpl cew c"
    and pos: "pos < length P" and first: "first_of_net cpl0 P pos" and nd: "\<not> dn pos"
    and cl: "cand_loop hg (set_bits (cpl ! chi_he (P ! pos)) c) (chi_hash (P ! pos))
               (chi_size (P ! pos)) (length P) (pos + 1)
               (perm, cpl, edgeWeight hg (chi_he (P ! pos))) = Inr (perm', cpl', w')"
  shows "det_inv hg N P cpl0 (\<lambda>f. dn f \<or> f = pos) perm' cpl' (cew[chi_he (P ! pos) := w'])
           (reset_bits (cpl' ! chi_he (P ! pos)) (set_bits (cpl ! chi_he (P ! pos)) c))"
proof -
  let ?he = "chi_he (P ! pos)"
  let ?c1 = "set_bits (cpl ! ?he) c"
  let ?J = "{p. pos + 1 \<le> p \<and> p < length P \<and> chi_valid (perm ! p) \<and> same_net cpl0 P pos p}"
  note D = det_invD [OF inv]
  have v0: "chi_valid (P ! pos)" using first by (rule first_of_net_valid)
  note V = detect_pre_valid [OF pre pos v0]
  have own: "chi_valid (perm ! pos) \<and> cpl ! ?he = cpl0 ! ?he"
    using det_inv_net [OF inv pos v0 pos first same_net_refl] nd by simp
  have bits: "length ?c1 = N" "\<forall>i<N. ?c1 ! i \<longleftrightarrow> i \<in> set (cpl0 ! ?he)"
    using set_bits_nth [of "cpl ! ?he" c] D(4,5) own by auto
  have intact: "\<forall>p. pos + 1 \<le> p \<and> p < length P \<and> chi_valid (perm ! p)
                   \<longrightarrow> chi_valid (P ! p) \<and> cpl ! chi_he (P ! p) = cpl0 ! chi_he (P ! p)"
    using det_inv_valid_intact [OF inv] by blast
  have pj: "pos < pos + 1" by simp
  note R = cand_loop_spec [OF cl pre refl D(1,2,6) pj pos v0 refl refl bits intact]
  note R1 = R [THEN conjunct1]
  note R2 = R [THEN conjunct2, THEN conjunct1]
  note R3 = R [THEN conjunct2, THEN conjunct2, THEN conjunct1]
  note R4 = R [THEN conjunct2, THEN conjunct2, THEN conjunct2, THEN conjunct1]
  note R5 = R [THEN conjunct2, THEN conjunct2, THEN conjunct2, THEN conjunct2, THEN conjunct1]
  note R6 = R [THEN conjunct2, THEN conjunct2, THEN conjunct2, THEN conjunct2, THEN conjunct2]
  have K1: "p = pos \<or> (pos + 1 \<le> p \<and> chi_valid (perm ! p))"
    if p: "p < length P" "chi_valid (P ! p)" "same_net cpl0 P pos p" for p
  proof (cases "p = pos")
    case False
    have "\<not> p < pos"
      using first p(2) same_net_sym [OF p(3)] unfolding first_of_net_def by blast
    then have "pos + 1 \<le> p" using False by simp
    moreover have "chi_valid (perm ! p)"
      using det_inv_net [OF inv p(1,2) pos first p(3)] nd by simp
    ultimately show ?thesis by simp
  qed simp
  have own': "cpl' ! ?he = cpl0 ! ?he" "perm' ! pos = perm ! pos"
    using R4 R3 pos v0 own by simp_all
  have K2: "w' = merged_weight hg cpl0 P pos"
  proof -
    have e: "{q. q < length P \<and> chi_valid (P ! q) \<and> same_net cpl0 P pos q} = insert pos ?J"
    proof (intro set_eqI iffI)
      fix q assume "q \<in> {q. q < length P \<and> chi_valid (P ! q) \<and> same_net cpl0 P pos q}"
      then have q: "q < length P" "chi_valid (P ! q)" "same_net cpl0 P pos q" by simp_all
      from K1 [OF q] q show "q \<in> insert pos ?J" by auto
    next
      fix q assume "q \<in> insert pos ?J"
      then consider "q = pos" | "q \<in> ?J" by blast
      then show "q \<in> {q. q < length P \<and> chi_valid (P ! q) \<and> same_net cpl0 P pos q}"
      proof cases
        case 1
        then show ?thesis using pos v0 same_net_refl by simp
      next
        case 2
        then show ?thesis using D(7) by auto
      qed
    qed
    have fin: "finite ?J" by simp
    have nin: "pos \<notin> ?J" by simp
    have nw: "net_weight hg cpl0 P pos
        = edgeWeight hg ?he + (\<Sum>p \<in> ?J. edgeWeight hg (chi_he (P ! p)))"
      unfolding net_weight_def e using fin nin by simp
    have single: "insert pos ?J = {pos} \<longleftrightarrow> ?J = {}" using nin by blast
    show ?thesis
    proof (cases "?J = {}")
      case True
      have "w' = edgeWeight hg ?he" using R6 unfolding True by simp
      moreover have s: "insert pos ?J = {pos}" unfolding True by simp
      have "merged_weight hg cpl0 P pos = edgeWeight hg ?he"
        unfolding merged_weight_def e s by simp
      ultimately show ?thesis by simp
    next
      case False
      have "w' = wrap_weight (edgeWeight hg ?he + (\<Sum>p \<in> ?J. edgeWeight hg (chi_he (P ! p))))"
        using R6 False by (simp only: if_False)
      moreover have ns: "insert pos ?J \<noteq> {pos}" using single False by blast
      have "merged_weight hg cpl0 P pos = wrap_weight (net_weight hg cpl0 P pos)"
        unfolding merged_weight_def e using ns by (simp only: if_False)
      ultimately show ?thesis using nw by simp
    qed
  qed
  show ?thesis
  proof (rule det_invI)
    show "length perm' = length P" by (rule R1)
    show "length cpl' = length P" by (rule R2)
    show "length (cew[?he := w']) = length P" using D(3) by simp
    show "length (reset_bits (cpl' ! ?he) ?c1) = N"
      using reset_bits_nth [of "cpl' ! ?he" ?c1] bits(1) by simp
    show "\<forall>i<N. \<not> reset_bits (cpl' ! ?he) ?c1 ! i"
      using reset_bits_nth [of "cpl' ! ?he" ?c1] bits own'(1) by simp
    show "\<forall>p<length P. chi_he (perm' ! p) = chi_he (P ! p)
            \<and> chi_hash (perm' ! p) = chi_hash (P ! p) \<and> chi_size (perm' ! p) = chi_size (P ! p)"
      using R3 D(6) by simp
    show "\<forall>p<length P. \<not> chi_valid (P ! p) \<longrightarrow> \<not> chi_valid (perm' ! p)"
      using R3 D(7) by simp
    show "\<forall>he<length P. (\<forall>p<length P. chi_valid (P ! p) \<longrightarrow> chi_he (P ! p) \<noteq> he)
            \<longrightarrow> cpl' ! he = cpl0 ! he"
      using R5 D(8) by simp
  next
    fix p f
    assume a: "p < length P" "chi_valid (P ! p)" "f < length P" "first_of_net cpl0 P f"
      "same_net cpl0 P f p"
    show "if dn f \<or> f = pos
         then (if p = f
               then chi_valid (perm' ! p) \<and> cpl' ! chi_he (P ! p) = cpl0 ! chi_he (P ! p)
                    \<and> cew[?he := w'] ! chi_he (P ! p) = merged_weight hg cpl0 P p
               else \<not> chi_valid (perm' ! p) \<and> cpl' ! chi_he (P ! p) = [])
         else chi_valid (perm' ! p) \<and> cpl' ! chi_he (P ! p) = cpl0 ! chi_he (P ! p)"
    proof (cases "f = pos")
      case True
      show ?thesis
      proof (cases "p = f")
        case pf: True
        have "cew[?he := w'] ! ?he = w'" using V(1) D(3) by simp
        then show ?thesis using True pf own own' K2 by simp
      next
        case pf: False
        have "pos + 1 \<le> p \<and> chi_valid (perm ! p)"
          using K1 [OF a(1,2)] a(5) True pf by simp
        then have "\<not> chi_valid (perm' ! p) \<and> cpl' ! chi_he (P ! p) = []"
          using R3 R4 a(1,2,5) True by simp
        then show ?thesis using True pf by simp
      qed
    next
      case False
      have ns: "\<not> same_net cpl0 P pos p"
      proof
        assume "same_net cpl0 P pos p"
        then have "same_net cpl0 P f pos" using a(5) same_net_sym same_net_trans by blast
        then show False using first_of_net_unique [OF a(4) first] False by simp
      qed
      then have pp: "p \<noteq> pos" using same_net_refl by blast
      have e1: "perm' ! p = perm ! p" using R3 a(1) ns by simp
      have e2: "cpl' ! chi_he (P ! p) = cpl ! chi_he (P ! p)" using R4 a(1,2) ns by simp
      have "chi_he (P ! p) \<noteq> ?he"
        using detect_pre_inj [OF pre a(1) pos a(2) v0] pp by blast
      then have e3: "cew[?he := w'] ! chi_he (P ! p) = cew ! chi_he (P ! p)" by simp
      show ?thesis
        using det_inv_net [OF inv a] False unfolding e1 e2 e3 by simp
    qed
  qed
qed


lemma valid_is_first:
  assumes inv: "det_inv hg N P cpl0 dn perm cpl cew c"
    and pos: "pos < length P" "chi_valid (perm ! pos)"
    and before: "\<forall>f<pos. first_of_net cpl0 P f \<and> same_net cpl0 P f pos \<longrightarrow> dn f"
  shows "first_of_net cpl0 P pos"
proof -
  have v0: "chi_valid (P ! pos)" using det_invD(7) [OF inv] pos by blast
  obtain f where f: "f \<le> pos" "first_of_net cpl0 P f" "same_net cpl0 P f pos"
    using first_of_net_exists [OF v0] by blast
  have fl: "f < length P" using f(1) pos(1) by simp
  have "f = pos"
  proof (rule ccontr)
    assume ne: "f \<noteq> pos"
    then have "f < pos" using f(1) by simp
    then have "dn f" using before f(2,3) by blast
    then show False using det_inv_net [OF inv pos(1) v0 fl f(2,3)] ne pos(2) by simp
  qed
  then show ?thesis using f(2) by simp
qed

text \<open>The loop over one run of equal hash handles every net of that hash.\<close>

lemma run_loop_spec:
  assumes "run_loop hg h n pos (perm, cpl, cew, c, ln, lpn)
             = Inr (perm', cpl', cew', c', ln', lpn')"
    and pre: "detect_pre N P cpl0" and n: "n = length P"
    and inv: "det_inv hg N P cpl0 (\<lambda>f. D f \<or> (chi_hash (P ! f) = h \<and> f < pos)) perm cpl cew c"
    and D: "\<forall>f<length P. D f \<longrightarrow> chi_hash (P ! f) \<noteq> h"
    and s: "s \<le> pos" "s < length P" "chi_hash (P ! s) = h"
  shows "det_inv hg N P cpl0 (\<lambda>f. D f \<or> chi_hash (P ! f) = h) perm' cpl' cew' c'
       \<and> ln' = ln + card {f. pos \<le> f \<and> f < length P \<and> chi_hash (P ! f) = h
                              \<and> first_of_net cpl0 P f}"
  using assms(1) inv s(1)
proof (induction "n - pos" arbitrary: pos perm cpl cew c ln lpn)
  case 0
  then have jn: "\<not> pos < n" by simp
  have res: "perm' = perm" "cpl' = cpl" "cew' = cew" "c' = c" "ln' = ln"
    using "0.prems"(1) jn by (simp_all add: run_loop.simps [of hg h n pos])
  have e: "{f. pos \<le> f \<and> f < length P \<and> chi_hash (P ! f) = h \<and> first_of_net cpl0 P f} = {}"
    using jn n by auto
  have "det_inv hg N P cpl0 (\<lambda>f. D f \<or> chi_hash (P ! f) = h) perm cpl cew c"
    by (rule det_inv_cong [OF "0.prems"(2)]) (use jn n in auto)
  then show ?case unfolding e res by simp
next
  case (Suc k)
  then have jn: "pos < n" by simp
  then have pP: "pos < length P" using n by simp
  note run = Suc.prems(1) [unfolded run_loop.simps [of hg h n pos]]
    and inv = Suc.prems(2) and spos = Suc.prems(3)
  note I = det_invD [OF inv]
  have srt: "sorted (map chi_key P)" using pre by (rule detect_pre_sorted)
  have hp: "chi_hash (perm ! pos) = chi_hash (P ! pos)" "chi_he (perm ! pos) = chi_he (P ! pos)"
    "chi_size (perm ! pos) = chi_size (P ! pos)"
    using I(6) pP by simp_all
  let ?F = "\<lambda>pos. {f. pos \<le> f \<and> f < length P \<and> chi_hash (P ! f) = h \<and> first_of_net cpl0 P f}"
  show ?case
  proof (cases "h = chi_hash (perm ! pos)")
    case False
    have res: "perm' = perm" "cpl' = cpl" "cew' = cew" "c' = c" "ln' = ln"
      using run jn pP I(1) False by simp_all
    have nh: "chi_hash (P ! f) \<noteq> h" if "pos \<le> f" "f < length P" for f
    proof
      assume "chi_hash (P ! f) = h"
      then have "chi_hash (P ! s) = chi_hash (P ! f)" using s(3) by simp
      from sorted_hash_block [OF srt spos that this] s(3) False hp show False by simp
    qed
    have e: "?F pos = {}" using nh by auto
    have "det_inv hg N P cpl0 (\<lambda>f. D f \<or> chi_hash (P ! f) = h) perm cpl cew c"
    proof (rule det_inv_cong [OF inv], intro allI impI)
      fix f assume "f < length P" "first_of_net cpl0 P f"
      then show "(D f \<or> chi_hash (P ! f) = h \<and> f < pos) = (D f \<or> chi_hash (P ! f) = h)"
        using nh [of f] by (cases "f < pos") auto
    qed
    then show ?thesis unfolding e res by simp
  next
    case blk: True
    then have hP: "chi_hash (P ! pos) = h" using hp by simp
    have nD: "\<not> D pos" using D pP hP by blast
    have guard1: "chi_he (perm ! pos) < length (hyperedges hg)"
      using run jn pP I(1) blk by (auto simp: Let_def split: if_splits)
    have k: "k = n - (pos + 1)" using Suc.hyps(2) by simp
    have spos': "s \<le> pos + 1" using spos by simp
    show ?thesis
    proof (cases "chi_valid (perm ! pos)")
      case inval: False
      have rec: "run_loop hg h n (pos + 1) (perm, cpl, cew, c, ln, lpn)
                   = Inr (perm', cpl', cew', c', ln', lpn')"
        using run jn pP I(1) blk guard1 inval by (simp add: Let_def)
      have nf: "\<not> first_of_net cpl0 P pos"
      proof
        assume f: "first_of_net cpl0 P pos"
        have "chi_valid (perm ! pos)"
          using det_inv_net [OF inv pP first_of_net_valid [OF f] pP f same_net_refl] nD
          by simp
        then show False using inval by simp
      qed
      have inv1: "det_inv hg N P cpl0 (\<lambda>f. D f \<or> (chi_hash (P ! f) = h \<and> f < pos + 1))
                    perm cpl cew c"
      proof (rule det_inv_cong [OF inv], intro allI impI)
        fix f assume "f < length P" "first_of_net cpl0 P f"
        then have "f \<noteq> pos" using nf by blast
        then show "(D f \<or> chi_hash (P ! f) = h \<and> f < pos)
                 = (D f \<or> chi_hash (P ! f) = h \<and> f < pos + 1)"
          by auto
      qed
      note IH = Suc.hyps(1) [OF k rec inv1 spos']
      have "?F (pos + 1) = ?F pos"
      proof (intro set_eqI iffI)
        fix f assume "f \<in> ?F pos"
        then have "f \<noteq> pos" using nf by blast
        then show "f \<in> ?F (pos + 1)" using \<open>f \<in> ?F pos\<close> by auto
      qed auto
      then show ?thesis using IH by simp
    next
      case val: True
      have first: "first_of_net cpl0 P pos"
      proof (rule valid_is_first [OF inv pP val], intro allI impI)
        fix f assume f: "f < pos" "first_of_net cpl0 P f \<and> same_net cpl0 P f pos"
        have fl: "f < length P" using f(1) pP by simp
        have "chi_valid (P ! pos)" using I(7) pP val by blast
        then have "chi_hash (P ! f) = chi_hash (P ! pos)"
          using detect_pre_hash [OF pre fl pP first_of_net_valid] f(2) by blast
        then show "D f \<or> chi_hash (P ! f) = h \<and> f < pos" using hP f(1) by simp
      qed
      have nd: "\<not> (D pos \<or> chi_hash (P ! pos) = h \<and> pos < pos)" using nD by simp
      have v0: "chi_valid (P ! pos)" using first by (rule first_of_net_valid)
      note V = detect_pre_valid [OF pre pP v0]
      have guard2: "chi_he (perm ! pos) < length cpl \<and> chi_he (perm ! pos) < length cew
                     \<and> (\<forall>v \<in> set (cpl ! chi_he (perm ! pos)). v < length c)"
        using run jn pP I(1) blk guard1 val by (auto simp: Let_def split: if_splits)
      obtain perm1 cpl1 w1 where
        cl: "cand_loop hg (set_bits (cpl ! chi_he (perm ! pos)) c) h (chi_size (perm ! pos)) n
               (pos + 1) (perm, cpl, edgeWeight hg (chi_he (perm ! pos)))
             = Inr (perm1, cpl1, w1)"
        using run jn pP I(1) blk guard1 val guard2
        by (cases "cand_loop hg (set_bits (cpl ! chi_he (perm ! pos)) c) h
                     (chi_size (perm ! pos)) n (pos + 1)
                     (perm, cpl, edgeWeight hg (chi_he (perm ! pos)))")
          (auto simp: Let_def)
      have rec: "run_loop hg h n (pos + 1)
                   (perm1, cpl1, cew[chi_he (perm ! pos) := w1],
                    reset_bits (cpl1 ! chi_he (perm ! pos))
                      (set_bits (cpl ! chi_he (perm ! pos)) c),
                    ln + 1, lpn + length (cpl1 ! chi_he (perm ! pos)))
                 = Inr (perm', cpl', cew', c', ln', lpn')"
        using run jn pP I(1) blk guard1 val guard2 cl by (simp add: Let_def)
      have cl': "cand_loop hg (set_bits (cpl ! chi_he (P ! pos)) c) (chi_hash (P ! pos))
               (chi_size (P ! pos)) (length P) (pos + 1)
               (perm, cpl, edgeWeight hg (chi_he (P ! pos))) = Inr (perm1, cpl1, w1)"
        using cl hp hP n by simp
      note st = rep_step [OF pre inv pP first nd cl']
      have inv1: "det_inv hg N P cpl0 (\<lambda>f. D f \<or> (chi_hash (P ! f) = h \<and> f < pos + 1))
                    perm1 cpl1 (cew[chi_he (perm ! pos) := w1])
                    (reset_bits (cpl1 ! chi_he (perm ! pos))
                      (set_bits (cpl ! chi_he (perm ! pos)) c))"
        unfolding hp
      proof (rule det_inv_cong [OF st], intro allI impI)
        fix f assume "f < length P" "first_of_net cpl0 P f"
        show "((D f \<or> chi_hash (P ! f) = h \<and> f < pos) \<or> f = pos)
                 = (D f \<or> chi_hash (P ! f) = h \<and> f < pos + 1)"
          using hP by auto
      qed
      note IH = Suc.hyps(1) [OF k rec inv1 spos']
      have Fe: "?F pos = insert pos (?F (pos + 1))"
        using first pP hP by (auto simp: Suc_le_eq le_less)
      have fin: "finite (?F (pos + 1))" by simp
      have nin: "pos \<notin> ?F (pos + 1)" by simp
      have "card (?F pos) = card (?F (pos + 1)) + 1"
        unfolding Fe using fin nin by simp
      then show ?thesis using IH by simp
    qed
  qed
qed


text \<open>A position whose hash differs from the hash before it is the first of that hash.\<close>

lemma run_start_least:
  assumes "sorted (map chi_key P)" "pos < length P" "f < pos"
    and "pos = 0 \<or> chi_hash (P ! pos) \<noteq> chi_hash (P ! (pos - 1))"
  shows "chi_hash (P ! f) \<noteq> chi_hash (P ! pos)"
proof
  assume e: "chi_hash (P ! f) = chi_hash (P ! pos)"
  have "f \<le> pos - 1" "pos - 1 \<le> pos" using assms(3) by simp_all
  from sorted_hash_block [OF assms(1) this assms(2) e] e assms(3,4) show False by simp
qed

lemma run_start_unique:
  assumes "sorted (map chi_key P)" "s < length P" "t < length P"
    and "chi_hash (P ! s) = chi_hash (P ! t)"
    and "s = 0 \<or> chi_hash (P ! s) \<noteq> chi_hash (P ! (s - 1))"
    and "t = 0 \<or> chi_hash (P ! t) \<noteq> chi_hash (P ! (t - 1))"
  shows "s = t"
proof (rule ccontr)
  assume "s \<noteq> t"
  then consider "s < t" | "t < s" by linarith
  then show False
  proof cases
    case 1
    from run_start_least [OF assms(1,3) 1 assms(6)] assms(4) show False by simp
  next
    case 2
    from run_start_least [OF assms(1,2) 2 assms(5)] assms(4) show False by simp
  qed
qed

lemma detect_step_spec:
  assumes step: "detect_step hg pos (perm, cpl, cew, c, nets, pn)
             = Inr (perm', cpl', cew', c', nets', pn')"
    and pre: "detect_pre N P cpl0" and pos: "pos < length P" "pos \<notin> S"
    and inv: "det_inv hg N P cpl0 (\<lambda>f. chi_hash (P ! f) \<in> H) perm cpl cew c"
    and nets: "nets = card {f. f < length P \<and> first_of_net cpl0 P f \<and> chi_hash (P ! f) \<in> H}"
    and starts: "\<forall>h\<in>H. \<exists>s<length P. s \<noteq> pos \<and> s \<notin> S \<and> chi_hash (P ! s) = h
                    \<and> (s = 0 \<or> chi_hash (P ! s) \<noteq> chi_hash (P ! (s - 1)))"
  shows "\<exists>H'. det_inv hg N P cpl0 (\<lambda>f. chi_hash (P ! f) \<in> H') perm' cpl' cew' c'
           \<and> nets' = card {f. f < length P \<and> first_of_net cpl0 P f \<and> chi_hash (P ! f) \<in> H'}
           \<and> (\<forall>h\<in>H'. \<exists>s<length P. s \<notin> S \<and> chi_hash (P ! s) = h
                    \<and> (s = 0 \<or> chi_hash (P ! s) \<noteq> chi_hash (P ! (s - 1))))"
proof -
  note I = det_invD [OF inv]
  have srt: "sorted (map chi_key P)" using pre by (rule detect_pre_sorted)
  have pl: "pos < length perm" using I(1) pos(1) by simp
  have hp: "chi_hash (perm ! pos) = chi_hash (P ! pos)" using I(6) pos(1) by simp
  have hp1: "chi_hash (perm ! (pos - 1)) = chi_hash (P ! (pos - 1))" using I(6) pos(1) by simp
  let ?start = "(pos = 0 \<or> chi_hash (perm ! pos) \<noteq> chi_hash (perm ! (pos - 1)))
                  \<and> chi_valid (perm ! pos)"
  show ?thesis
  proof (cases ?start)
    case False
    have res: "perm' = perm" "cpl' = cpl" "cew' = cew" "c' = c" "nets' = nets"
      using step pl False by (auto simp: detect_step_def)
    show ?thesis
    proof (intro exI [of _ H] conjI)
      show "det_inv hg N P cpl0 (\<lambda>f. chi_hash (P ! f) \<in> H) perm' cpl' cew' c'"
        unfolding res by (rule inv)
      show "nets' = card {f. f < length P \<and> first_of_net cpl0 P f \<and> chi_hash (P ! f) \<in> H}"
        unfolding res by (rule nets)
      show "\<forall>h\<in>H. \<exists>s<length P. s \<notin> S \<and> chi_hash (P ! s) = h
                    \<and> (s = 0 \<or> chi_hash (P ! s) \<noteq> chi_hash (P ! (s - 1)))"
        using starts by blast
    qed
  next
    case True
    define h where "h = chi_hash (P ! pos)"
    have rs: "pos = 0 \<or> chi_hash (P ! pos) \<noteq> chi_hash (P ! (pos - 1))"
      using True hp hp1 by auto
    have before: "chi_hash (P ! f) \<noteq> h" if "f < pos" for f
      unfolding h_def by (rule run_start_least [OF srt pos(1) that rs])
    have hH: "h \<notin> H"
    proof
      assume "h \<in> H"
      then obtain s where s: "s < length P" "s \<noteq> pos" "chi_hash (P ! s) = h"
        "s = 0 \<or> chi_hash (P ! s) \<noteq> chi_hash (P ! (s - 1))"
        using starts by blast
      from run_start_unique [OF srt s(1) pos(1) _ s(4) rs] s(2,3) show False
        by (simp add: h_def)
    qed
    obtain ln lpn where
      run: "run_loop hg h (length P) pos (perm, cpl, cew, c, 0, 0)
              = Inr (perm', cpl', cew', c', ln, lpn)"
      and cnt: "nets' = nets + ln"
      using step pl True hp I(1)
      by (auto simp: detect_step_def h_def split: sum.splits)
    have inv0: "det_inv hg N P cpl0 (\<lambda>f. chi_hash (P ! f) \<in> H \<or> (chi_hash (P ! f) = h \<and> f < pos))
                  perm cpl cew c"
      by (rule det_inv_cong [OF inv]) (use before in auto)
    have DH: "\<forall>f<length P. chi_hash (P ! f) \<in> H \<longrightarrow> chi_hash (P ! f) \<noteq> h"
      using hH by auto
    have hpos: "chi_hash (P ! pos) = h" by (simp add: h_def)
    note R = run_loop_spec [OF run pre refl inv0 DH order_refl pos(1) hpos]
    let ?A = "{f. f < length P \<and> first_of_net cpl0 P f \<and> chi_hash (P ! f) \<in> H}"
    let ?B = "{f. pos \<le> f \<and> f < length P \<and> chi_hash (P ! f) = h \<and> first_of_net cpl0 P f}"
    have AB: "{f. f < length P \<and> first_of_net cpl0 P f \<and> chi_hash (P ! f) \<in> insert h H}
                = ?A \<union> ?B"
      using before by (auto simp: not_less [symmetric])
    have dj: "?A \<inter> ?B = {}" using hH by auto
    have card: "card (?A \<union> ?B) = card ?A + card ?B"
      by (rule card_Un_disjoint) (use dj in simp_all)
    show ?thesis
    proof (intro exI [of _ "insert h H"] conjI)
      show "det_inv hg N P cpl0 (\<lambda>f. chi_hash (P ! f) \<in> insert h H) perm' cpl' cew' c'"
        by (rule det_inv_cong [OF R [THEN conjunct1]]) auto
      show "nets' = card {f. f < length P \<and> first_of_net cpl0 P f
                             \<and> chi_hash (P ! f) \<in> insert h H}"
        unfolding AB card using cnt nets R [THEN conjunct2] by simp
      show "\<forall>h\<in>insert h H. \<exists>s<length P. s \<notin> S \<and> chi_hash (P ! s) = h
                    \<and> (s = 0 \<or> chi_hash (P ! s) \<noteq> chi_hash (P ! (s - 1)))"
      proof
        fix g assume "g \<in> insert h H"
        then consider "g = h" | "g \<in> H" by blast
        then show "\<exists>s<length P. s \<notin> S \<and> chi_hash (P ! s) = g
                    \<and> (s = 0 \<or> chi_hash (P ! s) \<noteq> chi_hash (P ! (s - 1)))"
        proof cases
          case 1
          then show ?thesis using pos rs hpos by blast
        next
          case 2
          then show ?thesis using starts by blast
        qed
      qed
    qed
  qed
qed

lemma detect_loop_spec:
  assumes "detect_loop hg ps (perm, cpl, cew, c, nets, pn)
             = Inr (perm', cpl', cew', c', nets', pn')"
    and pre: "detect_pre N P cpl0" and "distinct ps" "\<forall>p\<in>set ps. p < length P"
    and "det_inv hg N P cpl0 (\<lambda>f. chi_hash (P ! f) \<in> H) perm cpl cew c"
    and "nets = card {f. f < length P \<and> first_of_net cpl0 P f \<and> chi_hash (P ! f) \<in> H}"
    and "\<forall>h\<in>H. \<exists>s<length P. s \<notin> set ps \<and> chi_hash (P ! s) = h
                    \<and> (s = 0 \<or> chi_hash (P ! s) \<noteq> chi_hash (P ! (s - 1)))"
  shows "\<exists>H'. det_inv hg N P cpl0 (\<lambda>f. chi_hash (P ! f) \<in> H') perm' cpl' cew' c'
           \<and> nets' = card {f. f < length P \<and> first_of_net cpl0 P f \<and> chi_hash (P ! f) \<in> H'}"
  using assms(1,3-)
proof (induction ps arbitrary: perm cpl cew c nets pn H)
  case Nil
  then show ?case by auto
next
  case (Cons pos ps)
  obtain perm1 cpl1 cew1 c1 nets1 pn1 where
    step: "detect_step hg pos (perm, cpl, cew, c, nets, pn)
             = Inr (perm1, cpl1, cew1, c1, nets1, pn1)"
    and rest: "detect_loop hg ps (perm1, cpl1, cew1, c1, nets1, pn1)
             = Inr (perm', cpl', cew', c', nets', pn')"
    using Cons.prems(1)
    by (cases "detect_step hg pos (perm, cpl, cew, c, nets, pn)") auto
  have pos: "pos < length P" "pos \<notin> set ps" using Cons.prems(2,3) by simp_all
  have starts: "\<forall>h\<in>H. \<exists>s<length P. s \<noteq> pos \<and> s \<notin> set ps \<and> chi_hash (P ! s) = h
                    \<and> (s = 0 \<or> chi_hash (P ! s) \<noteq> chi_hash (P ! (s - 1)))"
    using Cons.prems(6) by auto
  obtain H1 where
    H1: "det_inv hg N P cpl0 (\<lambda>f. chi_hash (P ! f) \<in> H1) perm1 cpl1 cew1 c1"
      "nets1 = card {f. f < length P \<and> first_of_net cpl0 P f \<and> chi_hash (P ! f) \<in> H1}"
      "\<forall>h\<in>H1. \<exists>s<length P. s \<notin> set ps \<and> chi_hash (P ! s) = h
                    \<and> (s = 0 \<or> chi_hash (P ! s) \<noteq> chi_hash (P ! (s - 1)))"
    using detect_step_spec [OF step pre pos Cons.prems(4,5) starts] by blast
  have d: "distinct ps" "\<forall>p\<in>set ps. p < length P" using Cons.prems(2,3) by simp_all
  show ?case by (rule Cons.IH [OF rest d H1])
qed


lemma pin_list_step_spec:
  assumes step: "pin_list_step hg cl he (c, cpl, perm) = Inr (c', cpl', perm')"
    and c: "\<forall>i<length c. \<not> c ! i" and e: "cpl ! he = []"
  shows "length c' = length c \<and> (\<forall>i<length c. \<not> c' ! i) \<and> he < length cpl \<and> he < length perm
       \<and> cpl' = cpl[he := initial_pin_list cl hg he]
       \<and> perm' = perm[he := initial_entry cl hg he]
       \<and> (\<forall>x\<in>set (coarse_pins cl hg he). x < length c)"
proof -
  have g: "he < length cpl" "he < length perm"
    using step by (auto simp: pin_list_step_def split: if_splits)
  obtain c1 pl where mp: "map_pins cl (pins hg he) (c, []) = Inr (c1, pl)"
    using step g e
    by (cases "map_pins cl (pins hg he) (c, [])") (auto simp: pin_list_step_def split: if_splits)
  have "length c1 = length c \<and> (\<forall>i<length c. c1 ! i \<longleftrightarrow> i \<in> set pl)
           \<and> pl = dedup_pins cl (pins hg he) [] \<and> (\<forall>x\<in>set pl. x < length c)"
    by (rule map_pins_spec [OF mp]) (use c in simp_all)
  then have m: "length c1 = length c" "\<forall>i<length c. c1 ! i \<longleftrightarrow> i \<in> set pl"
    "pl = coarse_pins cl hg he" "\<forall>x\<in>set pl. x < length c"
    by (simp_all add: coarse_pins_def)
  have r: "length (reset_bits pl c1) = length c" "\<forall>i<length c. \<not> reset_bits pl c1 ! i"
    using reset_bits_nth [of pl c1] m(1,2) by simp_all
  have res: "c' = reset_bits pl c1"
    "cpl' = cpl[he := initial_pin_list cl hg he]" "perm' = perm[he := initial_entry cl hg he]"
    using step g e mp m(3)
    by (auto simp: pin_list_step_def initial_pin_list_def initial_entry_def Let_def
          split: if_splits)
  show ?thesis using res r m(3,4) g by simp
qed

lemma pin_lists_loop_spec:
  assumes "pin_lists_loop hg cl hes (c, cpl, perm) = Inr (c', cpl', perm')"
    and "\<forall>i<length c. \<not> c ! i" and "\<forall>he\<in>set hes. cpl ! he = []" and "distinct hes"
  shows "length c' = length c \<and> (\<forall>i<length c. \<not> c' ! i)
       \<and> length cpl' = length cpl \<and> length perm' = length perm
       \<and> (\<forall>he\<in>set hes. he < length cpl \<and> he < length perm
             \<and> cpl' ! he = initial_pin_list cl hg he \<and> perm' ! he = initial_entry cl hg he
             \<and> (\<forall>x\<in>set (coarse_pins cl hg he). x < length c))
       \<and> (\<forall>he. he \<notin> set hes \<longrightarrow> cpl' ! he = cpl ! he \<and> perm' ! he = perm ! he)"
  using assms
proof (induction hes arbitrary: c cpl perm)
  case Nil
  then show ?case by simp
next
  case (Cons he hes)
  obtain c1 cpl1 perm1 where
    step: "pin_list_step hg cl he (c, cpl, perm) = Inr (c1, cpl1, perm1)"
    and rest: "pin_lists_loop hg cl hes (c1, cpl1, perm1) = Inr (c', cpl', perm')"
    using Cons.prems(1) by (cases "pin_list_step hg cl he (c, cpl, perm)") auto
  have e: "cpl ! he = []" using Cons.prems(3) by simp
  note S = pin_list_step_spec [OF step Cons.prems(2) e]
  have s: "length c1 = length c" "\<forall>i<length c. \<not> c1 ! i" "he < length cpl" "he < length perm"
    "cpl1 = cpl[he := initial_pin_list cl hg he]" "perm1 = perm[he := initial_entry cl hg he]"
    "\<forall>x\<in>set (coarse_pins cl hg he). x < length c"
    using S by blast+
  have nin: "he \<notin> set hes" and d: "distinct hes" using Cons.prems(4) by simp_all
  have c1: "\<forall>i<length c1. \<not> c1 ! i" using s(1,2) by simp
  have e1: "\<forall>h\<in>set hes. cpl1 ! h = []"
  proof
    fix h assume h: "h \<in> set hes"
    then have "h \<noteq> he" using nin by blast
    then show "cpl1 ! h = []" using s(5) Cons.prems(3) h by simp
  qed
  note IH = Cons.IH [OF rest c1 e1 d]
  have i: "length c' = length c1" "\<forall>i<length c1. \<not> c' ! i"
    "length cpl' = length cpl1" "length perm' = length perm1"
    "\<forall>h\<in>set hes. h < length cpl1 \<and> h < length perm1
             \<and> cpl' ! h = initial_pin_list cl hg h \<and> perm' ! h = initial_entry cl hg h
             \<and> (\<forall>x\<in>set (coarse_pins cl hg h). x < length c1)"
    "\<forall>h. h \<notin> set hes \<longrightarrow> cpl' ! h = cpl1 ! h \<and> perm' ! h = perm1 ! h"
    using IH by blast+
  have own: "cpl' ! he = initial_pin_list cl hg he" "perm' ! he = initial_entry cl hg he"
    using i(6) nin s(3,4,5,6) by simp_all
  show ?case
  proof (intro conjI ballI allI impI)
    fix h assume "h \<in> set (he # hes)"
    then consider "h = he" | "h \<in> set hes" by auto
    then show "h < length cpl" "h < length perm" "cpl' ! h = initial_pin_list cl hg h"
      "perm' ! h = initial_entry cl hg h"
      using own s(3,4,5,6) i(5) by (auto simp: s(1))
  next
    fix h x assume "h \<in> set (he # hes)" "x \<in> set (coarse_pins cl hg h)"
    then show "x < length c" using s(7) i(5) s(1) by auto
  next
    fix h assume "h \<notin> set (he # hes)"
    then show "cpl' ! h = cpl ! h" "perm' ! h = perm ! h" using i(6) s(5,6) by simp_all
  qed (use i s in simp_all)
qed


lemma count_positions: "count (mset xs) x = card {i. i < length xs \<and> xs ! i = x}"
proof -
  have "{i. i < length xs \<and> x = xs ! i} = {i. i < length xs \<and> xs ! i = x}" by auto
  then show ?thesis
    by (simp add: count_mset count_list_eq_length_filter length_filter_conv_card)
qed

text \<open>The sorted permutation of the entries that the second phase leaves satisfies what
  the detection relies on.\<close>

lemma sorted_entries:
  assumes len: "length perm0 = m" "length cpl0 = m"
    and en: "\<forall>he<m. edgeIsEnabled hg he \<longrightarrow>
               perm0 ! he = initial_entry cl hg he \<and> cpl0 ! he = initial_pin_list cl hg he
               \<and> (\<forall>x\<in>set (coarse_pins cl hg he). x < N)"
    and dis: "\<forall>he<m. \<not> edgeIsEnabled hg he \<longrightarrow> \<not> chi_valid (perm0 ! he) \<and> cpl0 ! he = []"
    and P: "P = sort_key chi_key perm0"
  shows "detect_pre N P cpl0"
    and "\<forall>p<length P. chi_valid (P ! p) \<longrightarrow>
           chi_he (P ! p) < m \<and> edgeIsEnabled hg (chi_he (P ! p))
           \<and> 1 < length (coarse_pins cl hg (chi_he (P ! p)))
           \<and> cpl0 ! chi_he (P ! p) = coarse_pins cl hg (chi_he (P ! p))"
    and "\<forall>he<m. edgeIsEnabled hg he \<and> 1 < length (coarse_pins cl hg he)
           \<longrightarrow> (\<exists>p<length P. chi_valid (P ! p) \<and> chi_he (P ! p) = he)"
    and "\<forall>he<m. \<not> (edgeIsEnabled hg he \<and> 1 < length (coarse_pins cl hg he))
           \<longrightarrow> cpl0 ! he = []"
proof -
  have lP: "length P = m" using P len by simp
  have setP: "set P = set perm0" using P by simp
  have msetP: "mset P = mset perm0" using P by simp
  have vc: "chi_valid (perm0 ! he) \<Longrightarrow> edgeIsEnabled hg he \<and> 1 < length (coarse_pins cl hg he)
        \<and> perm0 ! he = \<lparr>chi_he = he, chi_hash = edge_hash (coarse_pins cl hg he),
            chi_size = length (coarse_pins cl hg he), chi_valid = True\<rparr>
        \<and> cpl0 ! he = coarse_pins cl hg he \<and> (\<forall>x\<in>set (coarse_pins cl hg he). x < N)"
    if "he < m" for he
  proof (cases "edgeIsEnabled hg he")
    case True
    assume v: "chi_valid (perm0 ! he)"
    have e: "perm0 ! he = initial_entry cl hg he" "cpl0 ! he = initial_pin_list cl hg he"
      "\<forall>x\<in>set (coarse_pins cl hg he). x < N"
      using en that True by blast+
    have "1 < length (coarse_pins cl hg he)"
      using v e(1) by (simp add: initial_entry_def split: if_splits)
    then show ?thesis using e True by (simp add: initial_entry_def initial_pin_list_def)
  next
    case False
    assume "chi_valid (perm0 ! he)"
    then show ?thesis using dis that False by blast
  qed
  have E: "chi_he (P ! p) < m \<and> P ! p = perm0 ! chi_he (P ! p)
        \<and> edgeIsEnabled hg (chi_he (P ! p))
        \<and> 1 < length (coarse_pins cl hg (chi_he (P ! p)))
        \<and> cpl0 ! chi_he (P ! p) = coarse_pins cl hg (chi_he (P ! p))
        \<and> chi_hash (P ! p) = edge_hash (coarse_pins cl hg (chi_he (P ! p)))
        \<and> chi_size (P ! p) = length (coarse_pins cl hg (chi_he (P ! p)))
        \<and> (\<forall>x\<in>set (coarse_pins cl hg (chi_he (P ! p))). x < N)"
    if p: "p < length P" "chi_valid (P ! p)" for p
  proof -
    have "P ! p \<in> set perm0" using p(1) setP nth_mem by blast
    then obtain he where he: "he < m" "perm0 ! he = P ! p"
      using len(1) by (auto simp: in_set_conv_nth)
    have v: "chi_valid (perm0 ! he)" using he(2) p(2) by simp
    note V = vc [OF he(1) v]
    have "chi_he (P ! p) = he" using V he(2) by (metis ContractedHyperedgeInformation.select_convs(1))
    then show ?thesis using V he by simp
  qed
  show s2: "\<forall>p<length P. chi_valid (P ! p) \<longrightarrow>
           chi_he (P ! p) < m \<and> edgeIsEnabled hg (chi_he (P ! p))
           \<and> 1 < length (coarse_pins cl hg (chi_he (P ! p)))
           \<and> cpl0 ! chi_he (P ! p) = coarse_pins cl hg (chi_he (P ! p))"
    using E by blast
  show "\<forall>he<m. edgeIsEnabled hg he \<and> 1 < length (coarse_pins cl hg he)
           \<longrightarrow> (\<exists>p<length P. chi_valid (P ! p) \<and> chi_he (P ! p) = he)"
  proof (intro allI impI)
    fix he assume he: "he < m" "edgeIsEnabled hg he \<and> 1 < length (coarse_pins cl hg he)"
    have e: "perm0 ! he = initial_entry cl hg he" using en he by blast
    have "perm0 ! he \<in> set P" using setP he(1) len(1) by simp
    then obtain p where p: "p < length P" "P ! p = perm0 ! he"
      by (auto simp: in_set_conv_nth)
    have "chi_valid (P ! p) \<and> chi_he (P ! p) = he"
      using p(2) e he(2) by (simp add: initial_entry_def)
    then show "\<exists>p<length P. chi_valid (P ! p) \<and> chi_he (P ! p) = he" using p(1) by blast
  qed
  show "\<forall>he<m. \<not> (edgeIsEnabled hg he \<and> 1 < length (coarse_pins cl hg he))
           \<longrightarrow> cpl0 ! he = []"
  proof (intro allI impI)
    fix he assume he: "he < m" "\<not> (edgeIsEnabled hg he \<and> 1 < length (coarse_pins cl hg he))"
    show "cpl0 ! he = []"
    proof (cases "edgeIsEnabled hg he")
      case True
      then show ?thesis using en he by (simp add: initial_pin_list_def)
    next
      case False
      then show ?thesis using dis he(1) by blast
    qed
  qed
  have inj: "p = q"
    if a: "p < length P" "q < length P" "chi_valid (P ! p)" "chi_valid (P ! q)"
      "chi_he (P ! p) = chi_he (P ! q)" for p q
  proof (rule ccontr)
    assume ne: "p \<noteq> q"
    let ?x = "P ! p"
    have eq: "P ! q = ?x" using E [OF a(1,3)] E [OF a(2,4)] a(5) by simp
    have c: "card {i. i < length P \<and> P ! i = ?x} = card {i. i < length perm0 \<and> perm0 ! i = ?x}"
      using msetP count_positions [of P ?x] count_positions [of perm0 ?x] by simp
    have "{i. i < length perm0 \<and> perm0 ! i = ?x} \<subseteq> {chi_he ?x}"
    proof
      fix i assume "i \<in> {i. i < length perm0 \<and> perm0 ! i = ?x}"
      then have i: "i < m" "perm0 ! i = ?x" using len(1) by simp_all
      then have "chi_valid (perm0 ! i)" using a(3) by simp
      from vc [OF i(1) this] i(2) have "chi_he ?x = i"
        by (metis ContractedHyperedgeInformation.select_convs(1))
      then show "i \<in> {chi_he ?x}" by simp
    qed
    then have "card {i. i < length perm0 \<and> perm0 ! i = ?x} \<le> card {chi_he ?x}"
      by (intro card_mono) simp_all
    then have le1: "card {i. i < length P \<and> P ! i = ?x} \<le> 1" using c by simp
    have "{p, q} \<subseteq> {i. i < length P \<and> P ! i = ?x}" using a(1,2) eq by simp
    then have "card {p, q} \<le> card {i. i < length P \<and> P ! i = ?x}"
      by (intro card_mono) simp_all
    then show False using le1 ne by simp
  qed
  show "detect_pre N P cpl0"
    unfolding detect_pre_def
  proof (intro conjI allI impI)
    show "length cpl0 = length P" using lP len by simp
    show "sorted (map chi_key P)" unfolding P by (rule sorted_sort_key)
  next
    fix p assume p: "p < length P" "chi_valid (P ! p)"
    note e = E [OF p]
    show "chi_he (P ! p) < length P" using e lP by simp
    show "2 \<le> length (cpl0 ! chi_he (P ! p))" using e by simp
    show "distinct (cpl0 ! chi_he (P ! p))" using e coarse_pins_distinct by simp
    show "chi_size (P ! p) = length (cpl0 ! chi_he (P ! p))" using e by simp
    show "\<forall>x\<in>set (cpl0 ! chi_he (P ! p)). x < N" using e by simp
  next
    fix p q assume "p < length P" "q < length P"
      "chi_valid (P ! p) \<and> chi_valid (P ! q) \<and> chi_he (P ! p) = chi_he (P ! q)"
    then show "p = q" using inj by blast
  next
    fix p q assume a: "p < length P" "q < length P"
      "chi_valid (P ! p) \<and> chi_valid (P ! q) \<and> same_net cpl0 P p q"
    note ep = E [OF a(1)] and eq = E [OF a(2)]
    have s: "set (coarse_pins cl hg (chi_he (P ! p))) = set (coarse_pins cl hg (chi_he (P ! q)))"
      using a(3) ep eq by (simp add: same_net_def)
    have ne: "coarse_pins cl hg (chi_he (P ! p)) \<noteq> []" using ep a(3) by auto
    have "edge_hash (coarse_pins cl hg (chi_he (P ! p)))
        = edge_hash (coarse_pins cl hg (chi_he (P ! q)))"
      by (rule edge_hash_set [OF coarse_pins_distinct coarse_pins_distinct s ne])
    then show "chi_hash (P ! p) = chi_hash (P ! q)" using ep eq a(3) by simp
  qed
qed


lemma write_headers_offs:
  assumes "write_headers cpl cew hes (s, k, chg, offs) = Inr (s', k', chg', offs')"
    and "h \<notin> set hes"
  shows "offs' ! h = offs ! h"
  using assms
proof (induction hes arbitrary: s k chg offs)
  case Nil
  then show ?case by simp
next
  case (Cons a as)
  show ?case
  proof (cases "cpl ! a = []")
    case True
    then have "write_headers cpl cew as (s, k, chg, offs) = Inr (s', k', chg', offs')"
      using Cons.prems(1) by (simp split: if_splits)
    then show ?thesis using Cons.IH Cons.prems(2) by simp
  next
    case False
    then have "write_headers cpl cew as
                  (s + length (cpl ! a), k + 1,
                   chg[k := \<lparr>he_begin = s, he_size = length (cpl ! a), he_weight = cew ! a,
                                he_valid = True\<rparr>], offs[a := s])
                = Inr (s', k', chg', offs')"
      using Cons.prems(1) by (auto split: if_splits)
    from Cons.IH [OF this] Cons.prems(2) show ?thesis by simp
  qed
qed

text \<open>The headers of the hyperedges with a pin list, in their order, with the running sum
  of the sizes as first entry.\<close>

lemma write_headers_spec:
  assumes "write_headers cpl cew hes (s, k, chg, offs) = Inr (s', k', chg', offs')"
    and "distinct hes"
  shows "k' = k + length (filter (\<lambda>h. cpl ! h \<noteq> []) hes)
       \<and> (filter (\<lambda>h. cpl ! h \<noteq> []) hes \<noteq> [] \<longrightarrow> k' \<le> length chg)
       \<and> length chg' = length chg
       \<and> (\<forall>i<k. chg' ! i = chg ! i)
       \<and> (\<forall>j<length (filter (\<lambda>h. cpl ! h \<noteq> []) hes).
            chg' ! (k + j) =
              \<lparr>he_begin = s + sum_list (map (\<lambda>h. length (cpl ! h))
                                     (take j (filter (\<lambda>h. cpl ! h \<noteq> []) hes))),
               he_size = length (cpl ! (filter (\<lambda>h. cpl ! h \<noteq> []) hes ! j)),
               he_weight = cew ! (filter (\<lambda>h. cpl ! h \<noteq> []) hes ! j),
               he_valid = True\<rparr>
            \<and> offs' ! (filter (\<lambda>h. cpl ! h \<noteq> []) hes ! j) =
                s + sum_list (map (\<lambda>h. length (cpl ! h))
                                     (take j (filter (\<lambda>h. cpl ! h \<noteq> []) hes))))"
  using assms
proof (induction hes arbitrary: s k chg offs)
  case Nil
  then show ?case by simp
next
  case (Cons he hes)
  let ?ne = "\<lambda>h. cpl ! h \<noteq> []"
  let ?len = "\<lambda>h. length (cpl ! h)"
  have d: "distinct hes" and nin: "he \<notin> set hes" using Cons.prems(2) by simp_all
  show ?case
  proof (cases "cpl ! he = []")
    case True
    have rest: "write_headers cpl cew hes (s, k, chg, offs) = Inr (s', k', chg', offs')"
      using Cons.prems(1) True by (simp split: if_splits)
    have f: "filter ?ne (he # hes) = filter ?ne hes" using True by simp
    show ?thesis unfolding f by (rule Cons.IH [OF rest d])
  next
    case False
    let ?hdr = "\<lparr>he_begin = s, he_size = length (cpl ! he), he_weight = cew ! he,
                 he_valid = True\<rparr>"
    have g: "k < length chg" "he < length offs"
      using Cons.prems(1) False by (auto split: if_splits)
    have rest: "write_headers cpl cew hes
                  (s + length (cpl ! he), k + 1, chg[k := ?hdr], offs[he := s])
                = Inr (s', k', chg', offs')"
      using Cons.prems(1) False by (auto split: if_splits)
    note IH = Cons.IH [OF rest d]
    let ?NE = "filter ?ne hes"
    have f: "filter ?ne (he # hes) = he # ?NE" using False by simp
    have i1: "k' = k + 1 + length ?NE" using IH [THEN conjunct1] .
    have i2: "?NE \<noteq> [] \<longrightarrow> k' \<le> length chg"
      using IH [THEN conjunct2, THEN conjunct1] by simp
    have i3: "length chg' = length chg"
      using IH [THEN conjunct2, THEN conjunct2, THEN conjunct1] by simp
    have i4: "\<forall>i<k + 1. chg' ! i = chg[k := ?hdr] ! i"
      using IH [THEN conjunct2, THEN conjunct2, THEN conjunct2, THEN conjunct1] .
    have i5: "\<forall>j<length ?NE.
            chg' ! (k + 1 + j) =
              \<lparr>he_begin = s + length (cpl ! he) + sum_list (map ?len (take j ?NE)),
               he_size = length (cpl ! (?NE ! j)),
               he_weight = cew ! (?NE ! j),
               he_valid = True\<rparr>
            \<and> offs' ! (?NE ! j) = s + length (cpl ! he) + sum_list (map ?len (take j ?NE))"
      using IH [THEN conjunct2, THEN conjunct2, THEN conjunct2, THEN conjunct2] .
    have k'le: "k' \<le> length chg"
    proof (cases "?NE = []")
      case True
      then show ?thesis using i1 g(1) by simp
    next
      case False
      then show ?thesis using i2 by simp
    qed
    have own: "chg' ! k = ?hdr" using i4 g(1) by simp
    have offs_keep: "offs' ! he = s"
      using write_headers_offs [OF rest nin] g(2) by simp
    show ?thesis
      unfolding f
    proof (intro conjI allI impI)
      show "k' = k + length (he # ?NE)" using i1 by simp
      show "k' \<le> length chg" by (rule k'le)
      show "length chg' = length chg" by (rule i3)
    next
      fix i assume "i < k"
      then show "chg' ! i = chg ! i" using i4 by simp
    next
      fix j assume j: "j < length (he # ?NE)"
      show "chg' ! (k + j) =
              \<lparr>he_begin = s + sum_list (map ?len (take j (he # ?NE))),
               he_size = length (cpl ! ((he # ?NE) ! j)),
               he_weight = cew ! ((he # ?NE) ! j),
               he_valid = True\<rparr>"
      proof (cases j)
        case 0
        then show ?thesis using own by simp
      next
        case (Suc j')
        then have "j' < length ?NE" using j by simp
        then show ?thesis using i5 Suc by simp
      qed
      show "offs' ! ((he # ?NE) ! j) = s + sum_list (map ?len (take j (he # ?NE)))"
      proof (cases j)
        case 0
        then show ?thesis using offs_keep by simp
      next
        case (Suc j')
        then have "j' < length ?NE" using j by simp
        then show ?thesis using i5 Suc by simp
      qed
    qed
  qed
qed


lemma write_pins_spec:
  assumes "write_pins vs pos (inc, deg) = Inr (inc', deg')"
  shows "length inc' = length inc \<and> (vs \<noteq> [] \<longrightarrow> pos + length vs \<le> length inc)
       \<and> (\<forall>i<length vs. inc' ! (pos + i) = vs ! i)
       \<and> (\<forall>j. j < pos \<or> pos + length vs \<le> j \<longrightarrow> inc' ! j = inc ! j)"
  using assms
proof (induction vs arbitrary: pos inc deg)
  case Nil
  then show ?case by simp
next
  case (Cons v vs)
  have g: "pos < length inc" using Cons.prems by (simp split: if_splits)
  have rest: "write_pins vs (pos + 1) (inc[pos := v], deg[v := deg ! v + 1]) = Inr (inc', deg')"
    using Cons.prems by (simp split: if_splits)
  note IH = Cons.IH [OF rest]
  have i1: "length inc' = length inc" using IH [THEN conjunct1] by simp
  have i2: "vs \<noteq> [] \<longrightarrow> pos + 1 + length vs \<le> length inc"
    using IH [THEN conjunct2, THEN conjunct1] by simp
  have i3: "\<forall>i<length vs. inc' ! (pos + 1 + i) = vs ! i"
    using IH [THEN conjunct2, THEN conjunct2, THEN conjunct1] .
  have i4: "\<forall>j. j < pos + 1 \<or> pos + 1 + length vs \<le> j \<longrightarrow> inc' ! j = inc[pos := v] ! j"
    using IH [THEN conjunct2, THEN conjunct2, THEN conjunct2] .
  show ?case
  proof (intro conjI allI impI)
    show "length inc' = length inc" by (rule i1)
    show "pos + length (v # vs) \<le> length inc" using i2 g by (cases "vs = []") simp_all
  next
    fix i assume i: "i < length (v # vs)"
    show "inc' ! (pos + i) = (v # vs) ! i"
    proof (cases i)
      case 0
      then show ?thesis using i4 g by simp
    next
      case (Suc i')
      then show ?thesis using i3 i by simp
    qed
  next
    fix j assume j: "j < pos \<or> pos + length (v # vs) \<le> j"
    then have "j \<noteq> pos" by auto
    then show "inc' ! j = inc ! j" using i4 j by auto
  qed
qed

text \<open>Pin lists that are copied to disjoint windows of the incidence array are found
  there afterwards.\<close>

lemma copy_pin_lists_spec:
  assumes "copy_pin_lists cpl offs hes (inc, deg) = Inr (inc', deg')"
    and "distinct hes"
    and "\<forall>h1\<in>set hes. \<forall>h2\<in>set hes. h1 \<noteq> h2 \<and> cpl ! h1 \<noteq> [] \<and> cpl ! h2 \<noteq> [] \<longrightarrow>
           offs ! h1 + length (cpl ! h1) \<le> offs ! h2 \<or> offs ! h2 + length (cpl ! h2) \<le> offs ! h1"
  shows "length inc' = length inc
       \<and> (\<forall>he\<in>set hes. cpl ! he \<noteq> [] \<longrightarrow>
             offs ! he + length (cpl ! he) \<le> length inc
             \<and> (\<forall>i<length (cpl ! he). inc' ! (offs ! he + i) = cpl ! he ! i))
       \<and> (\<forall>j. (\<forall>he\<in>set hes. cpl ! he \<noteq> [] \<longrightarrow>
                   j < offs ! he \<or> offs ! he + length (cpl ! he) \<le> j) \<longrightarrow> inc' ! j = inc ! j)"
  using assms
proof (induction hes arbitrary: inc deg)
  case Nil
  then show ?case by simp
next
  case (Cons he hes)
  have d: "distinct hes" and nin: "he \<notin> set hes" using Cons.prems(2) by simp_all
  have dj: "\<forall>h1\<in>set hes. \<forall>h2\<in>set hes. h1 \<noteq> h2 \<and> cpl ! h1 \<noteq> [] \<and> cpl ! h2 \<noteq> [] \<longrightarrow>
           offs ! h1 + length (cpl ! h1) \<le> offs ! h2 \<or> offs ! h2 + length (cpl ! h2) \<le> offs ! h1"
    using Cons.prems(3) by simp
  show ?case
  proof (cases "cpl ! he = []")
    case True
    have rest: "copy_pin_lists cpl offs hes (inc, deg) = Inr (inc', deg')"
      using Cons.prems(1) True by (simp split: if_splits)
    note IH = Cons.IH [OF rest d dj]
    show ?thesis using IH True by simp
  next
    case False
    obtain inc1 deg1 where
      wp: "write_pins (cpl ! he) (offs ! he) (inc, deg) = Inr (inc1, deg1)"
      and rest: "copy_pin_lists cpl offs hes (inc1, deg1) = Inr (inc', deg')"
      using Cons.prems(1) False
      by (cases "write_pins (cpl ! he) (offs ! he) (inc, deg)") (auto split: if_splits)
    note W = write_pins_spec [OF wp]
    have w1: "length inc1 = length inc" using W [THEN conjunct1] .
    have w2: "offs ! he + length (cpl ! he) \<le> length inc"
      using W [THEN conjunct2, THEN conjunct1] False by simp
    have w3: "\<forall>i<length (cpl ! he). inc1 ! (offs ! he + i) = cpl ! he ! i"
      using W [THEN conjunct2, THEN conjunct2, THEN conjunct1] .
    have w4: "\<forall>j. j < offs ! he \<or> offs ! he + length (cpl ! he) \<le> j \<longrightarrow> inc1 ! j = inc ! j"
      using W [THEN conjunct2, THEN conjunct2, THEN conjunct2] .
    note IH = Cons.IH [OF rest d dj]
    have i1: "length inc' = length inc1" using IH [THEN conjunct1] .
    have i2: "\<forall>h\<in>set hes. cpl ! h \<noteq> [] \<longrightarrow>
             offs ! h + length (cpl ! h) \<le> length inc1
             \<and> (\<forall>i<length (cpl ! h). inc' ! (offs ! h + i) = cpl ! h ! i)"
      using IH [THEN conjunct2, THEN conjunct1] .
    have i3: "\<forall>j. (\<forall>h\<in>set hes. cpl ! h \<noteq> [] \<longrightarrow>
                   j < offs ! h \<or> offs ! h + length (cpl ! h) \<le> j) \<longrightarrow> inc' ! j = inc1 ! j"
      using IH [THEN conjunct2, THEN conjunct2] .
    have own: "inc' ! (offs ! he + i) = cpl ! he ! i" if i: "i < length (cpl ! he)" for i
    proof -
      have "\<forall>h\<in>set hes. cpl ! h \<noteq> [] \<longrightarrow>
              offs ! he + i < offs ! h \<or> offs ! h + length (cpl ! h) \<le> offs ! he + i"
      proof (intro ballI impI)
        fix h assume h: "h \<in> set hes" "cpl ! h \<noteq> []"
        then have "h \<noteq> he" using nin by blast
        then have "offs ! he + length (cpl ! he) \<le> offs ! h
                 \<or> offs ! h + length (cpl ! h) \<le> offs ! he"
          using Cons.prems(3) h False by simp
        then show "offs ! he + i < offs ! h \<or> offs ! h + length (cpl ! h) \<le> offs ! he + i"
          using i by auto
      qed
      then have "inc' ! (offs ! he + i) = inc1 ! (offs ! he + i)" using i3 by blast
      then show ?thesis using w3 i by simp
    qed
    show ?thesis
    proof (intro conjI ballI allI impI)
      show "length inc' = length inc" using i1 w1 by simp
    next
      fix h assume h: "h \<in> set (he # hes)" "cpl ! h \<noteq> []"
      then consider "h = he" | "h \<in> set hes" by auto
      then show "offs ! h + length (cpl ! h) \<le> length inc"
        using w2 i2 h(2) w1 by cases simp_all
    next
      fix h i assume h: "h \<in> set (he # hes)" "cpl ! h \<noteq> []" "i < length (cpl ! h)"
      then consider "h = he" | "h \<in> set hes" by auto
      then show "inc' ! (offs ! h + i) = cpl ! h ! i"
        using own i2 h(2,3) by cases simp_all
    next
      fix j assume j: "\<forall>h\<in>set (he # hes). cpl ! h \<noteq> [] \<longrightarrow>
                   j < offs ! h \<or> offs ! h + length (cpl ! h) \<le> j"
      then have "inc' ! j = inc1 ! j" using i3 by simp
      moreover have "inc1 ! j = inc ! j" using w4 j False by auto
      ultimately show "inc' ! j = inc ! j" by simp
    qed
  qed
qed

lemma window_eq:
  assumes "b + length ys \<le> length xs" "\<forall>i<length ys. xs ! (b + i) = ys ! i"
  shows "take (length ys) (drop b xs) = ys"
  using assms by (intro nth_equalityI) simp_all

lemma prefix_sum_mono:
  fixes f :: "'a \<Rightarrow> nat"
  assumes "i \<le> j"
  shows "sum_list (map f (take i xs)) \<le> sum_list (map f (take j xs))"
proof -
  from assms obtain d where "j = i + d" using le_Suc_ex by blast
  then show ?thesis by (simp add: take_add)
qed

lemma prefix_sum_Suc:
  fixes f :: "'a \<Rightarrow> nat"
  assumes "i < length xs"
  shows "sum_list (map f (take (Suc i) xs)) = sum_list (map f (take i xs)) + f (xs ! i)"
  using assms by (simp add: take_Suc_conv_app_nth)


text \<open>
  When there are no more pin lists left than nets were counted, every net has been handled:
  the hyperedges that still have a pin list are the first hyperedges of the nets.
\<close>

lemma detect_final:
  assumes pre: "detect_pre N P cpl0"
    and inv: "det_inv hg N P cpl0 (\<lambda>f. chi_hash (P ! f) \<in> H) perm cpl cew c"
    and nets: "nets = card {f. f < length P \<and> first_of_net cpl0 P f \<and> chi_hash (P ! f) \<in> H}"
    and bound: "length (filter (\<lambda>h. cpl ! h \<noteq> []) [0..<length P]) \<le> nets"
  shows "det_inv hg N P cpl0 (\<lambda>f. True) perm cpl cew c"
    and "length (filter (\<lambda>h. cpl ! h \<noteq> []) [0..<length P]) = nets"
    and "set (filter (\<lambda>h. cpl ! h \<noteq> []) [0..<length P])
           = (\<lambda>f. chi_he (P ! f)) ` {f. f < length P \<and> first_of_net cpl0 P f}"
proof -
  let ?NE = "filter (\<lambda>h. cpl ! h \<noteq> []) [0..<length P]"
  let ?F = "{f. f < length P \<and> first_of_net cpl0 P f}"
  let ?FH = "{f. f < length P \<and> first_of_net cpl0 P f \<and> chi_hash (P ! f) \<in> H}"
  let ?g = "\<lambda>f. chi_he (P ! f)"
  have finF: "finite ?F" by simp
  have inj: "inj_on ?g ?F"
  proof (rule inj_onI)
    fix x y assume "x \<in> ?F" "y \<in> ?F" "?g x = ?g y"
    then show "x = y"
      using detect_pre_inj [OF pre, of x y] first_of_net_valid by auto
  qed
  have sub: "?g ` ?F \<subseteq> set ?NE"
  proof
    fix he assume "he \<in> ?g ` ?F"
    then obtain f where f: "f < length P" "first_of_net cpl0 P f" "he = ?g f" by auto
    have v: "chi_valid (P ! f)" using f(2) by (rule first_of_net_valid)
    have "cpl ! ?g f = cpl0 ! ?g f"
      using det_inv_net [OF inv f(1) v f(1,2) same_net_refl] by (simp split: if_splits)
    then have "cpl ! he \<noteq> []" using detect_pre_valid(2) [OF pre f(1) v] f(3) by auto
    moreover have "he < length P" using detect_pre_valid(1) [OF pre f(1) v] f(3) by simp
    ultimately show "he \<in> set ?NE" by simp
  qed
  have dNE: "distinct ?NE" by simp
  have c1: "card ?F = card (?g ` ?F)" using inj by (simp add: card_image)
  have c2: "card (?g ` ?F) \<le> card (set ?NE)" by (rule card_mono [OF _ sub]) simp
  have c3: "card (set ?NE) = length ?NE" using dNE by (rule distinct_card)
  have c4: "card ?FH \<le> card ?F" by (rule card_mono [OF finF]) auto
  have eqF: "card ?FH = card ?F" using c1 c2 c3 c4 bound nets by simp
  have FH: "?FH = ?F" by (rule card_subset_eq [OF finF _ eqF]) auto
  show "det_inv hg N P cpl0 (\<lambda>f. True) perm cpl cew c"
    by (rule det_inv_cong [OF inv]) (use FH in blast)
  show len: "length ?NE = nets" using c1 c2 c3 c4 bound nets by simp
  have "card (?g ` ?F) = card (set ?NE)" using c1 c3 len nets eqF by simp
  then show "set ?NE = ?g ` ?F"
    using card_subset_eq [OF _ sub] by simp
qed


lemma contract_v2_phases:
  assumes "contract_v2 seed hg clusters0 = Inr (chg, cl)"
  obtains N c1 cpl0 perm0 perm cpl cew c2 nets pinsn s k chgE offs inc degs cursors scattered
    weights comms
  where "compactify hg clusters0 = Inr (N, cl)"
    and "pin_lists_loop hg cl (enabledEdges hg)
           (replicate N False, replicate (numHyperedges hg) [],
            replicate (numHyperedges hg) (default_chi seed)) = Inr (c1, cpl0, perm0)"
    and "detect_loop hg (enabledEdges hg)
           (sort_key chi_key perm0, cpl0, replicate (numHyperedges hg) 0, c1, 0, 0)
         = Inr (perm, cpl, cew, c2, nets, pinsn)"
    and "write_headers cpl cew [0..<numHyperedges hg]
           (0, 0, replicate nets \<lparr>he_begin = 0, he_size = 0, he_weight = 1, he_valid = False\<rparr>,
            replicate (numHyperedges hg) 0) = Inr (s, k, chgE, offs)"
    and "copy_pin_lists cpl offs (enabledEdges hg) (replicate pinsn 0, replicate N 0)
         = Inr (inc, degs)"
    and "aggregate_nodes hg cl (enabledNodes hg) (replicate N 0, replicate N 0)
         = Inr (weights, comms)"
    and "num_hypernodes chg = N" and "num_hyperedges chg = nets"
    and "hyperedges chg = chgE" and "incidence_array chg = inc"
    and "\<forall>u<N. hn_weight (hypernodes chg ! u) = weights ! u"
proof -
  obtain N where 1: "compactify hg clusters0 = Inr (N, cl)"
    using assms unfolding contract_v2_def
    by (auto split: sum.splits prod.splits)
  note a1 = assms [unfolded contract_v2_def 1, simplified]
  obtain c1 cpl0 perm0 where 2: "pin_lists_loop hg cl (enabledEdges hg)
           (replicate N False, replicate (numHyperedges hg) [],
            replicate (numHyperedges hg) (default_chi seed)) = Inr (c1, cpl0, perm0)"
    using a1 by (auto split: sum.splits prod.splits)
  note a2 = a1 [unfolded 2, simplified]
  obtain perm cpl cew c2 nets pinsn where 3: "detect_loop hg (enabledEdges hg)
           (sort_key chi_key perm0, cpl0, replicate (numHyperedges hg) 0, c1, 0, 0)
         = Inr (perm, cpl, cew, c2, nets, pinsn)"
    using a2 by (auto split: sum.splits prod.splits)
  note a3 = a2 [unfolded 3, simplified]
  obtain s k chgE offs where 4: "write_headers cpl cew [0..<numHyperedges hg]
           (0, 0, replicate nets \<lparr>he_begin = 0, he_size = 0, he_weight = 1, he_valid = False\<rparr>,
            replicate (numHyperedges hg) 0) = Inr (s, k, chgE, offs)"
    using a3 by (auto split: sum.splits prod.splits)
  note a4 = a3 [unfolded 4, simplified]
  obtain inc degs where 5: "copy_pin_lists cpl offs (enabledEdges hg)
           (replicate pinsn 0, replicate N 0) = Inr (inc, degs)"
    using a4 by (auto split: sum.splits prod.splits)
  note a5 = a4 [unfolded 5, simplified]
  obtain cursors scattered where 6: "scatter_nets
             (\<lambda>he. take (he_size (chgE ! he)) (drop (he_begin (chgE ! he)) inc))
             [0..<nets] (exclusive_prefix_sum degs, replicate pinsn 0)
           = Inr (cursors, scattered)"
    using a5 by (auto split: sum.splits prod.splits)
  note a6 = a5 [unfolded 6, simplified]
  obtain weights comms where 7: "aggregate_nodes hg cl (enabledNodes hg)
           (replicate N 0, replicate N 0) = Inr (weights, comms)"
    using a6 by (auto split: sum.splits prod.splits)
  note a7 = a6 [unfolded 7, simplified]
  have 8: "num_hypernodes chg = N" "num_hyperedges chg = nets"
    "hyperedges chg = chgE" "incidence_array chg = inc"
    "\<forall>u<N. hn_weight (hypernodes chg ! u) = weights ! u"
    using a7 by auto
  show ?thesis using that [OF 1 2 3 4 5 7 8] .
qed


lemma entries_okD:
  assumes "entries_ok cl hg N P cpl0"
  shows "length P = numHyperedges hg" "detect_pre N P cpl0"
    "\<And>p. p < length P \<Longrightarrow> chi_valid (P ! p) \<Longrightarrow> kept cl hg (chi_he (P ! p))"
    "\<And>p. p < length P \<Longrightarrow> chi_valid (P ! p)
        \<Longrightarrow> cpl0 ! chi_he (P ! p) = coarse_pins cl hg (chi_he (P ! p))"
    "\<And>he. kept cl hg he \<Longrightarrow> \<exists>p<length P. chi_valid (P ! p) \<and> chi_he (P ! p) = he"
    "\<And>he. he < numHyperedges hg \<Longrightarrow> \<not> kept cl hg he \<Longrightarrow> cpl0 ! he = []"
  using assms unfolding entries_ok_def by blast+

lemma entries_image:
  assumes "entries_ok cl hg N P cpl0" "p < length P" "chi_valid (P ! p)"
  shows "set (cpl0 ! chi_he (P ! p)) = coarse_image cl hg (chi_he (P ! p))"
  using entries_okD(4) [OF assms] coarse_pins_set by simp

text \<open>The state after the second phase and the sort.\<close>

lemma phase2_state:
  assumes loop: "pin_lists_loop hg cl (enabledEdges hg)
           (replicate N False, replicate (numHyperedges hg) [],
            replicate (numHyperedges hg) (default_chi seed)) = Inr (c1, cpl0, perm0)"
  shows "entries_ok cl hg N (sort_key chi_key perm0) cpl0"
    and "length c1 = N" and "\<forall>i<N. \<not> c1 ! i"
proof -
  let ?m = "numHyperedges hg"
  have en: "set (enabledEdges hg) = {he. he < ?m \<and> edgeIsEnabled hg he}"
    by (auto simp: enabledEdges_def numHyperedges_def)
  have d: "distinct (enabledEdges hg)" by (simp add: enabledEdges_def)
  have a1: "\<forall>i<length (replicate N False). \<not> replicate N False ! i" by simp
  have a2: "\<forall>he\<in>set (enabledEdges hg). replicate ?m [] ! he = []" using en by simp
  note S = pin_lists_loop_spec [OF loop a1 a2 d]
  have s1: "length c1 = N" using S [THEN conjunct1] by simp
  have s2: "\<forall>i<N. \<not> c1 ! i" using S [THEN conjunct2, THEN conjunct1] by simp
  have s3: "length cpl0 = ?m" using S [THEN conjunct2, THEN conjunct2, THEN conjunct1] by simp
  have s4: "length perm0 = ?m"
    using S [THEN conjunct2, THEN conjunct2, THEN conjunct2, THEN conjunct1] by simp
  have s5: "\<forall>he\<in>set (enabledEdges hg).
             cpl0 ! he = initial_pin_list cl hg he \<and> perm0 ! he = initial_entry cl hg he
             \<and> (\<forall>x\<in>set (coarse_pins cl hg he). x < N)"
    using S [THEN conjunct2, THEN conjunct2, THEN conjunct2, THEN conjunct2, THEN conjunct1]
    by simp
  have s6: "\<forall>he. he \<notin> set (enabledEdges hg) \<longrightarrow>
              cpl0 ! he = replicate ?m [] ! he \<and> perm0 ! he = replicate ?m (default_chi seed) ! he"
    using S [THEN conjunct2, THEN conjunct2, THEN conjunct2, THEN conjunct2, THEN conjunct2] .
  have e1: "\<forall>he<?m. edgeIsEnabled hg he \<longrightarrow>
               perm0 ! he = initial_entry cl hg he \<and> cpl0 ! he = initial_pin_list cl hg he
               \<and> (\<forall>x\<in>set (coarse_pins cl hg he). x < N)"
    using s5 en by simp
  have e2: "\<forall>he<?m. \<not> edgeIsEnabled hg he \<longrightarrow> \<not> chi_valid (perm0 ! he) \<and> cpl0 ! he = []"
    using s6 en by (simp add: default_chi_def)
  note E = sorted_entries [OF s4 s3 e1 e2 refl]
  show "length c1 = N" by (rule s1)
  show "\<forall>i<N. \<not> c1 ! i" by (rule s2)
  show "entries_ok cl hg N (sort_key chi_key perm0) cpl0"
    unfolding entries_ok_def
  proof (intro conjI allI impI)
    show "length (sort_key chi_key perm0) = ?m" using s4 by simp
    show "detect_pre N (sort_key chi_key perm0) cpl0" by (rule E(1))
  next
    fix p assume "p < length (sort_key chi_key perm0)" "chi_valid (sort_key chi_key perm0 ! p)"
    then show "kept cl hg (chi_he (sort_key chi_key perm0 ! p))"
      "cpl0 ! chi_he (sort_key chi_key perm0 ! p)
         = coarse_pins cl hg (chi_he (sort_key chi_key perm0 ! p))"
      using E(2) by (simp_all add: kept_def)
  next
    fix he assume "kept cl hg he"
    then show "\<exists>p<length (sort_key chi_key perm0).
                 chi_valid (sort_key chi_key perm0 ! p) \<and> chi_he (sort_key chi_key perm0 ! p) = he"
      using E(3) by (simp add: kept_def)
  next
    fix he assume "he < ?m" "\<not> kept cl hg he"
    then show "cpl0 ! he = []" using E(4) by (simp add: kept_def)
  qed
qed

text \<open>The weight of a net is the sum of the weights of the fine hyperedges that are mapped
  to its pins.\<close>

lemma net_weight_sum:
  assumes ok: "entries_ok cl hg N P cpl0" and p: "p < length P" "chi_valid (P ! p)"
  shows "net_weight hg cpl0 P p
       = (\<Sum>he\<in>{he. kept cl hg he
                   \<and> coarse_image cl hg he = coarse_image cl hg (chi_he (P ! p))}.
            edgeWeight hg he)"
proof -
  let ?Q = "{q. q < length P \<and> chi_valid (P ! q) \<and> same_net cpl0 P p q}"
  let ?K = "{he. kept cl hg he \<and> coarse_image cl hg he = coarse_image cl hg (chi_he (P ! p))}"
  let ?g = "\<lambda>q. chi_he (P ! q)"
  note pre = entries_okD(2) [OF ok]
  have inj: "inj_on ?g ?Q"
  proof (rule inj_onI)
    fix x y assume "x \<in> ?Q" "y \<in> ?Q" "?g x = ?g y"
    then show "x = y" using detect_pre_inj [OF pre, of x y] by auto
  qed
  have img: "?g ` ?Q = ?K"
  proof (intro set_eqI iffI)
    fix he assume "he \<in> ?g ` ?Q"
    then obtain q where q: "q < length P" "chi_valid (P ! q)" "same_net cpl0 P p q" "he = ?g q"
      by auto
    have "coarse_image cl hg (?g q) = coarse_image cl hg (?g p)"
      using entries_image [OF ok q(1,2)] entries_image [OF ok p] q(3)
      by (simp add: same_net_def)
    then show "he \<in> ?K" using entries_okD(3) [OF ok q(1,2)] q(4) by simp
  next
    fix he assume "he \<in> ?K"
    then have he: "kept cl hg he" "coarse_image cl hg he = coarse_image cl hg (?g p)" by simp_all
    obtain q where q: "q < length P" "chi_valid (P ! q)" "?g q = he"
      using entries_okD(5) [OF ok he(1)] by blast
    have "same_net cpl0 P p q"
      using entries_image [OF ok q(1,2)] entries_image [OF ok p] he(2) q(3)
      by (simp add: same_net_def)
    then show "he \<in> ?g ` ?Q" using q by auto
  qed
  have "(\<Sum>he\<in>?g ` ?Q. edgeWeight hg he) = (\<Sum>q\<in>?Q. edgeWeight hg (?g q))"
    using sum.reindex [OF inj, of "edgeWeight hg"] by simp
  then show ?thesis unfolding net_weight_def img by simp
qed

text \<open>The stored weight of a net: the weight of its only hyperedge, or the 32-bit sum of the
  weights of its hyperedges.\<close>

lemma merged_weight_sum:
  assumes ok: "entries_ok cl hg N P cpl0" and p: "p < length P" "chi_valid (P ! p)"
  shows "merged_weight hg cpl0 P p
       = (if {he. kept cl hg he
                   \<and> coarse_image cl hg he = coarse_image cl hg (chi_he (P ! p))}
             = {chi_he (P ! p)}
          then edgeWeight hg (chi_he (P ! p))
          else wrap_weight (\<Sum>he\<in>{he. kept cl hg he
                   \<and> coarse_image cl hg he = coarse_image cl hg (chi_he (P ! p))}.
            edgeWeight hg he))"
proof -
  let ?Q = "{q. q < length P \<and> chi_valid (P ! q) \<and> same_net cpl0 P p q}"
  let ?K = "{he. kept cl hg he \<and> coarse_image cl hg he = coarse_image cl hg (chi_he (P ! p))}"
  let ?g = "\<lambda>q. chi_he (P ! q)"
  note pre = entries_okD(2) [OF ok]
  have pQ: "p \<in> ?Q" using p same_net_refl by simp
  have inj: "?g x = ?g y \<Longrightarrow> x = y" if "x \<in> ?Q" "y \<in> ?Q" for x y
    using that detect_pre_inj [OF pre, of x y] by auto
  have sub: "?g q \<in> ?K" if "q \<in> ?Q" for q
  proof -
    from that have q: "q < length P" "chi_valid (P ! q)" "same_net cpl0 P p q" by simp_all
    have "coarse_image cl hg (?g q) = coarse_image cl hg (?g p)"
      using entries_image [OF ok q(1,2)] entries_image [OF ok p] q(3)
      by (simp add: same_net_def)
    then show ?thesis using entries_okD(3) [OF ok q(1,2)] by simp
  qed
  have sup: "\<exists>q\<in>?Q. ?g q = he" if "he \<in> ?K" for he
  proof -
    from that have he: "kept cl hg he" "coarse_image cl hg he = coarse_image cl hg (?g p)"
      by simp_all
    obtain q where q: "q < length P" "chi_valid (P ! q)" "?g q = he"
      using entries_okD(5) [OF ok he(1)] by blast
    have "same_net cpl0 P p q"
      using entries_image [OF ok q(1,2)] entries_image [OF ok p] he(2) q(3)
      by (simp add: same_net_def)
    then show ?thesis using q by auto
  qed
  have single: "?Q = {p} \<longleftrightarrow> ?K = {?g p}"
  proof
    assume Q: "?Q = {p}"
    show "?K = {?g p}"
    proof (intro set_eqI iffI)
      fix he assume "he \<in> ?K"
      from sup [OF this] obtain q where "q \<in> ?Q" "?g q = he" by blast
      then show "he \<in> {?g p}" unfolding Q by simp
    next
      fix he assume "he \<in> {?g p}"
      then show "he \<in> ?K" using sub [OF pQ] by simp
    qed
  next
    assume K: "?K = {?g p}"
    show "?Q = {p}"
    proof (intro set_eqI iffI)
      fix q assume q: "q \<in> ?Q"
      from sub [OF q] have "?g q = ?g p" unfolding K by simp
      from inj [OF q pQ this] show "q \<in> {p}" by simp
    next
      fix q assume "q \<in> {p}"
      then show "q \<in> ?Q" using pQ by simp
    qed
  qed
  show ?thesis
    unfolding merged_weight_def net_weight_sum [OF ok p] using single by simp
qed


text \<open>
  The coarse hyperedges are, in ascending order, the fine hyperedges \<open>NE\<close> that keep a pin
  list: one of every net, with the pins of the net and the stored weight of the net.
\<close>

lemma contract_structure:
  assumes "contract_v2 seed hg clusters0 = Inr (chg, cl)"
  shows "\<exists>NE. distinct NE \<and> sorted NE \<and> length NE = numHyperedges chg
     \<and> (\<forall>he\<in>set NE. kept cl hg he)
     \<and> (\<forall>he. kept cl hg he \<longrightarrow> (\<exists>r\<in>set NE. coarse_image cl hg r = coarse_image cl hg he))
     \<and> (\<forall>r\<in>set NE. \<forall>r'\<in>set NE. coarse_image cl hg r = coarse_image cl hg r' \<longrightarrow> r = r')
     \<and> (\<forall>e<length NE. pins chg e = coarse_pins cl hg (NE ! e)
           \<and> edgeWeight chg e
               = (if {he. kept cl hg he
                           \<and> coarse_image cl hg he = coarse_image cl hg (NE ! e)} = {NE ! e}
                  then edgeWeight hg (NE ! e)
                  else wrap_weight (\<Sum>he\<in>{he. kept cl hg he
                           \<and> coarse_image cl hg he = coarse_image cl hg (NE ! e)}.
                    edgeWeight hg he)))"
proof -
  from assms obtain N c1 cpl0 perm0 perm cpl cew c2 nets pinsn s k chgE offs inc degs
    weights comms
    where ph: "compactify hg clusters0 = Inr (N, cl)"
      "pin_lists_loop hg cl (enabledEdges hg)
           (replicate N False, replicate (numHyperedges hg) [],
            replicate (numHyperedges hg) (default_chi seed)) = Inr (c1, cpl0, perm0)"
      "detect_loop hg (enabledEdges hg)
           (sort_key chi_key perm0, cpl0, replicate (numHyperedges hg) 0, c1, 0, 0)
         = Inr (perm, cpl, cew, c2, nets, pinsn)"
      "write_headers cpl cew [0..<numHyperedges hg]
           (0, 0, replicate nets \<lparr>he_begin = 0, he_size = 0, he_weight = 1, he_valid = False\<rparr>,
            replicate (numHyperedges hg) 0) = Inr (s, k, chgE, offs)"
      "copy_pin_lists cpl offs (enabledEdges hg) (replicate pinsn 0, replicate N 0)
         = Inr (inc, degs)"
      "aggregate_nodes hg cl (enabledNodes hg) (replicate N 0, replicate N 0)
         = Inr (weights, comms)"
      "num_hypernodes chg = N" "num_hyperedges chg = nets"
      "hyperedges chg = chgE" "incidence_array chg = inc"
      "\<forall>u<N. hn_weight (hypernodes chg ! u) = weights ! u"
    by (rule contract_v2_phases)
  let ?m = "numHyperedges hg"
  let ?P = "sort_key chi_key perm0"
  let ?g = "\<lambda>f. chi_he (?P ! f)"
  let ?len = "\<lambda>h. length (cpl ! h)"
  note ok = phase2_state(1) [OF ph(2)]
  note c1 = phase2_state(2,3) [OF ph(2)]
  note pre = entries_okD(2) [OF ok]
  have lP: "length ?P = ?m" by (rule entries_okD(1) [OF ok])
  have lc0: "length cpl0 = ?m" using detect_pre_length [OF pre] lP by simp
  have inv0: "det_inv hg N ?P cpl0 (\<lambda>f. chi_hash (?P ! f) \<in> {}) ?P cpl0 (replicate ?m 0) c1"
    by (rule det_invI) (use lP lc0 c1 in simp_all)
  have nets0: "(0::nat) = card {f. f < length ?P \<and> first_of_net cpl0 ?P f
                                 \<and> chi_hash (?P ! f) \<in> {}}"
    by simp
  have en: "set (enabledEdges hg) = {he. he < ?m \<and> edgeIsEnabled hg he}"
    by (auto simp: enabledEdges_def numHyperedges_def)
  have d: "distinct (enabledEdges hg)" by (simp add: enabledEdges_def)
  have bnd: "\<forall>p\<in>set (enabledEdges hg). p < length ?P" using en lP by simp
  have st0: "\<forall>h\<in>{}. \<exists>s<length ?P. s \<notin> set (enabledEdges hg) \<and> chi_hash (?P ! s) = h
                    \<and> (s = 0 \<or> chi_hash (?P ! s) \<noteq> chi_hash (?P ! (s - 1)))"
    by simp
  obtain H where H: "det_inv hg N ?P cpl0 (\<lambda>f. chi_hash (?P ! f) \<in> H) perm cpl cew c2"
    "nets = card {f. f < length ?P \<and> first_of_net cpl0 ?P f \<and> chi_hash (?P ! f) \<in> H}"
    using detect_loop_spec [OF ph(3) pre d bnd inv0 nets0 st0] by blast
  let ?NE = "filter (\<lambda>h. cpl ! h \<noteq> []) [0..<?m]"
  note WH = write_headers_spec [OF ph(4) distinct_upt]
  have k: "k = length ?NE" using WH [THEN conjunct1] by simp
  have le: "length ?NE \<le> nets"
    using WH [THEN conjunct2, THEN conjunct1] k by (cases "?NE = []") simp_all
  have bound: "length (filter (\<lambda>h. cpl ! h \<noteq> []) [0..<length ?P]) \<le> nets"
    using le lP by simp
  note F = detect_final [OF pre H bound, unfolded lP]
  have hdr: "\<forall>j<length ?NE.
            chgE ! j = \<lparr>he_begin = sum_list (map ?len (take j ?NE)),
                         he_size = length (cpl ! (?NE ! j)),
                         he_weight = cew ! (?NE ! j), he_valid = True\<rparr>
            \<and> offs ! (?NE ! j) = sum_list (map ?len (take j ?NE))"
    using WH [THEN conjunct2, THEN conjunct2, THEN conjunct2, THEN conjunct2] by simp
  text \<open>every hyperedge that keeps a pin list is the first of its net\<close>
  have rep: "\<exists>f<?m. first_of_net cpl0 ?P f \<and> h = ?g f \<and> chi_valid (?P ! f) \<and> kept cl hg h
                \<and> cpl ! h = coarse_pins cl hg h \<and> cew ! h = merged_weight hg cpl0 ?P f"
    if "h \<in> set ?NE" for h
  proof -
    from that F(3) obtain f where f: "f < ?m" "first_of_net cpl0 ?P f" "h = ?g f" by auto
    have fl: "f < length ?P" using f(1) lP by simp
    have v: "chi_valid (?P ! f)" using f(2) by (rule first_of_net_valid)
    have "cpl ! ?g f = cpl0 ! ?g f \<and> cew ! ?g f = merged_weight hg cpl0 ?P f"
      using det_inv_net [OF F(1) fl v fl f(2) same_net_refl] by simp
    then show ?thesis
      using f v entries_okD(3) [OF ok fl v] entries_okD(4) [OF ok fl v] by auto
  qed
  have off_mono: "offs ! (?NE ! i) + ?len (?NE ! i) \<le> offs ! (?NE ! j)"
    if "i < j" "j < length ?NE" for i j
  proof -
    have i: "i < length ?NE" using that by simp
    have "offs ! (?NE ! i) + ?len (?NE ! i) = sum_list (map ?len (take (Suc i) ?NE))"
      using hdr i prefix_sum_Suc [OF i, of ?len] by simp
    also have "\<dots> \<le> sum_list (map ?len (take j ?NE))"
      by (rule prefix_sum_mono) (use that in simp)
    also have "\<dots> = offs ! (?NE ! j)" using hdr that(2) by simp
    finally show ?thesis .
  qed
  have dj: "\<forall>h1\<in>set (enabledEdges hg). \<forall>h2\<in>set (enabledEdges hg).
           h1 \<noteq> h2 \<and> cpl ! h1 \<noteq> [] \<and> cpl ! h2 \<noteq> [] \<longrightarrow>
           offs ! h1 + length (cpl ! h1) \<le> offs ! h2 \<or> offs ! h2 + length (cpl ! h2) \<le> offs ! h1"
  proof (intro ballI impI)
    fix h1 h2 assume a: "h1 \<in> set (enabledEdges hg)" "h2 \<in> set (enabledEdges hg)"
      "h1 \<noteq> h2 \<and> cpl ! h1 \<noteq> [] \<and> cpl ! h2 \<noteq> []"
    then have "h1 \<in> set ?NE" "h2 \<in> set ?NE" using en by simp_all
    then obtain i j where ij: "i < length ?NE" "?NE ! i = h1" "j < length ?NE" "?NE ! j = h2"
      unfolding in_set_conv_nth by blast
    then have "i \<noteq> j" using a(3) by auto
    then consider "i < j" | "j < i" by linarith
    then show "offs ! h1 + length (cpl ! h1) \<le> offs ! h2
             \<or> offs ! h2 + length (cpl ! h2) \<le> offs ! h1"
    proof cases
      case 1
      from off_mono [OF 1 ij(3)] ij(2,4) show ?thesis by simp
    next
      case 2
      from off_mono [OF 2 ij(1)] ij(2,4) show ?thesis by simp
    qed
  qed
  note CP = copy_pin_lists_spec [OF ph(5) d dj]
  have linc: "length inc = pinsn" using CP [THEN conjunct1] by simp
  have edge: "pins chg e = coarse_pins cl hg (?NE ! e)
           \<and> edgeWeight chg e
               = (if {he. kept cl hg he
                           \<and> coarse_image cl hg he = coarse_image cl hg (?NE ! e)} = {?NE ! e}
                  then edgeWeight hg (?NE ! e)
                  else wrap_weight (\<Sum>he\<in>{he. kept cl hg he
                           \<and> coarse_image cl hg he = coarse_image cl hg (?NE ! e)}.
                    edgeWeight hg he))"
    if e: "e < length ?NE" for e
  proof -
    let ?h = "?NE ! e"
    have hin: "?h \<in> set ?NE" by (rule nth_mem [OF e])
    then have "?h \<in> {x \<in> set [0..<?m]. cpl ! x \<noteq> []}" by (simp only: set_filter)
    then have ne: "cpl ! ?h \<noteq> []" by blast
    obtain f where f: "f < ?m" "first_of_net cpl0 ?P f" "?h = ?g f" "chi_valid (?P ! f)"
      "kept cl hg ?h" "cpl ! ?h = coarse_pins cl hg ?h" "cew ! ?h = merged_weight hg cpl0 ?P f"
      using rep [OF hin] by blast
    have hen: "?h \<in> set (enabledEdges hg)" using f(5) en by (simp add: kept_def)
    have w: "offs ! ?h + length (cpl ! ?h) \<le> length inc"
      "\<forall>i<length (cpl ! ?h). inc ! (offs ! ?h + i) = cpl ! ?h ! i"
      using CP [THEN conjunct2, THEN conjunct1] hen ne linc by simp_all
    have win: "take (length (cpl ! ?h)) (drop (offs ! ?h) inc) = cpl ! ?h"
      by (rule window_eq [OF w])
    have h1: "he_size (chgE ! e) = length (cpl ! ?h)" "he_begin (chgE ! e) = offs ! ?h"
      "he_weight (chgE ! e) = cew ! ?h"
      using hdr e by simp_all
    have pe: "pins chg e = coarse_pins cl hg ?h"
      unfolding pins_def ph(9,10) h1 win by (rule f(6))
    have fl: "f < length ?P" using f(1) lP by simp
    have "edgeWeight chg e = merged_weight hg cpl0 ?P f"
      unfolding edgeWeight_def ph(9) h1 by (rule f(7))
    also have "\<dots> = (if {he. kept cl hg he
                           \<and> coarse_image cl hg he = coarse_image cl hg (?g f)} = {?g f}
                  then edgeWeight hg (?g f)
                  else wrap_weight (\<Sum>he\<in>{he. kept cl hg he
                           \<and> coarse_image cl hg he = coarse_image cl hg (?g f)}.
                    edgeWeight hg he))"
      by (rule merged_weight_sum [OF ok fl f(4)])
    finally show ?thesis using pe f(3) by simp
  qed
  have cover: "\<exists>r\<in>set ?NE. coarse_image cl hg r = coarse_image cl hg he" if he: "kept cl hg he" for he
  proof -
    obtain p where p: "p < length ?P" "chi_valid (?P ! p)" "?g p = he"
      using entries_okD(5) [OF ok he] by blast
    obtain f where f: "f \<le> p" "first_of_net cpl0 ?P f" "same_net cpl0 ?P f p"
      using first_of_net_exists [OF p(2)] by blast
    have fl: "f < length ?P" using f(1) p(1) by simp
    have v: "chi_valid (?P ! f)" using f(2) by (rule first_of_net_valid)
    have "?g f \<in> set ?NE" using F(3) fl f(2) lP by auto
    moreover have "coarse_image cl hg (?g f) = coarse_image cl hg he"
      using entries_image [OF ok fl v] entries_image [OF ok p(1,2)] f(3) p(3)
      by (simp add: same_net_def)
    ultimately show ?thesis by blast
  qed
  have uniq: "r = r'"
    if a: "r \<in> set ?NE" "r' \<in> set ?NE" "coarse_image cl hg r = coarse_image cl hg r'" for r r'
  proof -
    obtain f where f: "f < ?m" "first_of_net cpl0 ?P f" "r = ?g f" "chi_valid (?P ! f)"
      using rep [OF a(1)] by blast
    obtain f' where f': "f' < ?m" "first_of_net cpl0 ?P f'" "r' = ?g f'" "chi_valid (?P ! f')"
      using rep [OF a(2)] by blast
    have "same_net cpl0 ?P f f'"
      using entries_image [OF ok _ f(4)] entries_image [OF ok _ f'(4)] f(1,3) f'(1,3) a(3) lP
      by (simp add: same_net_def)
    then have "f = f'" using first_of_net_unique [OF f(2) f'(2)] by simp
    then show ?thesis using f(3) f'(3) by simp
  qed
  have srt: "sorted ?NE" by (rule sorted_wrt_filter) simp
  have len: "length ?NE = numHyperedges chg" using F(2) ph(8) by (simp add: numHyperedges_def)
  have kp: "\<forall>he\<in>set ?NE. kept cl hg he" using rep by blast
  show ?thesis
  proof (intro exI [of _ ?NE] conjI)
    show "distinct ?NE" by simp
    show "sorted ?NE" by (rule srt)
    show "length ?NE = numHyperedges chg" by (rule len)
    show "\<forall>he\<in>set ?NE. kept cl hg he" by (rule kp)
    show "\<forall>he. kept cl hg he \<longrightarrow> (\<exists>r\<in>set ?NE. coarse_image cl hg r = coarse_image cl hg he)"
      using cover by blast
    show "\<forall>r\<in>set ?NE. \<forall>r'\<in>set ?NE. coarse_image cl hg r = coarse_image cl hg r' \<longrightarrow> r = r'"
      using uniq by blast
    show "\<forall>e<length ?NE. pins chg e = coarse_pins cl hg (?NE ! e)
           \<and> edgeWeight chg e
               = (if {he. kept cl hg he
                           \<and> coarse_image cl hg he = coarse_image cl hg (?NE ! e)} = {?NE ! e}
                  then edgeWeight hg (?NE ! e)
                  else wrap_weight (\<Sum>he\<in>{he. kept cl hg he
                           \<and> coarse_image cl hg he = coarse_image cl hg (?NE ! e)}.
                    edgeWeight hg he))"
      by (intro allI impI) (rule edge)
  qed
qed


subsection \<open>The hyperedges of the contracted hypergraph\<close>

lemma kept_coarse_pins:
  assumes "kept cl hg he"
  shows "2 \<le> length (coarse_pins cl hg he)" "distinct (coarse_pins cl hg he)"
    "he < numHyperedges hg" "edgeIsEnabled hg he"
  using assms coarse_pins_distinct by (simp_all add: kept_def)

text \<open>
  C4: every hyperedge of the hypergraph that \<open>contract\<close> returns has at least two pins,
  its pins are pairwise distinct, and it is the coarse pin list of an enabled fine hyperedge
  that is mapped to more than one coarse vertex; a fine hyperedge that is mapped to at
  most one coarse vertex does not give its pins to any hyperedge.
\<close>

theorem contract_edges_two_distinct_pins:
  assumes "contract seed hg clusters = Inr (chg, cl)" and "e < numHyperedges chg"
  shows "2 \<le> length (pins chg e) \<and> distinct (pins chg e)
       \<and> (\<exists>he. kept cl hg he \<and> pins chg e = coarse_pins cl hg he)
       \<and> (\<forall>he. length (coarse_pins cl hg he) \<le> 1
              \<longrightarrow> set (pins chg e) \<noteq> coarse_image cl hg he)"
proof -
  obtain NE where NE: "length NE = numHyperedges chg" "\<forall>he\<in>set NE. kept cl hg he"
    "\<forall>e<length NE. pins chg e = coarse_pins cl hg (NE ! e)"
    using contract_structure [OF assms(1) [unfolded contract_def]] by blast
  have e: "e < length NE" using assms(2) NE(1) by simp
  then have k: "kept cl hg (NE ! e)" using NE(2) by simp
  have p: "pins chg e = coarse_pins cl hg (NE ! e)" using NE(3) e by simp
  have two: "2 \<le> length (pins chg e)" and d: "distinct (pins chg e)"
    using kept_coarse_pins(1,2) [OF k] p by simp_all
  have small: "set (pins chg e) \<noteq> coarse_image cl hg he"
    if "length (coarse_pins cl hg he) \<le> 1" for he
  proof
    assume "set (pins chg e) = coarse_image cl hg he"
    then have "card (set (pins chg e)) = card (set (coarse_pins cl hg he))"
      by (simp add: coarse_pins_set)
    then have "length (pins chg e) = length (coarse_pins cl hg he)"
      using d coarse_pins_distinct [of cl hg he] by (simp add: distinct_card)
    then show False using two that by simp
  qed
  show ?thesis using two d k p small by blast
qed

lemma pairs_example_eval:
  "contract 0 pairs_example [0, 0, 1, 1, 2, 2, 3, 3]
     = Inr (pairs_contracted, [0, 0, 1, 1, 2, 2, 3, 3])"
  by code_simp

theorem contract_edges_two_distinct_pins_witness:
  "contract 0 pairs_example [0, 0, 1, 1, 2, 2, 3, 3]
     = Inr (pairs_contracted, [0, 0, 1, 1, 2, 2, 3, 3])
   \<and> 2 < numHyperedges pairs_contracted
   \<and> pins pairs_contracted 2 = [3, 0]
   \<and> 2 \<le> length (pins pairs_contracted 2) \<and> distinct (pins pairs_contracted 2)"
  using contract_edges_two_distinct_pins [OF pairs_example_eval, of 2] pairs_example_eval
  by (simp add: pairs_contracted_def numHyperedges_def pins_def)



lemma merged_edges_set:
  assumes "2 \<le> card (set (pins chg e))"
  shows "set (merged_edges cl hg chg e)
       = {he. kept cl hg he \<and> coarse_image cl hg he = set (pins chg e)}"
proof (intro set_eqI iffI)
  fix he assume "he \<in> set (merged_edges cl hg chg e)"
  then have he: "he < numHyperedges hg" "edgeIsEnabled hg he"
    "coarse_image cl hg he = set (pins chg e)"
    by (simp_all add: merged_edges_def)
  have "length (coarse_pins cl hg he) = card (coarse_image cl hg he)"
    using coarse_pins_distinct [of cl hg he] coarse_pins_set [of cl hg he]
    by (metis distinct_card)
  then have "kept cl hg he" using he assms by (simp add: kept_def)
  then show "he \<in> {he. kept cl hg he \<and> coarse_image cl hg he = set (pins chg e)}"
    using he(3) by simp
next
  fix he assume "he \<in> {he. kept cl hg he \<and> coarse_image cl hg he = set (pins chg e)}"
  then show "he \<in> set (merged_edges cl hg chg e)"
    by (simp add: merged_edges_def kept_def)
qed

text \<open>
  Two hyperedges with the pins \<open>{0, 1}\<close> and the weights \<open>2^31 - 1\<close> and 1 are merged by
  the contraction with the identity clustering; the sum of their weights is \<open>2^31\<close>, the
  weight of the coarse hyperedge is \<open>- 2^31\<close>.
\<close>

theorem contract_weight_sum_wraps:
  "contract 0 overflow_example [0, 1] = Inr (overflow_contracted, [0, 1])
   \<and> merged_edges [0, 1] overflow_example overflow_contracted 0 = [0, 1]
   \<and> sum_list (map (edgeWeight overflow_example)
         (merged_edges [0, 1] overflow_example overflow_contracted 0)) = 2147483648
   \<and> edgeWeight overflow_contracted 0 = - 2147483648"
  by code_simp

text \<open>
  C1 (amended): for every hyperedge \<open>e\<close> of the hypergraph that \<open>contract\<close> returns, fine
  hyperedges are merged into \<open>e\<close>; the pins of \<open>e\<close> are pairwise distinct and are exactly
  the coarse vertices that the pins of the merged hyperedges are mapped to; the weight of
  \<open>e\<close> and the sum of the weights of the merged hyperedges are the same 32-bit value, so the
  weight of \<open>e\<close> is that sum whenever the sum lies in the range of \<open>HyperedgeWeight\<close>; and
  no other coarse hyperedge has the same pins.
\<close>

theorem contract_merges_pins_and_bounded_weights:
  assumes "contract seed hg clusters = Inr (chg, cl)" and "e < numHyperedges chg"
  shows "merged_edges cl hg chg e \<noteq> [] \<and> distinct (pins chg e)
       \<and> set (pins chg e) = (\<Union>he\<in>set (merged_edges cl hg chg e). coarse_image cl hg he)
       \<and> wrap_weight (edgeWeight chg e)
           = wrap_weight (sum_list (map (edgeWeight hg) (merged_edges cl hg chg e)))
       \<and> (- 2147483648 \<le> sum_list (map (edgeWeight hg) (merged_edges cl hg chg e))
            \<and> sum_list (map (edgeWeight hg) (merged_edges cl hg chg e)) < 2147483648
          \<longrightarrow> edgeWeight chg e = sum_list (map (edgeWeight hg) (merged_edges cl hg chg e)))
       \<and> (\<forall>e'<numHyperedges chg. set (pins chg e') = set (pins chg e) \<longrightarrow> e' = e)"
proof -
  obtain NE where NE: "distinct NE" "length NE = numHyperedges chg"
    "\<forall>he\<in>set NE. kept cl hg he"
    "\<forall>r\<in>set NE. \<forall>r'\<in>set NE. coarse_image cl hg r = coarse_image cl hg r' \<longrightarrow> r = r'"
    "\<forall>e<length NE. pins chg e = coarse_pins cl hg (NE ! e)
           \<and> edgeWeight chg e
               = (if {he. kept cl hg he
                           \<and> coarse_image cl hg he = coarse_image cl hg (NE ! e)} = {NE ! e}
                  then edgeWeight hg (NE ! e)
                  else wrap_weight (\<Sum>he\<in>{he. kept cl hg he
                           \<and> coarse_image cl hg he = coarse_image cl hg (NE ! e)}.
                    edgeWeight hg he))"
    using contract_structure [OF assms(1) [unfolded contract_def]] by blast
  let ?r = "NE ! e"
  let ?M = "merged_edges cl hg chg e"
  let ?S = "sum_list (map (edgeWeight hg) ?M)"
  have e: "e < length NE" using assms(2) NE(2) by simp
  then have rin: "?r \<in> set NE" by simp
  then have k: "kept cl hg ?r" using NE(3) by blast
  have p: "pins chg e = coarse_pins cl hg ?r" by (rule NE(5) [rule_format, OF e, THEN conjunct1])
  have img: "set (pins chg e) = coarse_image cl hg ?r" using p coarse_pins_set by simp
  have d: "distinct (pins chg e)" using p coarse_pins_distinct by simp
  have "2 \<le> length (pins chg e)" using p k by (simp add: kept_def)
  then have c2: "2 \<le> card (set (pins chg e))" using d by (simp add: distinct_card)
  note M = merged_edges_set [OF c2, of cl hg]
  have rM: "?r \<in> set ?M" unfolding M using k img by simp
  then have ne: "?M \<noteq> []" by auto
  have un: "set (pins chg e) = (\<Union>he\<in>set ?M. coarse_image cl hg he)"
    unfolding M using rM [unfolded M] by auto
  have dM: "distinct ?M" by (simp add: merged_edges_def)
  have S: "?S = (\<Sum>he\<in>set ?M. edgeWeight hg he)"
    using sum_list_distinct_conv_sum_set [OF dM, of "edgeWeight hg"] by simp
  have K: "{he. kept cl hg he \<and> coarse_image cl hg he = coarse_image cl hg ?r} = set ?M"
    unfolding M img by simp
  note w0 = NE(5) [rule_format, OF e, THEN conjunct2]
  have w: "edgeWeight chg e
      = (if set ?M = {?r} then edgeWeight hg ?r else wrap_weight ?S)"
    using w0 unfolding K S .
  have w1: "wrap_weight (edgeWeight chg e) = wrap_weight ?S"
  proof (cases "set ?M = {?r}")
    case True
    then have "?S = edgeWeight hg ?r" unfolding S by simp
    then show ?thesis using w True by simp
  next
    case False
    then show ?thesis using w by (simp add: wrap_weight_idem)
  qed
  have w2: "edgeWeight chg e = ?S" if "- 2147483648 \<le> ?S \<and> ?S < 2147483648"
  proof (cases "set ?M = {?r}")
    case True
    then have "?S = edgeWeight hg ?r" unfolding S by simp
    then show ?thesis using w True by simp
  next
    case False
    then have "edgeWeight chg e = wrap_weight ?S" using w by simp
    then show ?thesis using wrap_weight_in_range [of ?S] that by simp
  qed
  have u: "\<forall>e'<numHyperedges chg. set (pins chg e') = set (pins chg e) \<longrightarrow> e' = e"
  proof (intro allI impI)
    fix e' assume e': "e' < numHyperedges chg" "set (pins chg e') = set (pins chg e)"
    then have l: "e' < length NE" using NE(2) by simp
    have "pins chg e' = coarse_pins cl hg (NE ! e')"
      by (rule NE(5) [rule_format, OF l, THEN conjunct1])
    then have "coarse_image cl hg (NE ! e') = coarse_image cl hg ?r"
      using e'(2) img coarse_pins_set by simp
    then have "NE ! e' = ?r" using NE(4) l rin by simp
    then show "e' = e" using NE(1) l e by (simp add: nth_eq_iff_index_eq)
  qed
  show ?thesis using ne d un w1 w2 u by blast
qed

lemma merging_example_eval:
  "contract 0 merging_example [0, 0, 1, 1] = Inr (merging_contracted, [0, 0, 1, 1])"
  by code_simp

lemma merging_example_merged:
  "merged_edges [0, 0, 1, 1] merging_example merging_contracted 0 = [0, 1, 3]"
  by code_simp

lemma merging_example_sum:
  "sum_list (map (edgeWeight merging_example)
      (merged_edges [0, 0, 1, 1] merging_example merging_contracted 0)) = 11"
  by code_simp

theorem contract_merges_pins_and_bounded_weights_witness:
  "contract 0 merging_example [0, 0, 1, 1] = Inr (merging_contracted, [0, 0, 1, 1])
   \<and> 0 < numHyperedges merging_contracted
   \<and> merged_edges [0, 0, 1, 1] merging_example merging_contracted 0 = [0, 1, 3]
   \<and> pins merging_contracted 0 = [0, 1]
   \<and> - 2147483648 \<le> sum_list (map (edgeWeight merging_example)
           (merged_edges [0, 0, 1, 1] merging_example merging_contracted 0))
   \<and> sum_list (map (edgeWeight merging_example)
           (merged_edges [0, 0, 1, 1] merging_example merging_contracted 0)) < 2147483648
   \<and> edgeWeight merging_contracted 0
       = sum_list (map (edgeWeight merging_example)
           (merged_edges [0, 0, 1, 1] merging_example merging_contracted 0))
   \<and> edgeWeight merging_contracted 0 = 11"
proof -
  have n: "0 < numHyperedges merging_contracted"
    by (simp add: merging_contracted_def numHyperedges_def)
  have p: "pins merging_contracted 0 = [0, 1]"
    by (simp add: merging_contracted_def pins_def)
  have w: "edgeWeight merging_contracted 0 = 11"
    by (simp add: merging_contracted_def edgeWeight_def)
  show ?thesis
    using contract_merges_pins_and_bounded_weights [OF merging_example_eval n]
      merging_example_eval n merging_example_merged p w
    unfolding merging_example_sum by simp
qed



subsection \<open>Contraction with the identity clustering\<close>

lemma mark_clusters_spec:
  assumes "mark_clusters cl us mp = Inr mp'"
  shows "length mp' = length mp
       \<and> (\<forall>i<length mp. mp' ! i = (if i \<in> (\<lambda>u. cl ! u) ` set us then 1 else mp ! i))"
  using assms
proof (induction us arbitrary: mp)
  case Nil
  then show ?case by simp
next
  case (Cons u us)
  have g: "cl ! u < length mp" using Cons.prems by (simp split: if_splits)
  have rest: "mark_clusters cl us (mp[cl ! u := 1]) = Inr mp'"
    using Cons.prems by (simp split: if_splits)
  note IH = Cons.IH [OF rest]
  have i1: "length mp' = length mp" using IH [THEN conjunct1] by simp
  have i2: "\<forall>i<length mp. mp' ! i
              = (if i \<in> (\<lambda>u. cl ! u) ` set us then 1 else mp[cl ! u := 1] ! i)"
    using IH [THEN conjunct2] by simp
  show ?case
  proof (intro conjI allI impI)
    show "length mp' = length mp" by (rule i1)
  next
    fix i assume i: "i < length mp"
    show "mp' ! i = (if i \<in> (\<lambda>u. cl ! u) ` set (u # us) then 1 else mp ! i)"
      using i2 i by (cases "i = cl ! u") auto
  qed
qed

lemma sum_list_take_ones:
  fixes xs :: "nat list"
  assumes "\<forall>j<length xs. xs ! j = 1" "k \<le> length xs"
  shows "sum_list (take k xs) = k"
  using assms(2)
proof (induction k)
  case 0
  then show ?case by simp
next
  case (Suc k)
  then have "k < length xs" by simp
  then show ?case using Suc assms(1) by (simp add: take_Suc_conv_app_nth)
qed

lemma compactify_identity:
  assumes c: "compactify hg [0..<initialNumNodes hg] = Inr (N, cl)"
    and en: "\<forall>u<initialNumNodes hg. nodeIsEnabled hg u"
  shows "N = initialNumNodes hg" "cl = [0..<initialNumNodes hg]"
proof -
  let ?n = "initialNumNodes hg"
  obtain present where p: "present_bitmap hg [0..<?n] = Inr present"
    using c by (cases "present_bitmap hg [0..<?n]") (simp_all add: compactify_def)
  have n0: "?n \<noteq> 0" using c p by (auto simp: compactify_def Let_def split: if_splits)
  note M = mark_clusters_spec [OF p [unfolded present_bitmap_def]]
  have lp: "length present = ?n" using M [THEN conjunct1] by simp
  have ones: "\<forall>j<length present. present ! j = 1"
  proof (intro allI impI)
    fix j assume j: "j < length present"
    then have "j \<in> (\<lambda>u. [0..<?n] ! u) ` set [0..<?n]" using lp by force
    then show "present ! j = 1" using M [THEN conjunct2] j lp by simp
  qed
  have ps: "inclusive_prefix_sum present ! i = i + 1" if "i < ?n" for i
    using that lp sum_list_take_ones [OF ones, of "i + 1"]
    by (simp add: inclusive_prefix_sum_def)
  have res: "N = inclusive_prefix_sum present ! (?n - 1)"
    "cl = map (\<lambda>u. if nodeIsEnabled hg u
                     then dec_u32 (inclusive_prefix_sum present ! ([0..<?n] ! u))
                     else kInvalidHypernode) [0..<?n] @ drop ?n [0..<?n]"
    using c p n0 by (simp_all add: compactify_def Let_def)
  show "N = ?n" using res(1) ps [of "?n - 1"] n0 by simp
  have "map (\<lambda>u. if nodeIsEnabled hg u
                     then dec_u32 (inclusive_prefix_sum present ! ([0..<?n] ! u))
                     else kInvalidHypernode) [0..<?n] = [0..<?n]"
    by (rule map_idI) (use en ps in \<open>simp add: dec_u32_def\<close>)
  then show "cl = [0..<?n]" using res(2) by simp
qed

lemma aggregate_nodes_spec:
  assumes "aggregate_nodes hg cl us (w, c) = Inr (w', c')"
    and "distinct (map (\<lambda>u. cl ! u) us)"
  shows "length w' = length w
       \<and> (\<forall>u\<in>set us. w' ! (cl ! u) = w ! (cl ! u) + nodeWeight hg u)
       \<and> (\<forall>i. i \<notin> (\<lambda>u. cl ! u) ` set us \<longrightarrow> w' ! i = w ! i)"
  using assms
proof (induction us arbitrary: w c)
  case Nil
  then show ?case by simp
next
  case (Cons u us)
  let ?w1 = "w[cl ! u := w ! (cl ! u) + nodeWeight hg u]"
  have g: "cl ! u < length w" using Cons.prems(1) by (simp split: if_splits)
  have rest: "aggregate_nodes hg cl us (?w1, c[cl ! u := community_ids hg ! u]) = Inr (w', c')"
    using Cons.prems(1) by (simp split: if_splits)
  have d: "distinct (map (\<lambda>u. cl ! u) us)" and nin: "cl ! u \<notin> (\<lambda>u. cl ! u) ` set us"
    using Cons.prems(2) by simp_all
  note IH = Cons.IH [OF rest d]
  have i1: "length w' = length w" using IH [THEN conjunct1] by simp
  have i2: "\<forall>v\<in>set us. w' ! (cl ! v) = ?w1 ! (cl ! v) + nodeWeight hg v"
    using IH [THEN conjunct2, THEN conjunct1] .
  have i3: "\<forall>i. i \<notin> (\<lambda>u. cl ! u) ` set us \<longrightarrow> w' ! i = ?w1 ! i"
    using IH [THEN conjunct2, THEN conjunct2] .
  show ?case
  proof (intro conjI ballI allI impI)
    show "length w' = length w" by (rule i1)
  next
    fix v assume v: "v \<in> set (u # us)"
    show "w' ! (cl ! v) = w ! (cl ! v) + nodeWeight hg v"
    proof (cases "v \<in> set us")
      case True
      then have "cl ! v \<in> (\<lambda>u. cl ! u) ` set us" by (rule imageI)
      then have "cl ! v \<noteq> cl ! u" using nin by metis
      then show ?thesis using i2 True by simp
    next
      case False
      then have "v = u" using v by simp
      then show ?thesis using i3 nin g by simp
    qed
  next
    fix i assume "i \<notin> (\<lambda>u. cl ! u) ` set (u # us)"
    then show "w' ! i = w ! i" using i3 by simp
  qed
qed

lemma contract_nodes:
  assumes "contract_v2 seed hg clusters0 = Inr (chg, cl)"
  shows "\<exists>N weights comms. compactify hg clusters0 = Inr (N, cl)
           \<and> aggregate_nodes hg cl (enabledNodes hg) (replicate N 0, replicate N 0)
               = Inr (weights, comms)
           \<and> initialNumNodes chg = N \<and> (\<forall>u<N. nodeWeight chg u = weights ! u)"
proof -
  from assms obtain N c1 cpl0 perm0 perm cpl cew c2 nets pinsn s k chgE offs inc degs
    weights comms
    where ph: "compactify hg clusters0 = Inr (N, cl)"
      "pin_lists_loop hg cl (enabledEdges hg)
           (replicate N False, replicate (numHyperedges hg) [],
            replicate (numHyperedges hg) (default_chi seed)) = Inr (c1, cpl0, perm0)"
      "detect_loop hg (enabledEdges hg)
           (sort_key chi_key perm0, cpl0, replicate (numHyperedges hg) 0, c1, 0, 0)
         = Inr (perm, cpl, cew, c2, nets, pinsn)"
      "write_headers cpl cew [0..<numHyperedges hg]
           (0, 0, replicate nets \<lparr>he_begin = 0, he_size = 0, he_weight = 1, he_valid = False\<rparr>,
            replicate (numHyperedges hg) 0) = Inr (s, k, chgE, offs)"
      "copy_pin_lists cpl offs (enabledEdges hg) (replicate pinsn 0, replicate N 0)
         = Inr (inc, degs)"
      "aggregate_nodes hg cl (enabledNodes hg) (replicate N 0, replicate N 0)
         = Inr (weights, comms)"
      "num_hypernodes chg = N" "num_hyperedges chg = nets"
      "hyperedges chg = chgE" "incidence_array chg = inc"
      "\<forall>u<N. hn_weight (hypernodes chg ! u) = weights ! u"
    by (rule contract_v2_phases)
  show ?thesis
    using ph(1,6,7,11) by (auto simp: initialNumNodes_def nodeWeight_def)
qed

lemma coarse_pins_identity:
  assumes "\<forall>v\<in>set (pins hg e). v < n" "n \<le> kInvalidHypernode" "distinct (pins hg e)"
  shows "coarse_pins [0..<n] hg e = pins hg e"
proof -
  have m: "map (\<lambda>v. [0..<n] ! v) (pins hg e) = pins hg e"
    by (rule map_idI) (use assms(1) in simp)
  have "dedup_pins [0..<n] (pins hg e) [] = [] @ map (\<lambda>v. [0..<n] ! v) (pins hg e)"
  proof (rule dedup_pins_identity)
    show "\<forall>v\<in>set (pins hg e). [0..<n] ! v \<noteq> kInvalidHypernode" using assms(1,2) by auto
    show "distinct (map (\<lambda>v. [0..<n] ! v) (pins hg e))" unfolding m by (rule assms(3))
    show "set (map (\<lambda>v. [0..<n] ! v) (pins hg e)) \<inter> set [] = {}" by simp
  qed
  then show ?thesis using m by (simp add: coarse_pins_def)
qed


lemma simple_hypergraphD:
  assumes "simple_hypergraph hg"
  shows "initialNumNodes hg \<le> kInvalidHypernode"
    "\<And>u. u < initialNumNodes hg \<Longrightarrow> nodeIsEnabled hg u"
    "\<And>e. e < numHyperedges hg \<Longrightarrow> edgeIsEnabled hg e"
    "\<And>e. e < numHyperedges hg \<Longrightarrow> 2 \<le> length (pins hg e)"
    "\<And>e. e < numHyperedges hg \<Longrightarrow> distinct (pins hg e)"
    "\<And>e. e < numHyperedges hg \<Longrightarrow> \<forall>v\<in>set (pins hg e). v < initialNumNodes hg"
    "\<And>e e'. e < numHyperedges hg \<Longrightarrow> e' < numHyperedges hg
        \<Longrightarrow> set (pins hg e) = set (pins hg e') \<Longrightarrow> e = e'"
proof -
  note a = assms [unfolded simple_hypergraph_def list_all_iff]
  show "initialNumNodes hg \<le> kInvalidHypernode" using a by blast
  show "\<And>u. u < initialNumNodes hg \<Longrightarrow> nodeIsEnabled hg u" using a by simp
  show "\<And>e. e < numHyperedges hg \<Longrightarrow> edgeIsEnabled hg e" using a by simp
  show "\<And>e. e < numHyperedges hg \<Longrightarrow> 2 \<le> length (pins hg e)" using a by simp
  show "\<And>e. e < numHyperedges hg \<Longrightarrow> distinct (pins hg e)" using a by simp
  show "\<And>e. e < numHyperedges hg \<Longrightarrow> \<forall>v\<in>set (pins hg e). v < initialNumNodes hg"
    using a by simp
  have d: "distinct (map (\<lambda>e. set (pins hg e)) [0..<numHyperedges hg])" using a by blast
  show "\<And>e e'. e < numHyperedges hg \<Longrightarrow> e' < numHyperedges hg
        \<Longrightarrow> set (pins hg e) = set (pins hg e') \<Longrightarrow> e = e'"
  proof -
    fix e e' assume e: "e < numHyperedges hg" "e' < numHyperedges hg"
      "set (pins hg e) = set (pins hg e')"
    have "inj_on (\<lambda>e. set (pins hg e)) (set [0..<numHyperedges hg])"
      using d by (simp add: distinct_map)
    then show "e = e'" using e by (auto dest: inj_onD)
  qed
qed

text \<open>
  C2, counterexample: three hyperedges with the same pins are contracted with the identity
  clustering to one hyperedge of weight 6, so the number of hyperedges and the weights
  change.
\<close>

theorem identity_contract_merges_identical_nets:
  "contract 0 identical_nets_example [0..<initialNumNodes identical_nets_example]
     = Inr (identical_nets_contracted, [0, 1, 2])
   \<and> numHyperedges identical_nets_example = 3
   \<and> numHyperedges identical_nets_contracted = 1
   \<and> edgeWeight identical_nets_example 0 = 1
   \<and> edgeWeight identical_nets_contracted 0 = 6"
  by code_simp

text \<open>
  C2, amended: when every vertex and every hyperedge is enabled, every hyperedge has at
  least two pairwise distinct pins and no two hyperedges have the same set of pins, the
  contraction with the identity clustering returns the identity as mapping and a hypergraph
  with the same number of vertices and hyperedges, the same vertex and hyperedge weights and
  the same pins of every hyperedge.
\<close>

theorem identity_contract_simple:
  assumes c: "contract seed hg [0..<initialNumNodes hg] = Inr (chg, cl)"
    and simple: "simple_hypergraph hg"
  shows "cl = [0..<initialNumNodes hg]
       \<and> initialNumNodes chg = initialNumNodes hg
       \<and> numHyperedges chg = numHyperedges hg
       \<and> (\<forall>u<initialNumNodes hg. nodeWeight chg u = nodeWeight hg u)
       \<and> (\<forall>e<numHyperedges hg. pins chg e = pins hg e \<and> edgeWeight chg e = edgeWeight hg e)"
proof -
  let ?n = "initialNumNodes hg"
  let ?m = "numHyperedges hg"
  note S = simple_hypergraphD [OF simple]
  note c2 = c [unfolded contract_def]
  obtain N weights comms where nd: "compactify hg [0..<?n] = Inr (N, cl)"
    "aggregate_nodes hg cl (enabledNodes hg) (replicate N 0, replicate N 0)
       = Inr (weights, comms)"
    "initialNumNodes chg = N" "\<forall>u<N. nodeWeight chg u = weights ! u"
    using contract_nodes [OF c2] by blast
  have en: "\<forall>u<?n. nodeIsEnabled hg u" using S(2) by blast
  have N: "N = ?n" and cl: "cl = [0..<?n]"
    using compactify_identity [OF nd(1) en] by simp_all
  have nodes: "enabledNodes hg = [0..<?n]"
    using en by (simp add: enabledNodes_def initialNumNodes_def)
  have dm: "distinct (map (\<lambda>u. [0..<?n] ! u) [0..<?n])"
    by (simp add: distinct_map inj_on_def)
  note A = aggregate_nodes_spec [OF nd(2) [unfolded nodes cl] dm]
  have wts: "\<forall>u<?n. nodeWeight chg u = nodeWeight hg u"
  proof (intro allI impI)
    fix u assume u: "u < ?n"
    have "weights ! ([0..<?n] ! u) = replicate N 0 ! ([0..<?n] ! u) + nodeWeight hg u"
      using A [THEN conjunct2, THEN conjunct1] u by simp
    then show "nodeWeight chg u = nodeWeight hg u" using nd(4) N u by simp
  qed
  have cp: "coarse_pins cl hg e = pins hg e" if "e < ?m" for e
    unfolding cl by (rule coarse_pins_identity [OF S(6) [OF that] S(1) S(5) [OF that]])
  have ci: "coarse_image cl hg e = set (pins hg e)" if "e < ?m" for e
    using cp [OF that] coarse_pins_set [of cl hg e] by simp
  have kp: "kept cl hg e \<longleftrightarrow> e < ?m" for e
    using S(3) [of e] S(4) [of e] cp [of e] by (auto simp: kept_def)
  obtain NE where NE: "distinct NE" "sorted NE" "length NE = numHyperedges chg"
    "\<forall>he\<in>set NE. kept cl hg he"
    "\<forall>he. kept cl hg he \<longrightarrow> (\<exists>r\<in>set NE. coarse_image cl hg r = coarse_image cl hg he)"
    "\<forall>e<length NE. pins chg e = coarse_pins cl hg (NE ! e)
           \<and> edgeWeight chg e
               = (if {he. kept cl hg he
                           \<and> coarse_image cl hg he = coarse_image cl hg (NE ! e)} = {NE ! e}
                  then edgeWeight hg (NE ! e)
                  else wrap_weight (\<Sum>he\<in>{he. kept cl hg he
                           \<and> coarse_image cl hg he = coarse_image cl hg (NE ! e)}.
                    edgeWeight hg he))"
    using contract_structure [OF c2] by blast
  have setNE: "set NE = set [0..<?m]"
  proof (intro set_eqI iffI)
    fix he assume "he \<in> set NE"
    then show "he \<in> set [0..<?m]" using NE(4) kp by simp
  next
    fix he assume "he \<in> set [0..<?m]"
    then have he: "he < ?m" by simp
    then obtain r where r: "r \<in> set NE" "coarse_image cl hg r = coarse_image cl hg he"
      using NE(5) kp by blast
    have rm: "r < ?m" using r(1) NE(4) kp by simp
    have "r = he" using S(7) [OF rm he] r(2) ci [OF rm] ci [OF he] by simp
    then show "he \<in> set NE" using r(1) by simp
  qed
  have NEeq: "NE = [0..<?m]"
    by (rule sorted_distinct_set_unique [OF NE(2,1) _ _ setNE]) simp_all
  have edges: "numHyperedges chg = ?m" using NE(3) NEeq by simp
  have each: "\<forall>e<?m. pins chg e = pins hg e \<and> edgeWeight chg e = edgeWeight hg e"
  proof (intro allI impI)
    fix e assume e: "e < ?m"
    have K: "{he. kept cl hg he \<and> coarse_image cl hg he = coarse_image cl hg e} = {e}"
    proof (intro set_eqI iffI)
      fix he assume "he \<in> {he. kept cl hg he \<and> coarse_image cl hg he = coarse_image cl hg e}"
      then have h: "he < ?m" "coarse_image cl hg he = coarse_image cl hg e" using kp by simp_all
      have "he = e" using S(7) [OF h(1) e] h(2) ci [OF h(1)] ci [OF e] by simp
      then show "he \<in> {e}" by simp
    next
      fix he assume "he \<in> {e}"
      then show "he \<in> {he. kept cl hg he \<and> coarse_image cl hg he = coarse_image cl hg e}"
        using e kp by simp
    qed
    have "pins chg e = coarse_pins cl hg e
           \<and> edgeWeight chg e
               = (if {he. kept cl hg he
                           \<and> coarse_image cl hg he = coarse_image cl hg e} = {e}
                  then edgeWeight hg e
                  else wrap_weight (\<Sum>he\<in>{he. kept cl hg he
                           \<and> coarse_image cl hg he = coarse_image cl hg e}.
                    edgeWeight hg he))"
      using NE(6) e NEeq by simp
    then show "pins chg e = pins hg e \<and> edgeWeight chg e = edgeWeight hg e"
      unfolding K using cp [OF e] by simp
  qed
  show ?thesis using cl nd(3) N edges wts each by simp
qed

lemma path_hypergraph_eval:
  "contract 0 path_hypergraph [0..<initialNumNodes path_hypergraph]
     = Inr (path_contracted, [0, 1, 2])"
  by code_simp

lemma path_hypergraph_simple: "simple_hypergraph path_hypergraph"
  by code_simp

theorem identity_contract_simple_witness:
  "contract 0 path_hypergraph [0..<initialNumNodes path_hypergraph]
     = Inr (path_contracted, [0, 1, 2])
   \<and> simple_hypergraph path_hypergraph
   \<and> initialNumNodes path_contracted = initialNumNodes path_hypergraph
   \<and> numHyperedges path_contracted = numHyperedges path_hypergraph
   \<and> numHyperedges path_hypergraph = 2
   \<and> pins path_contracted 1 = pins path_hypergraph 1
   \<and> edgeWeight path_contracted 1 = edgeWeight path_hypergraph 1
   \<and> edgeWeight path_contracted 1 = 5"
proof -
  have n: "numHyperedges path_hypergraph = 2" by code_simp
  have w: "edgeWeight path_contracted 1 = 5" by code_simp
  from identity_contract_simple [OF path_hypergraph_eval path_hypergraph_simple]
  show ?thesis using path_hypergraph_eval path_hypergraph_simple n w by simp
qed



section \<open>Properties of the localized FM search\<close>

lemma wf_hypergraph_node:
  assumes "wf_hypergraph hg" "v \<in> set (enabledNodes hg)"
  shows "distinct (incidentEdges hg v)"
    and "set (incidentEdges hg v) = {e \<in> set (enabledEdges hg). v \<in> set (pins hg e)}"
proof -
  note w = assms(1) [unfolded wf_hypergraph_def list_all_iff]
  show "distinct (incidentEdges hg v)" using w assms(2) by blast
  show "set (incidentEdges hg v) = {e \<in> set (enabledEdges hg). v \<in> set (pins hg e)}"
  proof (intro set_eqI iffI)
    fix e assume "e \<in> set (incidentEdges hg v)"
    then show "e \<in> {e \<in> set (enabledEdges hg). v \<in> set (pins hg e)}"
      using w assms(2) by blast
  next
    fix e assume "e \<in> {e \<in> set (enabledEdges hg). v \<in> set (pins hg e)}"
    then show "e \<in> set (incidentEdges hg v)" using w by blast
  qed
qed

lemma wf_hypergraph_edge:
  assumes "wf_hypergraph hg" "e \<in> set (enabledEdges hg)"
  shows "distinct (pins hg e)" and "set (pins hg e) \<subseteq> set (enabledNodes hg)"
  using assms unfolding wf_hypergraph_def list_all_iff by blast+

lemma distinct_enabledEdges: "distinct (enabledEdges hg)"
  by (simp add: enabledEdges_def)

subsection \<open>Counting the pins of a block\<close>

lemma count_moved:
  assumes "distinct xs" "v \<in> set xs" "p v = a" "c \<noteq> a"
  shows "length (filter (\<lambda>u. (p(v := c)) u = b) xs)
       = (if b = a then length (filter (\<lambda>u. p u = b) xs) - 1
          else if b = c then length (filter (\<lambda>u. p u = b) xs) + 1
          else length (filter (\<lambda>u. p u = b) xs))"
proof -
  obtain ys zs where xs: "xs = ys @ v # zs" using assms(2) by (meson split_list)
  have nv: "v \<notin> set ys" "v \<notin> set zs" using assms(1) xs by auto
  have ys: "filter (\<lambda>u. (p(v := c)) u = b) ys = filter (\<lambda>u. p u = b) ys"
    by (rule filter_cong) (use nv in auto)
  have zs: "filter (\<lambda>u. (p(v := c)) u = b) zs = filter (\<lambda>u. p u = b) zs"
    by (rule filter_cong) (use nv in auto)
  have n: "filter (\<lambda>u. (p(v := c)) u = b) xs
       = filter (\<lambda>u. p u = b) ys @ (if c = b then [v] else []) @ filter (\<lambda>u. p u = b) zs"
    unfolding xs filter_append filter.simps ys zs by simp
  have o: "filter (\<lambda>u. p u = b) xs
       = filter (\<lambda>u. p u = b) ys @ (if a = b then [v] else []) @ filter (\<lambda>u. p u = b) zs"
    unfolding xs using assms(3) by simp
  show ?thesis unfolding n o using assms(4) by auto
qed

lemma count_unmoved:
  assumes "v \<notin> set xs"
  shows "filter (\<lambda>u. (p(v := c)) u = b) xs = filter (\<lambda>u. p u = b) xs"
  by (rule filter_cong) (use assms in auto)

lemma count_positive: "{b. 0 < length (filter (\<lambda>u. p u = b) xs)} = p ` set xs"
  by (auto simp: filter_empty_conv)

lemma others_in_block:
  assumes "distinct xs" "v \<in> set xs" "p v = a"
  shows "a \<in> p ` (set xs - {v}) \<longleftrightarrow> length (filter (\<lambda>u. p u = a) xs) \<noteq> 1"
proof -
  obtain ys zs where xs: "xs = ys @ v # zs" using assms(2) by (meson split_list)
  have nv: "v \<notin> set ys" "v \<notin> set zs" using assms(1) xs by auto
  have s: "set xs - {v} = set ys \<union> set zs" using xs nv by auto
  have "length (filter (\<lambda>u. p u = a) xs) = 1
          \<longleftrightarrow> filter (\<lambda>u. p u = a) ys = [] \<and> filter (\<lambda>u. p u = a) zs = []"
    unfolding xs using assms(3) by simp
  also have "\<dots> \<longleftrightarrow> a \<notin> p ` (set ys \<union> set zs)" by (auto simp: filter_empty_conv)
  finally show ?thesis unfolding s by blast
qed

lemma target_block_present:
  assumes "p v \<noteq> c"
  shows "c \<in> p ` (set xs - {v}) \<longleftrightarrow> length (filter (\<lambda>u. p u = c) xs) \<noteq> 0"
  using assms by (auto simp: filter_empty_conv)

text \<open>The connectivity of one hyperedge before and after a pin changes its block.\<close>

lemma connectivity_moved:
  assumes d: "distinct xs" and v: "v \<in> set xs" and a: "p v = a" and c: "c \<noteq> a"
  shows "max (int (card (p ` set xs)) - 1) 0 - max (int (card ((p(v := c)) ` set xs)) - 1) 0
       = (if length (filter (\<lambda>u. p u = a) xs) = 1 then 1 else 0)
         - (if length (filter (\<lambda>u. p u = c) xs) = 0 then 1 else 0)"
proof -
  let ?B = "p ` (set xs - {v})"
  have fin: "finite ?B" by simp
  have A: "p ` set xs = insert a ?B" using v a by auto
  have A': "(p(v := c)) ` set xs = insert c ?B" using v by auto
  have ca: "int (card (insert a ?B)) = int (card ?B) + (if a \<in> ?B then 0 else 1)"
    using fin by (simp add: insert_absorb)
  have cc: "int (card (insert c ?B)) = int (card ?B) + (if c \<in> ?B then 0 else 1)"
    using fin by (simp add: insert_absorb)
  have ia: "a \<in> ?B \<longleftrightarrow> length (filter (\<lambda>u. p u = a) xs) \<noteq> 1"
    using others_in_block [of xs v p a] d v a by blast
  have ic: "c \<in> ?B \<longleftrightarrow> length (filter (\<lambda>u. p u = c) xs) \<noteq> 0"
  proof -
    have "p v \<noteq> c" using a c by simp
    then show ?thesis by (rule target_block_present)
  qed
  have pa: "0 < card (insert a ?B)" "0 < card (insert c ?B)"
    using fin by (simp_all add: card_gt_0_iff)
  show ?thesis unfolding A A' using ca cc ia ic pa by (auto simp: max_def)
qed

lemma connectivity_unmoved:
  assumes "v \<notin> set xs"
  shows "(p(v := c)) ` set xs = p ` set xs"
  using assms by (auto simp: image_iff)


subsection \<open>The objective and the gain\<close>

lemma consistent_connectivity:
  assumes "consistent hg s" "e \<in> set (enabledEdges hg)"
  shows "connectivity_set s e = part_of s ` set (pins hg e)"
    and "pin_count_in_part s e b = length (filter (\<lambda>u. part_of s u = b) (pins hg e))"
proof -
  show c: "pin_count_in_part s e b = length (filter (\<lambda>u. part_of s u = b) (pins hg e))" for b
    using assms unfolding consistent_def by blast
  have "connectivity_set s e = {b. 0 < pin_count_in_part s e b}"
    using assms unfolding consistent_def by blast
  then show "connectivity_set s e = part_of s ` set (pins hg e)"
    using c count_positive [of "part_of s" "pins hg e"] by simp
qed

lemma km1_consistent:
  assumes "consistent hg s"
  shows "km1 hg s = km1_part hg (part_of s)"
proof -
  have "map (\<lambda>he. max (phg_connectivity s he - 1) 0 * edgeWeight hg he) (enabledEdges hg)
      = map (\<lambda>he. max (int (card (part_of s ` set (pins hg he))) - 1) 0 * edgeWeight hg he)
          (enabledEdges hg)"
    by (rule map_cong [OF refl])
      (simp add: phg_connectivity_def consistent_connectivity(1) [OF assms])
  then show ?thesis unfolding km1_def km1_part_def by (rule arg_cong)
qed

text \<open>The gain of a move is the decrease of the objective.\<close>

lemma km1_gain_exact:
  assumes wf: "wf_hypergraph hg" and con: "consistent hg s"
    and v: "v \<in> set (enabledNodes hg)" and a: "part_of s v = a" and c: "c \<noteq> a"
  shows "km1_gain hg s v a c = km1_part hg (part_of s) - km1_part hg ((part_of s)(v := c))"
proof -
  let ?p = "part_of s"
  let ?E = "enabledEdges hg"
  let ?g = "\<lambda>e. (if pin_count_in_part s e a = 1 then edgeWeight hg e else 0)
               - (if pin_count_in_part s e c = 0 then edgeWeight hg e else 0)"
  let ?t = "\<lambda>p e. max (int (card (p ` set (pins hg e))) - 1) 0 * edgeWeight hg e"
  have edge_term: "?t ?p e - ?t (?p(v := c)) e = (if v \<in> set (pins hg e) then ?g e else 0)"
    if e: "e \<in> set ?E" for e
  proof (cases "v \<in> set (pins hg e)")
    case True
    have d: "distinct (pins hg e)" using wf_hypergraph_edge(1) [OF wf e] .
    have cm: "max (int (card (?p ` set (pins hg e))) - 1) 0
            - max (int (card ((?p(v := c)) ` set (pins hg e))) - 1) 0
       = (if length (filter (\<lambda>u. ?p u = a) (pins hg e)) = 1 then 1 else 0)
         - (if length (filter (\<lambda>u. ?p u = c) (pins hg e)) = 0 then 1 else 0)"
      by (rule connectivity_moved [where p = ?p, OF d True a c])
    have "?t ?p e - ?t (?p(v := c)) e
        = (max (int (card (?p ` set (pins hg e))) - 1) 0
            - max (int (card ((?p(v := c)) ` set (pins hg e))) - 1) 0) * edgeWeight hg e"
      by (simp add: algebra_simps)
    also have "\<dots> = ?g e"
      unfolding cm consistent_connectivity(2) [OF con e] by simp
    finally show ?thesis using True by simp
  next
    case False
    then show ?thesis using connectivity_unmoved [OF False, of ?p c] by simp
  qed
  have "km1_part hg ?p - km1_part hg (?p(v := c))
      = sum_list (map (\<lambda>e. ?t ?p e - ?t (?p(v := c)) e) ?E)"
    unfolding km1_part_def by (simp add: sum_list_subtractf)
  also have "\<dots> = sum_list (map (\<lambda>e. if v \<in> set (pins hg e) then ?g e else 0) ?E)"
    by (rule arg_cong [where f = sum_list], rule map_cong [OF refl]) (rule edge_term)
  also have "\<dots> = sum_list (map ?g (filter (\<lambda>e. v \<in> set (pins hg e)) ?E))"
    by (rule sum_list_map_filter' [symmetric])
  also have "\<dots> = sum ?g (set (filter (\<lambda>e. v \<in> set (pins hg e)) ?E))"
    by (rule sum_list_distinct_conv_sum_set) (simp add: distinct_enabledEdges)
  also have "set (filter (\<lambda>e. v \<in> set (pins hg e)) ?E) = set (incidentEdges hg v)"
    using wf_hypergraph_node(2) [OF wf v] by auto
  also have "sum ?g (set (incidentEdges hg v)) = sum_list (map ?g (incidentEdges hg v))"
    by (rule sum_list_distinct_conv_sum_set [symmetric]) (rule wf_hypergraph_node(1) [OF wf v])
  finally show ?thesis unfolding km1_gain_def by (rule sym)
qed

text \<open>A gain is bounded by the weight of all hyperedges, so it is never the invalid
  gain.\<close>

lemma km1_gain_bound:
  assumes wf: "wf_hypergraph hg" and v: "v \<in> set (enabledNodes hg)"
  shows "\<bar>km1_gain hg s v a c\<bar> \<le> sum_list (map (\<lambda>e. \<bar>edgeWeight hg e\<bar>) (enabledEdges hg))"
proof -
  let ?g = "\<lambda>e. (if pin_count_in_part s e a = 1 then edgeWeight hg e else 0)
               - (if pin_count_in_part s e c = 0 then edgeWeight hg e else 0)"
  let ?w = "\<lambda>e. \<bar>edgeWeight hg e\<bar>"
  have "\<bar>km1_gain hg s v a c\<bar> \<le> sum_list (map (\<lambda>e. \<bar>?g e\<bar>) (incidentEdges hg v))"
    unfolding km1_gain_def using sum_list_abs [of "map ?g (incidentEdges hg v)"]
    by (simp add: comp_def)
  also have "\<dots> \<le> sum_list (map ?w (incidentEdges hg v))"
    by (rule sum_list_mono) auto
  also have "\<dots> = sum ?w (set (incidentEdges hg v))"
    by (rule sum_list_distinct_conv_sum_set) (rule wf_hypergraph_node(1) [OF wf v])
  also have "\<dots> \<le> sum ?w (set (enabledEdges hg))"
    by (rule sum_mono2) (use wf_hypergraph_node(2) [OF wf v] in auto)
  also have "\<dots> = sum_list (map ?w (enabledEdges hg))"
    by (rule sum_list_distinct_conv_sum_set [symmetric]) (rule distinct_enabledEdges)
  finally show ?thesis .
qed


subsection \<open>Moving a vertex keeps the partitioned hypergraph consistent\<close>

lemma update_pin_counts_effect:
  assumes "a \<noteq> c"
  shows "part_of (update_pin_counts a c e s) = part_of s"
    and "pin_count_in_part (update_pin_counts a c e s)
         = (pin_count_in_part s)
             (e := (pin_count_in_part s e)
                (a := pin_count_in_part s e a - 1, c := pin_count_in_part s e c + 1))"
    and "connectivity_set (update_pin_counts a c e s)
         = (connectivity_set s)
             (e := (if pin_count_in_part s e c = 0 then insert c else id)
                     (if pin_count_in_part s e a - 1 = 0 then connectivity_set s e - {a}
                      else connectivity_set s e))"
  using assms by (auto simp: update_pin_counts_def Let_def fun_eq_iff)

lemma update_pin_counts_edge:
  assumes cnt: "\<forall>b. pin_count_in_part s e b = length (filter (\<lambda>u. p u = b) xs)"
    and cs: "connectivity_set s e = {b. 0 < pin_count_in_part s e b}"
    and d: "distinct xs" and v: "v \<in> set xs" and a: "p v = a" and c: "c \<noteq> a"
  shows "(\<forall>b. pin_count_in_part (update_pin_counts a c e s) e b
               = length (filter (\<lambda>u. (p(v := c)) u = b) xs))
       \<and> connectivity_set (update_pin_counts a c e s) e
           = {b. 0 < pin_count_in_part (update_pin_counts a c e s) e b}"
proof -
  have ac: "a \<noteq> c" using c by simp
  note E = update_pin_counts_effect [OF ac, of e s]
  have pos: "0 < pin_count_in_part s e a"
  proof -
    have "filter (\<lambda>u. p u = a) xs \<noteq> []"
      using v a by (auto simp: filter_empty_conv)
    then show ?thesis using cnt by simp
  qed
  have n: "pin_count_in_part (update_pin_counts a c e s) e b
         = length (filter (\<lambda>u. (p(v := c)) u = b) xs)" for b
    unfolding E(2) count_moved [where p = p, OF d v a c] using cnt ac by simp
  have "connectivity_set (update_pin_counts a c e s) e
           = {b. 0 < pin_count_in_part (update_pin_counts a c e s) e b}"
    unfolding E(2,3) using cs ac pos by auto
  then show ?thesis using n by blast
qed

lemma fold_update_pin_counts:
  assumes "distinct es" and "a \<noteq> c"
  shows "part_of (fold (update_pin_counts a c) es s) = part_of s
       \<and> (\<forall>e. e \<notin> set es \<longrightarrow>
             pin_count_in_part (fold (update_pin_counts a c) es s) e = pin_count_in_part s e
             \<and> connectivity_set (fold (update_pin_counts a c) es s) e = connectivity_set s e)
       \<and> (\<forall>e\<in>set es.
             pin_count_in_part (fold (update_pin_counts a c) es s) e
               = pin_count_in_part (update_pin_counts a c e s) e
             \<and> connectivity_set (fold (update_pin_counts a c) es s) e
               = connectivity_set (update_pin_counts a c e s) e)"
  using assms(1)
proof (induction es arbitrary: s)
  case Nil
  then show ?case by simp
next
  case (Cons x es)
  let ?s1 = "update_pin_counts a c x s"
  note E = update_pin_counts_effect [OF assms(2)]
  have d: "distinct es" and nin: "x \<notin> set es" using Cons.prems by simp_all
  note IH = Cons.IH [OF d, of ?s1]
  have i1: "part_of (fold (update_pin_counts a c) es ?s1) = part_of ?s1"
    using IH [THEN conjunct1] .
  have i2: "\<forall>e. e \<notin> set es \<longrightarrow>
             pin_count_in_part (fold (update_pin_counts a c) es ?s1) e = pin_count_in_part ?s1 e
             \<and> connectivity_set (fold (update_pin_counts a c) es ?s1) e = connectivity_set ?s1 e"
    using IH [THEN conjunct2, THEN conjunct1] .
  have i3: "\<forall>e\<in>set es.
             pin_count_in_part (fold (update_pin_counts a c) es ?s1) e
               = pin_count_in_part (update_pin_counts a c e ?s1) e
             \<and> connectivity_set (fold (update_pin_counts a c) es ?s1) e
               = connectivity_set (update_pin_counts a c e ?s1) e"
    using IH [THEN conjunct2, THEN conjunct2] .
  show ?case
  proof (intro conjI allI impI ballI)
    show "part_of (fold (update_pin_counts a c) (x # es) s) = part_of s"
      using i1 E(1) by simp
  next
    fix e assume e: "e \<notin> set (x # es)"
    then have "e \<noteq> x" "e \<notin> set es" by simp_all
    then show "pin_count_in_part (fold (update_pin_counts a c) (x # es) s) e
                 = pin_count_in_part s e"
      "connectivity_set (fold (update_pin_counts a c) (x # es) s) e = connectivity_set s e"
      using i2 by (simp_all add: E(2,3))
  next
    fix e assume e: "e \<in> set (x # es)"
    show "pin_count_in_part (fold (update_pin_counts a c) (x # es) s) e
               = pin_count_in_part (update_pin_counts a c e s) e"
    proof (cases "e = x")
      case True
      then show ?thesis using i2 nin by simp
    next
      case False
      then have "e \<in> set es" using e by simp
      then show ?thesis using i3 False by (simp add: E(2))
    qed
    show "connectivity_set (fold (update_pin_counts a c) (x # es) s) e
               = connectivity_set (update_pin_counts a c e s) e"
    proof (cases "e = x")
      case True
      then show ?thesis using i2 nin by simp
    next
      case False
      then have "e \<in> set es" using e by simp
      then show ?thesis using i3 False by (simp add: E(2,3))
    qed
  qed
qed

lemma move_node_consistent:
  assumes wf: "wf_hypergraph hg" and con: "consistent hg s"
    and v: "v \<in> set (enabledNodes hg)" and a: "part_of s v = a" and c: "c \<noteq> a"
  shows "consistent hg (move_node hg v a c s)"
    and "part_of (move_node hg v a c s) = (part_of s)(v := c)"
proof -
  let ?es = "incidentEdges hg v"
  let ?s1 = "fold (update_pin_counts a c) ?es s"
  have ac: "a \<noteq> c" using c by simp
  note F = fold_update_pin_counts [OF wf_hypergraph_node(1) [OF wf v] ac, of s]
  have f1: "part_of ?s1 = part_of s" using F [THEN conjunct1] .
  have f2: "\<forall>e. e \<notin> set ?es \<longrightarrow> pin_count_in_part ?s1 e = pin_count_in_part s e
             \<and> connectivity_set ?s1 e = connectivity_set s e"
    using F [THEN conjunct2, THEN conjunct1] .
  have f3: "\<forall>e\<in>set ?es.
             pin_count_in_part ?s1 e = pin_count_in_part (update_pin_counts a c e s) e
             \<and> connectivity_set ?s1 e = connectivity_set (update_pin_counts a c e s) e"
    using F [THEN conjunct2, THEN conjunct2] .
  have m: "part_of (move_node hg v a c s) = (part_of s)(v := c)"
    "pin_count_in_part (move_node hg v a c s) = pin_count_in_part ?s1"
    "connectivity_set (move_node hg v a c s) = connectivity_set ?s1"
    using f1 by (simp_all add: move_node_def Let_def)
  show "part_of (move_node hg v a c s) = (part_of s)(v := c)" by (rule m(1))
  show "consistent hg (move_node hg v a c s)"
    unfolding consistent_def m
  proof (intro ballI)
    fix e assume e: "e \<in> set (enabledEdges hg)"
    have cnt: "\<forall>b. pin_count_in_part s e b = length (filter (\<lambda>u. part_of s u = b) (pins hg e))"
      and cs: "connectivity_set s e = {b. 0 < pin_count_in_part s e b}"
      using con e unfolding consistent_def by blast+
    show "(\<forall>b. pin_count_in_part ?s1 e b
                = length (filter (\<lambda>u. ((part_of s)(v := c)) u = b) (pins hg e)))
           \<and> connectivity_set ?s1 e = {b. 0 < pin_count_in_part ?s1 e b}"
    proof (cases "e \<in> set ?es")
      case True
      then have vin: "v \<in> set (pins hg e)" using wf_hypergraph_node(2) [OF wf v] by simp
      have d: "distinct (pins hg e)" using wf_hypergraph_edge(1) [OF wf e] .
      have "(\<forall>b. pin_count_in_part (update_pin_counts a c e s) e b
               = length (filter (\<lambda>u. ((part_of s)(v := c)) u = b) (pins hg e)))
       \<and> connectivity_set (update_pin_counts a c e s) e
           = {b. 0 < pin_count_in_part (update_pin_counts a c e s) e b}"
        by (rule update_pin_counts_edge [where p = "part_of s", OF cnt cs d vin a c])
      then show ?thesis using f3 True by simp
    next
      case False
      then have vout: "v \<notin> set (pins hg e)" using wf_hypergraph_node(2) [OF wf v] e by simp
      show ?thesis
        using f2 False cnt cs count_unmoved [OF vout, of "part_of s" c] by simp
    qed
  qed
qed


lemma initialize_partition_consistent:
  assumes "\<forall>e\<in>set (enabledEdges hg). \<forall>u\<in>set (pins hg e). 0 \<le> part u \<and> part u < int k"
  shows "consistent hg (initialize_partition hg k part)"
  unfolding consistent_def
proof (intro ballI conjI allI)
  fix e b assume "e \<in> set (enabledEdges hg)"
  show "pin_count_in_part (initialize_partition hg k part) e b
      = length (filter (\<lambda>u. part_of (initialize_partition hg k part) u = b) (pins hg e))"
    by (simp add: initialize_partition_def)
next
  fix e assume e: "e \<in> set (enabledEdges hg)"
  have r: "b \<in> set (map int [0..<k])" if "0 < length (filter (\<lambda>u. part u = b) (pins hg e))" for b
  proof -
    from that obtain u where u: "u \<in> set (pins hg e)" "part u = b"
      by (auto simp: filter_empty_conv)
    then have "0 \<le> b \<and> b < int k" using assms e by blast
    then have "b = int (nat b)" "nat b \<in> set [0..<k]" by (simp_all add: nat_less_iff)
    then have "b \<in> int ` set [0..<k]" by (rule image_eqI)
    then show ?thesis by simp
  qed
  show "connectivity_set (initialize_partition hg k part) e
      = {b. 0 < pin_count_in_part (initialize_partition hg k part) e b}"
    using r by (auto simp: initialize_partition_def)
qed

subsection \<open>The log of the moves\<close>

lemma replay_append: "replay (ms @ [m]) p = (replay ms p)(mv_node m := mv_to m)"
  by (simp add: replay_def)

lemma replay_Nil: "replay [] p = p"
  by (simp add: replay_def)

lemma replay_Cons: "replay (m # ms) p = replay ms (p(mv_node m := mv_to m))"
  by (simp add: replay_def)

lemma exact_log_append:
  "exact_log hg p (ms @ [m]) \<longleftrightarrow>
     exact_log hg p ms \<and> mv_node m \<in> set (enabledNodes hg)
     \<and> replay ms p (mv_node m) = mv_from m \<and> mv_to m \<noteq> mv_from m
     \<and> mv_gain m = km1_part hg (replay ms p)
                      - km1_part hg ((replay ms p)(mv_node m := mv_to m))
     \<and> mv_gain m \<noteq> invalidGain"
proof (induction ms arbitrary: p)
  case Nil
  show ?case unfolding append_Nil exact_log.simps replay_Nil by blast
next
  case (Cons x ms)
  show ?case unfolding append_Cons exact_log.simps replay_Cons Cons.IH by blast
qed

lemma exact_log_prefix: "exact_log hg p (A @ B) \<Longrightarrow> exact_log hg p A"
  by (induction A arbitrary: p) simp_all

lemma exact_log_sum:
  "exact_log hg p ms \<Longrightarrow> sum_list (map mv_gain ms) = km1_part hg p - km1_part hg (replay ms p)"
proof (induction ms arbitrary: p)
  case Nil
  then show ?case by (simp add: replay_Nil)
next
  case (Cons m ms)
  define p' where "p' = p(mv_node m := mv_to m)"
  have e: "exact_log hg p' ms" using Cons.prems unfolding p'_def exact_log.simps by blast
  have g: "mv_gain m = km1_part hg p - km1_part hg p'"
    using Cons.prems unfolding p'_def exact_log.simps by blast
  have "sum_list (map mv_gain ms) = km1_part hg p' - km1_part hg (replay ms p')"
    by (rule Cons.IH [OF e])
  then show ?case unfolding replay_Cons p'_def [symmetric] using g by simp
qed

lemma exact_log_valid: "exact_log hg p ms \<Longrightarrow> \<forall>m\<in>set ms. mv_gain m \<noteq> invalidGain"
  by (induction ms arbitrary: p) auto

lemma best_target_Some:
  assumes "best_target hg k s v = Some (c, g)"
  shows "c \<noteq> part_of s v" and "g = km1_gain hg s v (part_of s v) c"
proof -
  let ?bs = "filter (\<lambda>b. b \<noteq> part_of s v) (map int [0..<k])"
  have ne: "?bs \<noteq> []" using assms by (auto simp: best_target_def split: list.splits)
  have c: "c = arg_min_list (\<lambda>b. - km1_gain hg s v (part_of s v) b) ?bs"
    and g: "g = km1_gain hg s v (part_of s v) c"
    using assms by (auto simp: best_target_def Let_def split: list.splits)
  have "c \<in> set ?bs" unfolding c by (rule arg_min_list_in [OF ne])
  then show "c \<noteq> part_of s v" by simp
  show "g = km1_gain hg s v (part_of s v) c" by (rule g)
qed

lemma best_prefix_scan_le:
  "bi \<le> i \<Longrightarrow> best_prefix_scan cur best i bi gs \<le> i + length gs"
proof (induction gs arbitrary: cur best i bi)
  case Nil
  then show ?case by simp
next
  case (Cons g gs)
  have a: "best_prefix_scan (cur + g) (cur + g) (i + 1) (i + 1) gs \<le> i + 1 + length gs"
    by (rule Cons.IH) simp
  have b: "best_prefix_scan (cur + g) best (i + 1) bi gs \<le> i + 1 + length gs"
    by (rule Cons.IH) (use Cons.prems in simp)
  show ?case using a b by simp
qed

lemma best_prefix_le: "best_prefix gs \<le> length gs"
  using best_prefix_scan_le [of 0 0 0 0 gs] by (simp add: best_prefix_def)


subsection \<open>The expansion and the rollback\<close>

text \<open>One successful move extends the log.\<close>

lemma move_step:
  assumes wf: "wf_hypergraph hg"
    and bound: "sum_list (map (\<lambda>e. \<bar>edgeWeight hg e\<bar>) (enabledEdges hg)) < - invalidGain"
    and con: "consistent hg s" and po: "part_of s = replay moves p0"
    and lg: "exact_log hg p0 moves"
    and v: "v \<in> set (enabledNodes hg)" and tg: "best_target hg k s v = Some (c, g)"
  shows "consistent hg (move_node hg v (part_of s v) c s)"
    and "part_of (move_node hg v (part_of s v) c s)
         = replay (moves @ [\<lparr>mv_node = v, mv_from = part_of s v, mv_to = c, mv_gain = g,
                               mv_id = length moves\<rparr>]) p0"
    and "exact_log hg p0 (moves @ [\<lparr>mv_node = v, mv_from = part_of s v, mv_to = c, mv_gain = g,
                                      mv_id = length moves\<rparr>])"
proof -
  let ?a = "part_of s v"
  let ?m = "\<lparr>mv_node = v, mv_from = ?a, mv_to = c, mv_gain = g, mv_id = length moves\<rparr>"
  note T = best_target_Some [OF tg]
  note M = move_node_consistent [OF wf con v refl T(1)]
  show "consistent hg (move_node hg v ?a c s)" by (rule M(1))
  have q: "replay moves p0 = part_of s" using po by simp
  have sel: "mv_node ?m = v" "mv_from ?m = ?a" "mv_to ?m = c" "mv_gain ?m = g" by simp_all
  have "replay (moves @ [?m]) p0 = (part_of s)(v := c)"
    unfolding replay_append sel q by (rule refl)
  then show "part_of (move_node hg v ?a c s) = replay (moves @ [?m]) p0"
    using M(2) by simp
  have ex: "g = km1_part hg (part_of s) - km1_part hg ((part_of s)(v := c))"
    unfolding T(2) by (rule km1_gain_exact [OF wf con v refl T(1)])
  have "\<bar>g\<bar> < - invalidGain"
    using km1_gain_bound [OF wf v, of s ?a c] bound T(2) by simp
  then have nv: "g \<noteq> invalidGain" by auto
  have "exact_log hg p0 moves \<and> mv_node ?m \<in> set (enabledNodes hg)
     \<and> replay moves p0 (mv_node ?m) = mv_from ?m \<and> mv_to ?m \<noteq> mv_from ?m
     \<and> mv_gain ?m = km1_part hg (replay moves p0)
                      - km1_part hg ((replay moves p0)(mv_node ?m := mv_to ?m))
     \<and> mv_gain ?m \<noteq> invalidGain"
    unfolding sel q using lg v T(1) ex nv by blast
  then show "exact_log hg p0 (moves @ [?m])" unfolding exact_log_append .
qed

lemma expand_spec:
  assumes wf: "wf_hypergraph hg"
    and bound: "sum_list (map (\<lambda>e. \<bar>edgeWeight hg e\<bar>) (enabledEdges hg)) < - invalidGain"
  shows "expand hg k mpw limit pq untouched moves s = (s1, moves1) \<Longrightarrow> consistent hg s
       \<Longrightarrow> part_of s = replay moves p0 \<Longrightarrow> exact_log hg p0 moves
       \<Longrightarrow> set pq \<subseteq> set (enabledNodes hg) \<Longrightarrow> set untouched \<subseteq> set (enabledNodes hg)
       \<Longrightarrow> consistent hg s1 \<and> part_of s1 = replay moves1 p0 \<and> exact_log hg p0 moves1"
proof (induction "length pq + length untouched" arbitrary: pq untouched moves s rule: less_induct)
  case less
  note run = less.prems(1) [unfolded expand.simps [of hg k mpw limit pq untouched moves s]]
  show ?case
  proof (cases "pq = [] \<or> stop_search limit moves")
    case True
    then have "s1 = s" "moves1 = moves" using run by simp_all
    then show ?thesis using less.prems(2-4) by simp
  next
    case False
    define v where "v = arg_min_list (\<lambda>u. - best_gain hg k s u) pq"
    have vin: "v \<in> set pq" unfolding v_def by (rule arg_min_list_in) (use False in simp)
    then have ven: "v \<in> set (enabledNodes hg)" using less.prems(5) by blast
    have len1: "length (remove1 v pq) + length untouched < length pq + length untouched"
    proof -
      have "0 < length pq" using vin by (cases pq) simp_all
      then show ?thesis using vin by (simp add: length_remove1)
    qed
    have sub1: "set (remove1 v pq) \<subseteq> set (enabledNodes hg)"
      using less.prems(5) set_remove1_subset [of v pq] by blast
    note run1 = run [folded v_def]
    show ?thesis
    proof (cases "best_target hg k s v")
      case None
      have rec: "expand hg k mpw limit (remove1 v pq) untouched moves s = (s1, moves1)"
        using run1 False None by (simp add: Let_def)
      show ?thesis
        by (rule less.hyps [OF len1 rec less.prems(2-4) sub1 less.prems(6)])
    next
      case (Some t)
      obtain c g where t: "t = (c, g)" by (cases t)
      note tg = Some [unfolded t]
      show ?thesis
      proof (cases "change_part hg mpw v (part_of s v) c s")
        case None
        have rec: "expand hg k mpw limit (remove1 v pq) untouched moves s = (s1, moves1)"
          using run1 False tg None by (simp add: Let_def)
        show ?thesis
          by (rule less.hyps [OF len1 rec less.prems(2-4) sub1 less.prems(6)])
      next
        case (Some s')
        let ?m = "\<lparr>mv_node = v, mv_from = part_of s v, mv_to = c, mv_gain = g,
                    mv_id = length moves\<rparr>"
        let ?new = "filter (\<lambda>u. u \<in> set (neighbors hg v)) untouched"
        let ?rest = "filter (\<lambda>u. u \<notin> set (neighbors hg v)) untouched"
        have s': "s' = move_node hg v (part_of s v) c s"
          using Some by (simp add: change_part_def split: if_splits)
        have rec: "expand hg k mpw limit (remove1 v pq @ ?new) ?rest (moves @ [?m]) s'
                     = (s1, moves1)"
          using run1 False tg Some by (simp add: Let_def)
        note S = move_step [OF wf bound less.prems(2-4) ven tg, folded s']
        have "length ?new + length ?rest = length untouched"
          by (rule sum_length_filter_compl)
        then have len2: "length (remove1 v pq @ ?new) + length ?rest
                           < length pq + length untouched"
          using len1 by simp
        have sub2: "set (remove1 v pq @ ?new) \<subseteq> set (enabledNodes hg)"
          using sub1 less.prems(6) by auto
        have sub3: "set ?rest \<subseteq> set (enabledNodes hg)" using less.prems(6) by auto
        show ?thesis
          by (rule less.hyps [OF len2 rec S sub2 sub3])
      qed
    qed
  qed
qed

lemma revert_moves_spec:
  assumes wf: "wf_hypergraph hg"
  shows "revert_moves hg (rev B) s = (s', marked) \<Longrightarrow> consistent hg s
       \<Longrightarrow> part_of s = replay (A @ B) p0 \<Longrightarrow> exact_log hg p0 (A @ B)
       \<Longrightarrow> consistent hg s' \<and> part_of s' = replay A p0
           \<and> marked = map (\<lambda>m. m\<lparr>mv_gain := invalidGain\<rparr>) B"
proof (induction B arbitrary: s s' marked rule: rev_induct)
  case Nil
  then show ?case by simp
next
  case (snoc m B)
  let ?v = "mv_node m"
  let ?q = "replay (A @ B) p0"
  obtain mk where
    rec: "revert_moves hg (rev B) (revert_move hg m s) = (s', mk)"
    and mk: "marked = mk @ [m\<lparr>mv_gain := invalidGain\<rparr>]"
    using snoc.prems(1)
    by (cases "revert_moves hg (rev B) (revert_move hg m s)") auto
  have lg: "exact_log hg p0 ((A @ B) @ [m])" using snoc.prems(4) by simp
  note L = lg [unfolded exact_log_append]
  have l1: "exact_log hg p0 (A @ B)" and l2: "?v \<in> set (enabledNodes hg)"
    and l3: "?q ?v = mv_from m" and l4: "mv_to m \<noteq> mv_from m"
    using L by blast+
  have po: "part_of s = ?q(?v := mv_to m)"
    using snoc.prems(3) unfolding append_assoc [symmetric] replay_append .
  have at: "part_of s ?v = mv_to m" unfolding po by simp
  have ne: "mv_from m \<noteq> mv_to m" using l4 by simp
  note M = move_node_consistent [OF wf snoc.prems(2) l2 at ne]
  have c1: "consistent hg (revert_move hg m s)" unfolding revert_move_def by (rule M(1))
  have "part_of (revert_move hg m s) = (?q(?v := mv_to m))(?v := mv_from m)"
    unfolding revert_move_def M(2) po by (rule refl)
  also have "\<dots> = ?q(?v := ?q ?v)" unfolding l3 by (rule fun_upd_upd)
  also have "\<dots> = ?q" by (rule fun_upd_triv)
  finally have p1: "part_of (revert_move hg m s) = ?q" .
  note IH = snoc.IH [OF rec c1 p1 l1]
  show ?case using IH mk by simp
qed


text \<open>
  C8: after one localized search on a consistent partitioned hypergraph, the objective
  \<open>km1\<close> is its value before the search minus the sum of the gains of the moves in the
  tracker whose gain is not marked invalid, and the moves whose gain is marked invalid
  are exactly the moves that the rollback reverted. The weight of all hyperedges must stay
  below the magnitude of the invalid gain, so that no move has that gain.
\<close>

theorem findMoves_km1_accounting:
  assumes wf: "wf_hypergraph hg" and con: "consistent hg s"
    and bound: "sum_list (map (\<lambda>e. \<bar>edgeWeight hg e\<bar>) (enabledEdges hg)) < - invalidGain"
    and run: "findMoves hg k mpw limit seeds s = (s', tracker)"
  shows "km1 hg s' = km1 hg s
           - sum_list (map mv_gain (filter (\<lambda>m. mv_gain m \<noteq> invalidGain) tracker))
       \<and> filter (\<lambda>m. mv_gain m = invalidGain) tracker
           = map (\<lambda>m. m\<lparr>mv_gain := invalidGain\<rparr>) (reverted_moves hg k mpw limit seeds s)
       \<and> consistent hg s'"
proof -
  let ?pq = "claim_seeds hg seeds"
  let ?un = "filter (\<lambda>v. v \<notin> set (claim_seeds hg seeds)) (enabledNodes hg)"
  let ?p0 = "part_of s"
  obtain s1 moves where ex: "expand hg k mpw limit ?pq ?un [] s = (s1, moves)"
    by (cases "expand hg k mpw limit ?pq ?un [] s")
  have pm: "performed_moves hg k mpw limit seeds s = moves"
    by (simp add: performed_moves_def ex)
  define b where "b = best_prefix (map mv_gain moves)"
  have rm: "reverted_moves hg k mpw limit seeds s = drop b moves"
    by (simp add: reverted_moves_def pm b_def)
  have p0: "part_of s = replay [] ?p0" by (simp only: replay_Nil)
  have l0: "exact_log hg ?p0 []" by simp
  have sub1: "set ?pq \<subseteq> set (enabledNodes hg)" by (auto simp: claim_seeds_def)
  have sub2: "set ?un \<subseteq> set (enabledNodes hg)" by auto
  note E = expand_spec [OF wf bound ex con p0 l0 sub1 sub2]
  have e1: "consistent hg s1" and e2: "part_of s1 = replay moves ?p0"
    and e3: "exact_log hg ?p0 moves"
    using E by blast+
  obtain s2 marked where rv: "revert_moves hg (rev (drop b moves)) s1 = (s2, marked)"
    by (cases "revert_moves hg (rev (drop b moves)) s1")
  have res: "s' = s2" "tracker = take b moves @ marked"
    using run by (simp_all add: findMoves_def ex rollback_def b_def [symmetric] rv)
  have e2': "part_of s1 = replay (take b moves @ drop b moves) ?p0"
    using e2 by (simp only: append_take_drop_id)
  have e3': "exact_log hg ?p0 (take b moves @ drop b moves)"
    using e3 by (simp only: append_take_drop_id)
  note R = revert_moves_spec [OF wf rv e1 e2' e3']
  have r1: "consistent hg s2" and r2: "part_of s2 = replay (take b moves) ?p0"
    and r3: "marked = map (\<lambda>m. m\<lparr>mv_gain := invalidGain\<rparr>) (drop b moves)"
    using R by blast+
  have lk: "exact_log hg ?p0 (take b moves)" by (rule exact_log_prefix [OF e3'])
  have valid: "\<forall>m\<in>set (take b moves). mv_gain m \<noteq> invalidGain"
    by (rule exact_log_valid [OF lk])
  have inval: "\<forall>m\<in>set marked. mv_gain m = invalidGain" unfolding r3 by simp
  have f1: "filter (\<lambda>m. mv_gain m \<noteq> invalidGain) tracker = take b moves"
  proof -
    have "filter (\<lambda>m. mv_gain m \<noteq> invalidGain) (take b moves) = take b moves"
      using valid by (simp add: filter_id_conv)
    moreover have "filter (\<lambda>m. mv_gain m \<noteq> invalidGain) marked = []"
      using inval by (simp add: filter_empty_conv)
    ultimately show ?thesis unfolding res(2) filter_append by simp
  qed
  have f2: "filter (\<lambda>m. mv_gain m = invalidGain) tracker = marked"
  proof -
    have "filter (\<lambda>m. mv_gain m = invalidGain) (take b moves) = []"
      using valid by (simp add: filter_empty_conv)
    moreover have "filter (\<lambda>m. mv_gain m = invalidGain) marked = marked"
      using inval by (simp add: filter_id_conv)
    ultimately show ?thesis unfolding res(2) filter_append by simp
  qed
  have "km1 hg s' = km1_part hg (replay (take b moves) ?p0)"
    unfolding res(1) km1_consistent [OF r1] r2 by (rule refl)
  moreover have "km1 hg s = km1_part hg ?p0" by (rule km1_consistent [OF con])
  moreover have "sum_list (map mv_gain (take b moves))
               = km1_part hg ?p0 - km1_part hg (replay (take b moves) ?p0)"
    by (rule exact_log_sum [OF lk])
  ultimately have k: "km1 hg s' = km1 hg s - sum_list (map mv_gain (take b moves))" by simp
  show ?thesis unfolding f1 f2 rm r3 [symmetric] using k r1 res(1) by simp
qed

lemma fm_example_wf: "wf_hypergraph fm_example"
  by code_simp

lemma fm_example_bound:
  "sum_list (map (\<lambda>e. \<bar>edgeWeight fm_example e\<bar>) (enabledEdges fm_example)) < - invalidGain"
  by code_simp

lemma fm_example_consistent: "consistent fm_example (initialize_partition fm_example 2 fm_blocks)"
  by (rule initialize_partition_consistent) (simp add: fm_blocks_def)

lemma fm_example_before: "km1 fm_example (initialize_partition fm_example 2 fm_blocks) = 6"
  by code_simp

lemma fm_example_tracker:
  "map mv_gain (snd (findMoves fm_example 2 (\<lambda>b. 3) 2 [0]
                      (initialize_partition fm_example 2 fm_blocks)))
     = [4, 0, invalidGain, invalidGain]"
  by code_simp

lemma fm_example_after:
  "km1 fm_example (fst (findMoves fm_example 2 (\<lambda>b. 3) 2 [0]
                         (initialize_partition fm_example 2 fm_blocks))) = 2"
  by code_simp

theorem findMoves_km1_accounting_witness:
  "km1 fm_example (fst (findMoves fm_example 2 (\<lambda>b. 3) 2 [0]
                         (initialize_partition fm_example 2 fm_blocks)))
     = km1 fm_example (initialize_partition fm_example 2 fm_blocks)
       - sum_list (map mv_gain (filter (\<lambda>m. mv_gain m \<noteq> invalidGain)
           (snd (findMoves fm_example 2 (\<lambda>b. 3) 2 [0]
                  (initialize_partition fm_example 2 fm_blocks)))))
   \<and> km1 fm_example (initialize_partition fm_example 2 fm_blocks) = 6
   \<and> km1 fm_example (fst (findMoves fm_example 2 (\<lambda>b. 3) 2 [0]
                         (initialize_partition fm_example 2 fm_blocks))) = 2
   \<and> map mv_gain (snd (findMoves fm_example 2 (\<lambda>b. 3) 2 [0]
                      (initialize_partition fm_example 2 fm_blocks)))
       = [4, 0, invalidGain, invalidGain]"
  using findMoves_km1_accounting [OF fm_example_wf fm_example_consistent fm_example_bound
      surjective_pairing]
    fm_example_before fm_example_after fm_example_tracker
  by blast

end
